(* ===== verification/CC_Prelude.thy ===== *)
theory CC_Prelude
  imports Main "HOL-Library.Word"
begin

text \<open>
  Shared vocabulary of the development: the machine types of the C sources,
  the errno values the runtime returns, the collections of simplification
  rules the components fill, and the generic facts on lists and 64-bit words
  that more than one component uses.
\<close>

unbundle bit_operations_syntax

section \<open>Machine types and error numbers\<close>

type_synonym u64 = "64 word"
type_synonym u32 = "32 word"
type_synonym errno = nat

text \<open>The Linux values of the error numbers that the runtime sources name.\<close>

abbreviation (input) OK :: errno where "OK \<equiv> 0"

definition EINTR :: errno where "EINTR = 4"
definition EAGAIN :: errno where "EAGAIN = 11"
definition ENOMEM :: errno where "ENOMEM = 12"
definition EBUSY :: errno where "EBUSY = 16"
definition EINVAL :: errno where "EINVAL = 22"
definition EPIPE :: errno where "EPIPE = 32"
definition ETIMEDOUT :: errno where "ETIMEDOUT = 110"
definition ECANCELED :: errno where "ECANCELED = 125"

lemmas errno_defs = EINTR_def EAGAIN_def ENOMEM_def EBUSY_def EINVAL_def EPIPE_def
  ETIMEDOUT_def ECANCELED_def

section \<open>Collections\<close>

named_theorems ring_simps \<open>unfolding rules of the ring-queue operations\<close>
named_theorems chan_simps \<open>unfolding rules of the channel operations\<close>
named_theorems sched_simps \<open>unfolding rules of the scheduler steps\<close>
named_theorems scan_simps \<open>unfolding rules of the text scanners\<close>

section \<open>Generic facts\<close>

subsection \<open>Words\<close>

lemma unat_of_nat_small: "n < 2 ^ 64 \<Longrightarrow> unat (of_nat n :: u64) = n"
  by (simp add: unat_of_nat)

lemma and_mask_mod:
  fixes w :: u64
  assumes "k < 64"
  shows "unat (w AND (2 ^ k - 1)) = unat w mod 2 ^ k"
proof -
  have *: "w AND (2 ^ k - 1) = take_bit k w"
    unfolding take_bit_eq_mask mask_eq_exp_minus_1 ..
  show ?thesis
    unfolding * unsigned_take_bit_eq by (rule take_bit_eq_mod)
qed

lemma sint_of_nat_small: "n < 2 ^ 63 \<Longrightarrow> sint (of_nat n :: u64) = int n"
  unfolding signed_of_nat by (subst signed_take_bit_int_eq_self) simp_all

subsection \<open>Lists\<close>

lemma map_upt_shift: "map f [Suc a..<Suc b] = map (\<lambda>i. f (Suc i)) [a..<b]"
  unfolding map_Suc_upt [symmetric] by simp

lemma nth_append_last [simp]: "(xs @ [x]) ! length xs = x"
  by simp

end
