(* ===== verification/Mpmc_Ring.thy ===== *)
theory Mpmc_Ring
  imports CC_Prelude
begin

text \<open>
  The concurrency argument of the multi-producer/multi-consumer ring of
  channel.c, on counters that do not wrap.  A system of threads runs the
  retry loops of \<^verbatim>\<open>cc__queue_enqueue_value\<close> and \<^verbatim>\<open>cc__queue_dequeue_value\<close>
  one shared-memory access at a time, in any order.  The history variables
  record the values in the order their tail compare-and-swap succeeded and the
  pairs of position and value that finished dequeues returned.  Theory
  Ring_Queue refines this machine to the 64-bit counters of the code.
\<close>

section \<open>Program counters\<close>

datatype ('v, 'p) pc =
    Idle
  | E_Load 'v
  | E_Cell 'v 'p
  | E_Cas 'v 'p
  | E_Write 'v 'p
  | E_Pub 'v 'p
  | E_Done bool
  | D_Load
  | D_Cell 'p
  | D_Cas 'p
  | D_Read 'p
  | D_Pub 'v 'p
  | D_Done "'v option"

text \<open>A thread may start a call when it is between calls.\<close>

fun pc_ready :: "('v, 'p) pc \<Rightarrow> bool" where
  "pc_ready Idle = True"
| "pc_ready (E_Done _) = True"
| "pc_ready (D_Done _) = True"
| "pc_ready _ = False"

datatype 'v ring_ev =
    Call_enqueue nat 'v
  | Call_dequeue nat
  | Run nat bool

section \<open>The machine on unbounded counters\<close>

record 'v nring =
  nN :: nat
  ntail :: nat
  nhead :: nat
  nseq :: "nat \<Rightarrow> nat"
  nval :: "nat \<Rightarrow> 'v"
  npc :: "nat \<Rightarrow> ('v, nat) pc"
  nlog :: "'v list"
  nouts :: "(nat \<times> 'v) list"

definition goto :: "'v nring \<Rightarrow> nat \<Rightarrow> ('v, nat) pc \<Rightarrow> 'v nring" where
  "goto s t c = s\<lparr>npc := (npc s)(t := c)\<rparr>"

definition nrun :: "'v nring \<Rightarrow> nat \<Rightarrow> bool \<Rightarrow> 'v nring" where
  "nrun s t spurious = (case npc s t of
      Idle \<Rightarrow> s | E_Done _ \<Rightarrow> s | D_Done _ \<Rightarrow> s
    | E_Load v \<Rightarrow> goto s t (E_Cell v (ntail s))
    | E_Cell v p \<Rightarrow>
        (let sq = nseq s (p mod nN s) in
         goto s t (if sq = p then E_Cas v p else if sq < p then E_Done False else E_Load v))
    | E_Cas v p \<Rightarrow>
        (if ntail s = p \<and> \<not> spurious
         then goto (s\<lparr>ntail := p + 1, nlog := nlog s @ [v]\<rparr>) t (E_Write v p)
         else goto s t (E_Cell v (ntail s)))
    | E_Write v p \<Rightarrow> goto (s\<lparr>nval := (nval s)(p mod nN s := v)\<rparr>) t (E_Pub v p)
    | E_Pub v p \<Rightarrow> goto (s\<lparr>nseq := (nseq s)(p mod nN s := p + 1)\<rparr>) t (E_Done True)
    | D_Load \<Rightarrow> goto s t (D_Cell (nhead s))
    | D_Cell p \<Rightarrow>
        (let sq = nseq s (p mod nN s) in
         goto s t (if sq = p + 1 then D_Cas p else if sq < p + 1 then D_Done None else D_Load))
    | D_Cas p \<Rightarrow>
        (if nhead s = p \<and> \<not> spurious
         then goto (s\<lparr>nhead := p + 1\<rparr>) t (D_Read p)
         else goto s t (D_Cell (nhead s)))
    | D_Read p \<Rightarrow> goto s t (D_Pub (nval s (p mod nN s)) p)
    | D_Pub v p \<Rightarrow>
        goto (s\<lparr>nseq := (nseq s)(p mod nN s := p + nN s), nouts := nouts s @ [(p, v)]\<rparr>) t
          (D_Done (Some v)))"

fun nstep :: "'v nring \<Rightarrow> 'v ring_ev \<Rightarrow> 'v nring" where
  "nstep s (Call_enqueue t v) = (if pc_ready (npc s t) then goto s t (E_Load v) else s)"
| "nstep s (Call_dequeue t) = (if pc_ready (npc s t) then goto s t D_Load else s)"
| "nstep s (Run t spurious) = nrun s t spurious"

section \<open>Claims held by threads\<close>

fun e_claim :: "('v, nat) pc \<Rightarrow> nat \<Rightarrow> bool" where
  "e_claim (E_Write _ q) p = (p = q)"
| "e_claim (E_Pub _ q) p = (p = q)"
| "e_claim _ p = False"

fun d_claim :: "('v, nat) pc \<Rightarrow> nat \<Rightarrow> bool" where
  "d_claim (D_Read q) p = (p = q)"
| "d_claim (D_Pub _ q) p = (p = q)"
| "d_claim _ p = False"

definition pendE :: "'v nring \<Rightarrow> nat \<Rightarrow> bool" where
  "pendE s p = (\<exists>t. e_claim (npc s t) p)"

definition pendD :: "'v nring \<Rightarrow> nat \<Rightarrow> bool" where
  "pendD s p = (\<exists>t. d_claim (npc s t) p)"

text \<open>What a program counter promises about the shared state.\<close>

fun pc_inv :: "'v nring \<Rightarrow> ('v, nat) pc \<Rightarrow> bool" where
  "pc_inv s (E_Cell v p) = (p \<le> ntail s)"
| "pc_inv s (E_Cas v p) = (p \<le> ntail s \<and> (p = ntail s \<longrightarrow> nseq s (p mod nN s) = p))"
| "pc_inv s (E_Write v p) = (nhead s \<le> p \<and> p < ntail s \<and> nlog s ! p = v)"
| "pc_inv s (E_Pub v p) =
    (nhead s \<le> p \<and> p < ntail s \<and> nlog s ! p = v \<and> nval s (p mod nN s) = v)"
| "pc_inv s (D_Cell p) = (p \<le> nhead s)"
| "pc_inv s (D_Cas p) = (p \<le> nhead s \<and> (p = nhead s \<longrightarrow> nseq s (p mod nN s) = p + 1))"
| "pc_inv s (D_Read p) = (p < nhead s)"
| "pc_inv s (D_Pub v p) = (p < nhead s \<and> nlog s ! p = v)"
| "pc_inv s _ = True"

text \<open>The position that owns a cell, and the state of the cell for it.\<close>

definition cell_inv :: "'v nring \<Rightarrow> nat \<Rightarrow> nat \<Rightarrow> bool" where
  "cell_inv s i p =
    (p mod nN s = i \<and>
     (nseq s i = p \<and> (ntail s \<le> p \<or> pendE s p) \<or>
      nseq s i = p + 1 \<and> p < ntail s \<and> \<not> pendE s p \<and> (nhead s \<le> p \<or> pendD s p) \<and>
      nval s i = nlog s ! p) \<and>
     (\<forall>q<p. q mod nN s = i \<longrightarrow> q < nhead s \<and> \<not> pendE s q \<and> \<not> pendD s q) \<and>
     (\<forall>q>p. q mod nN s = i \<longrightarrow> ntail s \<le> q))"

definition outs_inv :: "'v nring \<Rightarrow> bool" where
  "outs_inv s =
    ((\<forall>(p, v) \<in> set (nouts s). p < nhead s \<and> v = nlog s ! p \<and> \<not> pendD s p) \<and>
     distinct (map fst (nouts s)) \<and>
     (\<forall>p<nhead s. pendD s p \<or> p \<in> fst ` set (nouts s)))"

definition nring_inv :: "'v nring \<Rightarrow> bool" where
  "nring_inv s =
    (2 \<le> nN s \<and> nhead s \<le> ntail s \<and> ntail s = length (nlog s) \<and>
     (\<forall>i<nN s. \<exists>p. cell_inv s i p) \<and>
     (\<forall>t. pc_inv s (npc s t)) \<and>
     (\<forall>t u p. e_claim (npc s t) p \<longrightarrow> e_claim (npc s u) p \<longrightarrow> t = u) \<and>
     (\<forall>t u p. d_claim (npc s t) p \<longrightarrow> d_claim (npc s u) p \<longrightarrow> t = u) \<and>
     outs_inv s)"

section \<open>Derived facts of the invariant\<close>

lemma goto_simps [simp]:
  "nN (goto s t c) = nN s" "ntail (goto s t c) = ntail s" "nhead (goto s t c) = nhead s"
  "nseq (goto s t c) = nseq s" "nval (goto s t c) = nval s" "nlog (goto s t c) = nlog s"
  "nouts (goto s t c) = nouts s" "npc (goto s t c) = (npc s)(t := c)"
  by (simp_all add: goto_def)

lemma pend_goto:
  "pendE (goto s t c) q = (e_claim c q \<or> (\<exists>u. u \<noteq> t \<and> e_claim (npc s u) q))"
  "pendD (goto s t c) q = (d_claim c q \<or> (\<exists>u. u \<noteq> t \<and> d_claim (npc s u) q))"
  by (auto simp: pendE_def pendD_def)

lemma pend_split:
  "pendE s q = (e_claim (npc s t) q \<or> (\<exists>u. u \<noteq> t \<and> e_claim (npc s u) q))"
  "pendD s q = (d_claim (npc s t) q \<or> (\<exists>u. u \<noteq> t \<and> d_claim (npc s u) q))"
  by (auto simp: pendE_def pendD_def)

lemma pend_update [simp]:
  "pendE (s\<lparr>ntail := a\<rparr>) = pendE s" "pendE (s\<lparr>nhead := a\<rparr>) = pendE s"
  "pendE (s\<lparr>nlog := l\<rparr>) = pendE s" "pendE (s\<lparr>nseq := f\<rparr>) = pendE s"
  "pendE (s\<lparr>nval := g\<rparr>) = pendE s" "pendE (s\<lparr>nouts := os\<rparr>) = pendE s"
  "pendD (s\<lparr>ntail := a\<rparr>) = pendD s" "pendD (s\<lparr>nhead := a\<rparr>) = pendD s"
  "pendD (s\<lparr>nlog := l\<rparr>) = pendD s" "pendD (s\<lparr>nseq := f\<rparr>) = pendD s"
  "pendD (s\<lparr>nval := g\<rparr>) = pendD s" "pendD (s\<lparr>nouts := os\<rparr>) = pendD s"
  by (auto simp: pendE_def pendD_def fun_eq_iff)

lemma claim_exclusive: "e_claim c p \<Longrightarrow> \<not> d_claim c q"
  by (cases c) auto

lemma nring_invD:
  assumes "nring_inv s"
  shows "2 \<le> nN s" "nhead s \<le> ntail s" "ntail s = length (nlog s)"
    "i < nN s \<Longrightarrow> \<exists>p. cell_inv s i p" "pc_inv s (npc s t)"
    "e_claim (npc s t) p \<Longrightarrow> e_claim (npc s u) p \<Longrightarrow> t = u"
    "d_claim (npc s t) p \<Longrightarrow> d_claim (npc s u) p \<Longrightarrow> t = u"
    "outs_inv s"
  using assms by (auto simp: nring_inv_def)

lemma e_claim_bounds: "nring_inv s \<Longrightarrow> e_claim (npc s t) p \<Longrightarrow> nhead s \<le> p \<and> p < ntail s"
  using nring_invD(5) [of s t] by (cases "npc s t") auto

lemma d_claim_bounds: "nring_inv s \<Longrightarrow> d_claim (npc s t) p \<Longrightarrow> p < nhead s"
  using nring_invD(5) [of s t] by (cases "npc s t") auto

lemma mod_Suc_neq:
  assumes "2 \<le> (n::nat)"
  shows "Suc p mod n \<noteq> p mod n"
proof
  assume "Suc p mod n = p mod n"
  then have "n dvd Suc p - p" by (metis mod_eq_dvd_iff_nat le_SucI order_refl)
  then show False using assms by simp
qed

lemma cell_index: "nring_inv s \<Longrightarrow> p mod nN s < nN s"
  using nring_invD(1) [of s] by simp

lemma e_claim_cell:
  assumes inv: "nring_inv s" and cl: "e_claim (npc s t) p"
  shows "cell_inv s (p mod nN s) p" and "nseq s (p mod nN s) = p"
proof -
  obtain r where r: "cell_inv s (p mod nN s) r"
    using nring_invD(4) [OF inv] cell_index [OF inv] by blast
  have pend: "pendE s p" using cl by (auto simp: pendE_def)
  have "p < ntail s" using e_claim_bounds [OF inv cl] by simp
  then have "\<not> r < p" and "\<not> p < r"
    using r pend by (auto simp: cell_inv_def)
  then have "r = p" by simp
  then show "cell_inv s (p mod nN s) p" using r by simp
  then show "nseq s (p mod nN s) = p" using pend by (auto simp: cell_inv_def)
qed

lemma d_claim_cell:
  assumes inv: "nring_inv s" and cl: "d_claim (npc s t) p"
  shows "cell_inv s (p mod nN s) p" and "nseq s (p mod nN s) = p + 1"
    and "nval s (p mod nN s) = nlog s ! p"
proof -
  obtain r where r: "cell_inv s (p mod nN s) r"
    using nring_invD(4) [OF inv] cell_index [OF inv] by blast
  have pend: "pendD s p" using cl by (auto simp: pendD_def)
  have lt: "p < nhead s" using d_claim_bounds [OF inv cl] .
  then have "\<not> r < p" and "\<not> p < r"
    using r pend nring_invD(2) [OF inv] by (auto simp: cell_inv_def)
  then have "r = p" by simp
  then show *: "cell_inv s (p mod nN s) p" using r by simp
  have "\<not> pendE s p" using lt e_claim_bounds [OF inv] by (auto simp: pendE_def dest: leD)
  then show "nseq s (p mod nN s) = p + 1" and "nval s (p mod nN s) = nlog s ! p"
    using * lt nring_invD(2) [OF inv] by (auto simp: cell_inv_def)
qed

lemma seq_cell:
  assumes inv: "nring_inv s"
  shows "nseq s (p mod nN s) = p \<Longrightarrow> cell_inv s (p mod nN s) p"
    and "nseq s (p mod nN s) = p + 1 \<Longrightarrow> cell_inv s (p mod nN s) p"
proof -
  obtain r where r: "cell_inv s (p mod nN s) r"
    using nring_invD(4) [OF inv] cell_index [OF inv] by blast
  then have m: "r mod nN s = p mod nN s" by (simp add: cell_inv_def)
  have ne: "Suc p mod nN s \<noteq> p mod nN s" "Suc r mod nN s \<noteq> r mod nN s"
    using mod_Suc_neq nring_invD(1) [OF inv] by auto
  show "cell_inv s (p mod nN s) p" if "nseq s (p mod nN s) = p"
  proof -
    have "r = p" using r that m ne by (auto simp: cell_inv_def)
    then show ?thesis using r by simp
  qed
  show "cell_inv s (p mod nN s) p" if "nseq s (p mod nN s) = p + 1"
  proof -
    have "r = p" using r that m ne by (auto simp: cell_inv_def)
    then show ?thesis using r by simp
  qed
qed

section \<open>Every step keeps the invariant\<close>

lemma cell_inv_cong:
  assumes "nN s' = nN s" "ntail s' = ntail s" "nhead s' = nhead s" "nseq s' i = nseq s i"
    "nval s' i = nval s i" "nlog s' = nlog s" "pendE s' = pendE s" "pendD s' = pendD s"
  shows "cell_inv s' i p = cell_inv s i p"
  using assms by (simp add: cell_inv_def)

lemma pc_inv_cong:
  assumes "nN s' = nN s" "ntail s' = ntail s" "nhead s' = nhead s" "nseq s' = nseq s"
    "nval s' = nval s" "nlog s' = nlog s"
  shows "pc_inv s' c = pc_inv s c"
  using assms by (cases c) simp_all

lemma goto_inv:
  assumes inv: "nring_inv s" and pc: "pc_inv s c"
    and e: "\<And>p. e_claim c p = e_claim (npc s t) p" and d: "\<And>p. d_claim c p = d_claim (npc s t) p"
  shows "nring_inv (goto s t c)"
proof -
  have cl: "e_claim (npc (goto s t c) u) p = e_claim (npc s u) p"
    "d_claim (npc (goto s t c) u) p = d_claim (npc s u) p" for u p
    using e d by simp_all
  have pend: "pendE (goto s t c) = pendE s" "pendD (goto s t c) = pendD s"
    unfolding pendE_def pendD_def cl by simp_all
  have "cell_inv (goto s t c) i p = cell_inv s i p" for i p
    by (rule cell_inv_cong) (simp_all add: pend)
  moreover have "pc_inv (goto s t c) x = pc_inv s x" for x
    by (rule pc_inv_cong) simp_all
  ultimately show ?thesis
    using inv pc e d by (auto simp: nring_inv_def outs_inv_def pend)
qed

lemma nring_inv_intro:
  assumes "2 \<le> nN s" "nhead s \<le> ntail s" "ntail s = length (nlog s)"
    "\<And>i. i < nN s \<Longrightarrow> \<exists>p. cell_inv s i p" "\<And>t. pc_inv s (npc s t)"
    "\<And>t u p. e_claim (npc s t) p \<Longrightarrow> e_claim (npc s u) p \<Longrightarrow> t = u"
    "\<And>t u p. d_claim (npc s t) p \<Longrightarrow> d_claim (npc s u) p \<Longrightarrow> t = u"
    "outs_inv s"
  shows "nring_inv s"
  using assms unfolding nring_inv_def by blast

lemma E_Cas_inv:
  assumes inv: "nring_inv s" and pc: "npc s t = E_Cas v p" and hit: "ntail s = p"
    and s': "s' = goto (s\<lparr>ntail := p + 1, nlog := nlog s @ [v]\<rparr>) t (E_Write v p)"
  shows "nring_inv s'"
proof -
  note D = nring_invD [OF inv]
  have F: "nN s' = nN s" "ntail s' = Suc p" "nhead s' = nhead s" "nseq s' = nseq s"
    "nval s' = nval s" "nlog s' = nlog s @ [v]" "nouts s' = nouts s"
    "npc s' = (npc s)(t := E_Write v p)"
    by (simp_all add: s')
  have seq: "nseq s (p mod nN s) = p" using D(5) [of t] pc hit by simp
  have own: "cell_inv s (p mod nN s) p" by (rule seq_cell(1) [OF inv seq])
  have hp: "nhead s \<le> p" using D(2) hit by simp
  have t0: "\<not> e_claim (npc s t) q" "\<not> d_claim (npc s t) q" for q using pc by simp_all
  have pe: "pendE s' q = (q = p \<or> pendE s q)" for q
    using t0 by (simp add: s' pend_goto pend_split [of s q t])
  have pd: "pendD s' q = pendD s q" for q
    using t0 by (simp add: s' pend_goto pend_split [of s q t])
  have fresh: "\<not> e_claim (npc s u) p" for u
    using e_claim_bounds [OF inv, of u p] hit by auto
  have log: "(nlog s @ [v]) ! q = nlog s ! q" if "q < p" for q
    using that D(3) hit by (simp add: nth_append)
  have logp: "(nlog s @ [v]) ! p = v" using D(3) hit by simp
  have cells: "\<exists>r. cell_inv s' i r" if i: "i < nN s'" for i
  proof (cases "i = p mod nN s")
    case True
    have "cell_inv s' i p"
      using own hit seq True by (auto simp: cell_inv_def pe pd F)
    then show ?thesis ..
  next
    case False
    obtain r where r: "cell_inv s i r" using D(4) i F by auto
    have le: "ntail s \<le> q \<longrightarrow> Suc p \<le> q" and ne: "q \<noteq> p" if "q mod nN s = i" for q
      using that False hit by (auto simp: Suc_le_eq le_less)
    have "r mod nN s = i" using r by (simp add: cell_inv_def)
    note le [OF this] ne [OF this]
    then have "cell_inv s' i r"
      using r hit ne le log unfolding cell_inv_def pe pd F by (metis Suc_le_lessD less_SucI)
    then show ?thesis ..
  qed
  have pcs: "pc_inv s' (npc s u)" for u
    using D(5) [of u] hit log hp by (cases "npc s u") (auto simp: F)
  show ?thesis
  proof (rule nring_inv_intro)
    show "pc_inv s' (npc s' u)" for u
      using pcs [of u] hp logp by (simp add: F)
    show "outs_inv s'"
      using D(8) log hp by (auto simp: outs_inv_def pd F)
    show "t' = u" if "e_claim (npc s' t') q" "e_claim (npc s' u) q" for t' u q
      using that D(6) fresh by (auto simp: F split: if_splits)
    show "t' = u" if "d_claim (npc s' t') q" "d_claim (npc s' u) q" for t' u q
      using that D(7) by (auto simp: F split: if_splits)
  qed (use D(1-3) hit hp cells F in auto)
qed

lemma E_Write_inv:
  assumes inv: "nring_inv s" and pc: "npc s t = E_Write v p"
    and s': "s' = goto (s\<lparr>nval := (nval s)(p mod nN s := v)\<rparr>) t (E_Pub v p)"
  shows "nring_inv s'"
proof -
  note D = nring_invD [OF inv]
  have F: "nN s' = nN s" "ntail s' = ntail s" "nhead s' = nhead s" "nseq s' = nseq s"
    "nval s' = (nval s)(p mod nN s := v)" "nlog s' = nlog s" "nouts s' = nouts s"
    "npc s' = (npc s)(t := E_Pub v p)"
    by (simp_all add: s')
  have cl: "e_claim (npc s t) p" using pc by simp
  note own = e_claim_cell [OF inv cl]
  have pe: "pendE s' q = pendE s q" "pendD s' q = pendD s q" for q
    using pc by (simp_all add: s' pend_goto pend_split [of s q t])
  have cells: "\<exists>r. cell_inv s' i r" if i: "i < nN s'" for i
  proof (cases "i = p mod nN s")
    case True
    have "cell_inv s' i p" using own True by (auto simp: cell_inv_def pe F)
    then show ?thesis ..
  next
    case False
    obtain r where "cell_inv s i r" using D(4) i F by auto
    then have "cell_inv s' i r" using False by (simp add: cell_inv_def pe F)
    then show ?thesis ..
  qed
  have pcs: "pc_inv s' (npc s u)" if "u \<noteq> t" for u
  proof -
    have "e_claim (npc s u) q \<Longrightarrow> q mod nN s \<noteq> p mod nN s" for q
      using that D(6) [of u q t] e_claim_cell(2) [OF inv, of u q] own(2) cl by metis
    then show ?thesis using D(5) [of u] by (cases "npc s u") (auto simp: F)
  qed
  have same: "e_claim (npc s' u) q = e_claim (npc s u) q"
    "d_claim (npc s' u) q = d_claim (npc s u) q" for u q
    using pc by (simp_all add: F)
  show ?thesis
  proof (rule nring_inv_intro)
    show "pc_inv s' (npc s' u)" for u
      using pcs [of u] D(5) [of t] pc by (simp add: F)
    show "outs_inv s'" using D(8) by (auto simp: outs_inv_def pe F)
    show "t' = u" if "e_claim (npc s' t') q" "e_claim (npc s' u) q" for t' u q
      using that D(6) unfolding same by blast
    show "t' = u" if "d_claim (npc s' t') q" "d_claim (npc s' u) q" for t' u q
      using that D(7) unfolding same by blast
  qed (use D(1-3) cells F in auto)
qed

lemma E_Pub_inv:
  assumes inv: "nring_inv s" and pc: "npc s t = E_Pub v p"
    and s': "s' = goto (s\<lparr>nseq := (nseq s)(p mod nN s := p + 1)\<rparr>) t (E_Done True)"
  shows "nring_inv s'"
proof -
  note D = nring_invD [OF inv]
  have F: "nN s' = nN s" "ntail s' = ntail s" "nhead s' = nhead s"
    "nseq s' = (nseq s)(p mod nN s := Suc p)" "nval s' = nval s" "nlog s' = nlog s"
    "nouts s' = nouts s" "npc s' = (npc s)(t := E_Done True)"
    by (simp_all add: s')
  have cl: "e_claim (npc s t) p" using pc by simp
  note own = e_claim_cell [OF inv cl]
  have P: "nhead s \<le> p" "p < ntail s" "nval s (p mod nN s) = nlog s ! p"
    using D(5) [of t] pc by simp_all
  have only: "e_claim (npc s u) p \<Longrightarrow> u = t" for u using D(6) cl by blast
  have pe: "pendE s' q = (q \<noteq> p \<and> pendE s q)" for q
    using pc only by (auto simp add: s' pend_goto pend_split [of s q t])
  have pd: "pendD s' q = pendD s q" for q
    using pc by (simp_all add: s' pend_goto pend_split [of s q t])
  have cells: "\<exists>r. cell_inv s' i r" if i: "i < nN s'" for i
  proof (cases "i = p mod nN s")
    case True
    have "cell_inv s' i p" using own True P by (auto simp: cell_inv_def pe pd F)
    then show ?thesis ..
  next
    case False
    obtain r where "cell_inv s i r" using D(4) i F by auto
    then have "cell_inv s' i r" using False by (auto simp: cell_inv_def pe pd F)
    then show ?thesis ..
  qed
  have far: "nseq s (q mod nN s) = q \<or> nseq s (q mod nN s) = q + 1 \<Longrightarrow> q \<noteq> p \<Longrightarrow>
      q mod nN s \<noteq> p mod nN s" for q
    using own(2) mod_Suc_neq [OF D(1), of q] by auto
  have pcs: "pc_inv s' (npc s u)" for u
    using D(5) [of u] far P by (cases "npc s u") (auto simp: F)
  show ?thesis
  proof (rule nring_inv_intro)
    show "pc_inv s' (npc s' u)" for u
      using pcs [of u] by (simp add: F)
    show "outs_inv s'" using D(8) by (auto simp: outs_inv_def pd F)
    show "t' = u" if "e_claim (npc s' t') q" "e_claim (npc s' u) q" for t' u q
      using that D(6) by (auto simp: F split: if_splits)
    show "t' = u" if "d_claim (npc s' t') q" "d_claim (npc s' u) q" for t' u q
      using that D(7) by (auto simp: F split: if_splits)
  qed (use D(1-3) cells F in auto)
qed

lemma D_Cas_inv:
  assumes inv: "nring_inv s" and pc: "npc s t = D_Cas p" and hit: "nhead s = p"
    and s': "s' = goto (s\<lparr>nhead := p + 1\<rparr>) t (D_Read p)"
  shows "nring_inv s'"
proof -
  note D = nring_invD [OF inv]
  have F: "nN s' = nN s" "ntail s' = ntail s" "nhead s' = Suc p" "nseq s' = nseq s"
    "nval s' = nval s" "nlog s' = nlog s" "nouts s' = nouts s"
    "npc s' = (npc s)(t := D_Read p)"
    by (simp_all add: s')
  have seq: "nseq s (p mod nN s) = p + 1" using D(5) [of t] pc hit by simp
  have own: "cell_inv s (p mod nN s) p" by (rule seq_cell(2) [OF inv seq])
  then have full: "p < ntail s" "\<not> pendE s p" using seq by (auto simp: cell_inv_def)
  have t0: "\<not> e_claim (npc s t) q" "\<not> d_claim (npc s t) q" for q using pc by simp_all
  have pe: "pendE s' q = pendE s q" for q
    using t0 by (simp add: s' pend_goto pend_split [of s q t])
  have pd: "pendD s' q = (q = p \<or> pendD s q)" for q
    using t0 by (simp add: s' pend_goto pend_split [of s q t])
  have fresh: "\<not> d_claim (npc s u) q" if "p \<le> q" for u q
    using d_claim_bounds [OF inv, of u q] hit that by auto
  then have fresh': "\<not> pendD s p" by (simp add: pendD_def)
  have cells: "\<exists>r. cell_inv s' i r" if i: "i < nN s'" for i
  proof (cases "i = p mod nN s")
    case True
    have "cell_inv s' i p" using own hit seq True by (auto simp: cell_inv_def pe pd F)
    then show ?thesis ..
  next
    case False
    obtain r where r: "cell_inv s i r" using D(4) i F by auto
    have ne: "q \<noteq> p" "(q < Suc p) = (q < nhead s)" "(Suc p \<le> q) = (nhead s \<le> q)"
      if "q mod nN s = i" for q using that False hit by (auto simp: le_less less_Suc_eq)
    have "r mod nN s = i" using r by (simp add: cell_inv_def)
    note this ne [OF this]
    then have "cell_inv s' i r"
      using r by (simp add: cell_inv_def pe pd F ne)
    then show ?thesis ..
  qed
  have eb: "e_claim (npc s u) q \<Longrightarrow> Suc p \<le> q" for u q
    using e_claim_bounds [OF inv, of u q] full(2) hit
    by (metis Suc_leI le_neq_implies_less pendE_def)
  have pcs: "pc_inv s' (npc s u)" for u
    using D(5) [of u] hit eb [of u] by (cases "npc s u") (auto simp: F)
  show ?thesis
  proof (rule nring_inv_intro)
    show "pc_inv s' (npc s' u)" for u
      using pcs [of u] by (simp add: F)
    show "outs_inv s'"
      using D(8) hit by (auto simp: outs_inv_def pd F less_Suc_eq)
    show "t' = u" if "e_claim (npc s' t') q" "e_claim (npc s' u) q" for t' u q
      using that D(6) by (auto simp: F split: if_splits)
    show "t' = u" if "d_claim (npc s' t') q" "d_claim (npc s' u) q" for t' u q
      using that D(7) fresh by (auto simp: F split: if_splits)
  qed (use D(1-3) hit full cells F in auto)
qed

lemma D_Pub_inv:
  assumes inv: "nring_inv s" and pc: "npc s t = D_Pub v p"
    and s': "s' = goto (s\<lparr>nseq := (nseq s)(p mod nN s := p + nN s),
                nouts := nouts s @ [(p, v)]\<rparr>) t (D_Done (Some v))"
  shows "nring_inv s'"
proof -
  note D = nring_invD [OF inv]
  have F: "nN s' = nN s" "ntail s' = ntail s" "nhead s' = nhead s"
    "nseq s' = (nseq s)(p mod nN s := p + nN s)" "nval s' = nval s" "nlog s' = nlog s"
    "nouts s' = nouts s @ [(p, v)]" "npc s' = (npc s)(t := D_Done (Some v))"
    by (simp_all add: s')
  have cl: "d_claim (npc s t) p" using pc by simp
  note own = d_claim_cell [OF inv cl]
  have P: "p < nhead s" "v = nlog s ! p" using D(5) [of t] pc by simp_all
  have notE: "\<not> pendE s p" using own(1,2) by (auto simp: cell_inv_def)
  have only: "d_claim (npc s u) p \<Longrightarrow> u = t" for u using D(7) cl by blast
  have pe: "pendE s' q = pendE s q" for q
    using pc by (simp_all add: s' pend_goto pend_split [of s q t])
  have pd: "pendD s' q = (q \<noteq> p \<and> pendD s q)" for q
    using pc only by (auto simp add: s' pend_goto pend_split [of s q t])
  have pt: "pendD s p" using cl by (auto simp: pendD_def)
  have cells: "\<exists>r. cell_inv s' i r" if i: "i < nN s'" for i
  proof (cases "i = p mod nN s")
    case True
    have old: "q mod nN s = p mod nN s \<Longrightarrow> q < p \<Longrightarrow> q < nhead s \<and> \<not> pendE s q \<and> \<not> pendD s q"
      and new: "q mod nN s = p mod nN s \<Longrightarrow> p < q \<Longrightarrow> ntail s \<le> q" for q
      using own(1) by (auto simp: cell_inv_def)
    have gap: "q \<le> p" if "q mod nN s = p mod nN s" "q < p + nN s" for q
    proof (rule ccontr)
      assume "\<not> q \<le> p"
      then have "nN s dvd q - p" using that(1) by (metis mod_eq_dvd_iff_nat nat_le_linear)
      then show False using that(2) \<open>\<not> q \<le> p\<close> by (auto dest: dvd_imp_le)
    qed
    have "ntail s \<le> p + nN s" using new [of "p + nN s"] D(1) by simp
    moreover have "q < nhead s \<and> \<not> pendE s q \<and> \<not> (q \<noteq> p \<and> pendD s q)"
      if "q mod nN s = p mod nN s" "q < p + nN s" for q
      using gap [OF that] old [OF that(1)] P(1) notE by (cases "q = p") auto
    moreover have "ntail s \<le> q" if "q mod nN s = p mod nN s" "p + nN s < q" for q
      using new [OF that(1)] that(2) by simp
    ultimately have "cell_inv s' i (p + nN s)"
      unfolding cell_inv_def F pe pd using True by simp
    then show ?thesis ..
  next
    case False
    obtain r where "cell_inv s i r" using D(4) i F by auto
    then have "cell_inv s' i r" using False by (auto simp: cell_inv_def pe pd F)
    then show ?thesis ..
  qed
  have far: "nseq s (q mod nN s) = q \<or> nseq s (q mod nN s) = q + 1 \<Longrightarrow> q \<noteq> p \<Longrightarrow>
      q mod nN s \<noteq> p mod nN s" for q
    using own(2) mod_Suc_neq [OF D(1), of q] mod_Suc_neq [OF D(1), of p] by auto
  have pcs: "pc_inv s' (npc s u)" for u
    using D(5) [of u] D(2) far P by (cases "npc s u") (auto simp: F)
  show ?thesis
  proof (rule nring_inv_intro)
    show "pc_inv s' (npc s' u)" for u
      using pcs [of u] by (simp add: F)
    show "outs_inv s'" using D(8) P pt by (auto simp: outs_inv_def pd F)
    show "t' = u" if "e_claim (npc s' t') q" "e_claim (npc s' u) q" for t' u q
      using that D(6) by (auto simp: F split: if_splits)
    show "t' = u" if "d_claim (npc s' t') q" "d_claim (npc s' u) q" for t' u q
      using that D(7) by (auto simp: F split: if_splits)
  qed (use D(1-3) cells F in auto)
qed

lemma nrun_inv:
  assumes inv: "nring_inv s"
  shows "nring_inv (nrun s t sp)"
proof (cases "npc s t")
  case (E_Cas v p)
  then show ?thesis
    using E_Cas_inv [OF inv E_Cas _ refl] goto_inv [OF inv, of "E_Cell v (ntail s)" t]
    by (auto simp: nrun_def)
next
  case (D_Cas p)
  then show ?thesis
    using D_Cas_inv [OF inv D_Cas _ refl] goto_inv [OF inv, of "D_Cell (nhead s)" t]
    by (auto simp: nrun_def)
next
  case (D_Read p)
  then have "nval s (p mod nN s) = nlog s ! p" and "p < nhead s"
    using d_claim_cell(3) [OF inv, of t p] nring_invD(5) [OF inv, of t] by simp_all
  then show ?thesis
    using D_Read goto_inv [OF inv, of "D_Pub (nval s (p mod nN s)) p" t] by (simp add: nrun_def)
next
  case (E_Cell v p)
  then show ?thesis
    using nring_invD(5) [OF inv, of t] by (auto simp: nrun_def Let_def intro!: goto_inv [OF inv])
next
  case (D_Cell p)
  then show ?thesis
    using nring_invD(5) [OF inv, of t] by (auto simp: nrun_def Let_def intro!: goto_inv [OF inv])
qed (use inv E_Write_inv [OF inv _ refl] E_Pub_inv [OF inv _ refl] D_Pub_inv [OF inv _ refl]
      in \<open>auto simp: nrun_def intro!: goto_inv [OF inv]\<close>)

lemma ready_no_claim: "pc_ready c \<Longrightarrow> \<not> e_claim c p \<and> \<not> d_claim c p"
  by (cases c) simp_all

theorem nstep_inv: "nring_inv s \<Longrightarrow> nring_inv (nstep s ev)"
  by (cases ev) (auto simp: nrun_inv ready_no_claim intro!: goto_inv)

section \<open>The initial state and what the invariant gives\<close>

definition nring_init :: "nat \<Rightarrow> (nat \<Rightarrow> 'v) \<Rightarrow> 'v nring" where
  "nring_init n vals = \<lparr>nN = n, ntail = 0, nhead = 0, nseq = (\<lambda>i. i), nval = vals,
     npc = (\<lambda>_. Idle), nlog = [], nouts = []\<rparr>"

lemma nring_init_inv: "2 \<le> n \<Longrightarrow> nring_inv (nring_init n vals)"
  by (rule nring_inv_intro)
    (auto simp: nring_init_def cell_inv_def outs_inv_def pendE_def pendD_def intro!: exI)

theorem nrun_all_inv: "2 \<le> n \<Longrightarrow> nring_inv (foldl nstep (nring_init n vals) evs)"
  by (induction evs rule: rev_induct) (simp_all add: nring_init_inv nstep_inv)

text \<open>At most as many positions are claimed and not yet taken as the ring has cells.\<close>

lemma occupancy:
  assumes inv: "nring_inv s"
  shows "ntail s \<le> nhead s + nN s"
proof (rule ccontr)
  note D = nring_invD [OF inv]
  assume "\<not> ntail s \<le> nhead s + nN s"
  define q where "q = ntail s - nN s - 1"
  have q: "ntail s = q + nN s + 1" "nhead s \<le> q"
    using \<open>\<not> ntail s \<le> nhead s + nN s\<close> by (simp_all add: q_def)
  obtain r where r: "cell_inv s (q mod nN s) r" using D(4) cell_index [OF inv] by blast
  have "r \<le> q" using r q(2) by (meson cell_inv_def not_le)
  then have "r < q + nN s" using D(1) by simp
  then have "ntail s \<le> q + nN s" using r by (simp add: cell_inv_def)
  then show False using q by simp
qed

text \<open>A finished dequeue returned the value enqueued at its position.\<close>

lemma outs_fifo:
  assumes "nring_inv s" "(p, v) \<in> set (nouts s)"
  shows "p < nhead s" "v = nlog s ! p"
  using nring_invD(8) [OF assms(1)] assms(2) by (auto simp: outs_inv_def)

text \<open>When no dequeue is in progress the returned values are exactly the first
  \<^verbatim>\<open>nhead\<close> values of the enqueue order.\<close>

lemma outs_complete:
  assumes inv: "nring_inv s" and quiet: "\<And>t. pc_ready (npc s t)"
  shows "fst ` set (nouts s) = {..<nhead s}" and "distinct (map fst (nouts s))"
proof -
  have "\<not> pendD s p" for p using quiet ready_no_claim by (auto simp: pendD_def)
  then show "fst ` set (nouts s) = {..<nhead s}" and "distinct (map fst (nouts s))"
    using nring_invD(8) [OF inv] by (fastforce simp: outs_inv_def)+
qed

end
