(* ===== verification/Ring_Queue.thy ===== *)
theory Ring_Queue
  imports Mpmc_Ring
begin

text \<open>
  The lock-free buffer of a buffered channel (channel.c, the ring queue and the
  value packing): the cells, the 64-bit counters, the single-producer
  single-consumer path, the multi-producer multi-consumer path as a sequential
  operation, and the capacity rounding of
  \<^verbatim>\<open>cc_chan_create_internal\<close>.  An element is the list of its bytes; a cell value
  is the pointer-sized word of the code, a large element lives in its slot of
  \<^verbatim>\<open>ch->buf\<close>.
\<close>

section \<open>Data\<close>

type_synonym bytes = "8 word list"

record ring =
  cap :: nat
  elem_size :: nat
  buf :: "nat \<Rightarrow> bytes"
  lfqueue_cap :: u64
  ring_head :: u64
  ring_tail :: u64
  cell_seq :: "nat \<Rightarrow> u64"
  cell_value :: "nat \<Rightarrow> u64"

text \<open>\<^verbatim>\<open>sizeof(void*)\<close>\<close>

definition ptr_size :: nat where "ptr_size = 8"

section \<open>Packing a value into a pointer-sized word\<close>

text \<open>The little-endian reading of bytes and its inverse, what a \<^verbatim>\<open>memcpy\<close> between
  an element and a pointer variable does.\<close>

primrec le_word :: "bytes \<Rightarrow> u64" where
  "le_word [] = 0"
| "le_word (b # bs) = ucast b OR push_bit 8 (le_word bs)"

primrec le_bytes :: "nat \<Rightarrow> u64 \<Rightarrow> bytes" where
  "le_bytes 0 w = []"
| "le_bytes (Suc n) w = ucast w # le_bytes n (drop_bit 8 w)"

definition cc__chan_pack_value :: "bytes \<Rightarrow> nat \<Rightarrow> u64" where
  "cc__chan_pack_value src es =
    (if es = ptr_size then le_word (take ptr_size src)
     else le_word (take es src @ replicate (ptr_size - es) 0))"

definition cc__chan_unpack_value :: "u64 \<Rightarrow> nat \<Rightarrow> bytes" where
  "cc__chan_unpack_value slot_val es =
    (if es = ptr_size then le_bytes ptr_size slot_val else le_bytes es slot_val)"

section \<open>Slots\<close>

definition ring_slot :: "'a ring_scheme \<Rightarrow> u64 \<Rightarrow> nat" where
  "ring_slot r pos = unat (pos AND (lfqueue_cap r - 1))"

text \<open>The address \<^verbatim>\<open>cc__ring_slot_ptr\<close> returns, relative to \<^verbatim>\<open>ch->buf\<close>.\<close>

definition cc__ring_slot_ptr :: "'a ring_scheme \<Rightarrow> u64 \<Rightarrow> u64" where
  "cc__ring_slot_ptr r pos = (pos AND (lfqueue_cap r - 1)) * of_nat (elem_size r)"

definition channel_store_slot :: "'a ring_scheme \<Rightarrow> nat \<Rightarrow> bytes \<Rightarrow> 'a ring_scheme" where
  "channel_store_slot r i v = r\<lparr>buf := (buf r)(i := take (elem_size r) v)\<rparr>"

definition channel_load_slot :: "'a ring_scheme \<Rightarrow> nat \<Rightarrow> bytes" where
  "channel_load_slot r i = take (elem_size r) (buf r i)"

text \<open>Writing and reading the element of a claimed position: small elements are
  packed into the cell, large ones go to the slot of the buffer and the cell
  keeps the slot address.\<close>

definition write_cell :: "'a ring_scheme \<Rightarrow> u64 \<Rightarrow> bytes \<Rightarrow> 'a ring_scheme" where
  "write_cell r pos v =
    (let i = ring_slot r pos in
     if elem_size r \<le> ptr_size
     then r\<lparr>cell_value := (cell_value r)(i := cc__chan_pack_value v (elem_size r))\<rparr>
     else (let r1 = channel_store_slot r i v in
           r1\<lparr>cell_value := (cell_value r1)(i := cc__ring_slot_ptr r pos)\<rparr>))"

definition read_cell :: "'a ring_scheme \<Rightarrow> u64 \<Rightarrow> 'a ring_scheme \<times> bytes" where
  "read_cell r pos =
    (let i = ring_slot r pos in
     if elem_size r \<le> ptr_size
     then (r, cc__chan_unpack_value (cell_value r i) (elem_size r))
     else (r\<lparr>cell_value := (cell_value r)(i := cc__ring_slot_ptr r pos)\<rparr>, channel_load_slot r i))"

section \<open>Single producer, single consumer\<close>

definition cc__ring_enqueue_spsc_value ::
  "'a ring_scheme \<Rightarrow> bytes \<Rightarrow> 'a ring_scheme \<times> bool" where
  "cc__ring_enqueue_spsc_value r v =
    (let tail = ring_tail r; head = ring_head r in
     if cap r \<le> unat (tail - head) then (r, False)
     else (let i = ring_slot r tail;
               r1 = (if elem_size r \<le> ptr_size
                     then r\<lparr>cell_value := (cell_value r)(i := cc__chan_pack_value v (elem_size r))\<rparr>
                     else channel_store_slot r i v)
           in (r1\<lparr>ring_tail := tail + 1\<rparr>, True)))"

definition cc__ring_dequeue_spsc_value ::
  "'a ring_scheme \<Rightarrow> 'a ring_scheme \<times> bytes option" where
  "cc__ring_dequeue_spsc_value r =
    (let head = ring_head r; tail = ring_tail r in
     if head = tail then (r, None)
     else (let i = ring_slot r head;
               v = (if elem_size r \<le> ptr_size
                    then cc__chan_unpack_value (cell_value r i) (elem_size r)
                    else channel_load_slot r i)
           in (r\<lparr>ring_head := head + 1\<rparr>, Some v)))"

section \<open>Multi producer, multi consumer, run without interference\<close>

text \<open>The signed difference the retry loops branch on.\<close>

definition seq_dif :: "u64 \<Rightarrow> u64 \<Rightarrow> int" where
  "seq_dif s pos = sint s - sint pos"

partial_function (option) mpmc_enqueue_loop ::
  "'a ring_scheme \<Rightarrow> bytes \<Rightarrow> u64 \<Rightarrow> ('a ring_scheme \<times> bool) option" where
  "mpmc_enqueue_loop r v pos =
    (let dif = seq_dif (cell_seq r (ring_slot r pos)) pos in
     if dif = 0 then
       (if ring_tail r = pos then
          (let r1 = write_cell (r\<lparr>ring_tail := pos + 1\<rparr>) pos v in
           Some (r1\<lparr>cell_seq := (cell_seq r1)(ring_slot r pos := pos + 1)\<rparr>, True))
        else mpmc_enqueue_loop r v (ring_tail r))
     else if dif < 0 then Some (r, False)
     else mpmc_enqueue_loop r v (ring_tail r))"

partial_function (option) mpmc_dequeue_loop ::
  "'a ring_scheme \<Rightarrow> u64 \<Rightarrow> ('a ring_scheme \<times> bytes option) option" where
  "mpmc_dequeue_loop r pos =
    (let dif = seq_dif (cell_seq r (ring_slot r pos)) (pos + 1) in
     if dif = 0 then
       (if ring_head r = pos then
          (case read_cell (r\<lparr>ring_head := pos + 1\<rparr>) pos of (r1, v) \<Rightarrow>
             Some (r1\<lparr>cell_seq := (cell_seq r1)(ring_slot r pos := pos + lfqueue_cap r)\<rparr>, Some v))
        else mpmc_dequeue_loop r (ring_head r))
     else if dif < 0 then Some (r, None)
     else mpmc_dequeue_loop r (ring_head r))"

declare mpmc_enqueue_loop.simps [code] mpmc_dequeue_loop.simps [code]

definition cc__queue_enqueue_value ::
  "bool \<Rightarrow> 'a ring_scheme \<Rightarrow> bytes \<Rightarrow> ('a ring_scheme \<times> bool) option" where
  "cc__queue_enqueue_value topo_1_1 r v =
    (if topo_1_1 then Some (cc__ring_enqueue_spsc_value r v)
     else mpmc_enqueue_loop r v (ring_tail r))"

definition cc__queue_dequeue_value ::
  "bool \<Rightarrow> 'a ring_scheme \<Rightarrow> ('a ring_scheme \<times> bytes option) option" where
  "cc__queue_dequeue_value topo_1_1 r =
    (if topo_1_1 then Some (cc__ring_dequeue_spsc_value r)
     else mpmc_dequeue_loop r (ring_head r))"

text \<open>\<^verbatim>\<open>(int)(tail - head)\<close>: the low 32 bits, read as a signed integer.\<close>

definition cc__chan_lf_count :: "'a ring_scheme \<Rightarrow> int" where
  "cc__chan_lf_count r = sint (ucast (ring_tail r - ring_head r) :: 32 word)"

section \<open>Creation\<close>

definition next_power_of_2 :: "u64 \<Rightarrow> u64" where
  "next_power_of_2 n =
    (if n = 0 then 1
     else (let n = n - 1;
               n = n OR drop_bit 1 n;
               n = n OR drop_bit 2 n;
               n = n OR drop_bit 4 n;
               n = n OR drop_bit 8 n;
               n = n OR drop_bit 16 n;
               n = n OR drop_bit 32 n
           in n + 1))"

text \<open>The ring part of \<^verbatim>\<open>cc_chan_create_internal\<close> for a buffered channel.\<close>

definition ring_create :: "nat \<Rightarrow> nat \<Rightarrow> ring" where
  "ring_create capacity es =
    \<lparr>cap = capacity, elem_size = es, buf = (\<lambda>_. []),
     lfqueue_cap = next_power_of_2 (of_nat capacity), ring_head = 0, ring_tail = 0,
     cell_seq = (\<lambda>i. of_nat i), cell_value = (\<lambda>_. 0)\<rparr>"

section \<open>Packing round trip\<close>

lemma le_word_bits: "bit (le_word bs) k \<Longrightarrow> k < 8 * length bs"
proof (induction bs arbitrary: k)
  case (Cons b bs)
  then consider "bit (ucast b :: u64) k" | "8 \<le> k" "bit (le_word bs) (k - 8)"
    by (auto simp: bit_or_iff bit_push_bit_iff)
  then show ?case
  proof cases
    case 1
    then show ?thesis by (auto simp: bit_ucast_iff dest: bit_imp_le_length)
  next
    case 2
    then show ?thesis using Cons.IH [of "k - 8"] by simp
  qed
qed simp

lemma le_word_zeros: "le_word (replicate n 0) = 0"
  by (induction n) simp_all

lemma le_word_pad: "le_word (bs @ replicate n 0) = le_word bs"
  by (induction bs) (simp_all add: le_word_zeros)

lemma low_byte: "(ucast ((ucast (b :: 8 word) :: u64) OR push_bit 8 w) :: 8 word) = b"
  by (rule bit_word_eqI) (simp add: bit_simps)

lemma rest_bytes:
  fixes w :: u64
  assumes "\<And>k. bit w k \<Longrightarrow> k < 56"
  shows "drop_bit 8 ((ucast (b :: 8 word) :: u64) OR push_bit 8 w) = w"
proof (rule bit_word_eqI)
  fix k assume "k < LENGTH(64)"
  have "\<not> bit (ucast b :: u64) (8 + k)"
    by (auto simp: bit_ucast_iff dest: bit_imp_le_length)
  moreover have "bit w k \<Longrightarrow> k + 8 < 64" using assms [of k] by simp
  ultimately show "bit (drop_bit 8 ((ucast b :: u64) OR push_bit 8 w)) k = bit w k"
    by (auto simp: bit_simps add.commute)
qed

lemma le_bytes_le_word: "length bs \<le> 8 \<Longrightarrow> le_bytes (length bs) (le_word bs) = bs"
proof (induction bs)
  case (Cons b bs)
  have "k < 56" if "bit (le_word bs) k" for k
    using le_word_bits [OF that] Cons.prems by simp
  then have "drop_bit 8 ((ucast b :: u64) OR push_bit 8 (le_word bs)) = le_word bs"
    by (rule rest_bytes)
  then show ?case using Cons by (simp add: low_byte)
qed simp

lemma unpack_pack:
  assumes "length v = es" "es \<le> ptr_size"
  shows "cc__chan_unpack_value (cc__chan_pack_value v es) es = v"
  using assms le_bytes_le_word [of v]
  by (auto simp: cc__chan_pack_value_def cc__chan_unpack_value_def le_word_pad ptr_size_def)

section \<open>Capacity rounding\<close>

definition smeared :: "u64 \<Rightarrow> nat \<Rightarrow> u64 \<Rightarrow> bool" where
  "smeared m d w = (\<forall>k. bit w k = (\<exists>j. k \<le> j \<and> j < k + d \<and> bit m j))"

lemma smear_step:
  assumes "smeared m d w" and e: "e = 2 * d"
  shows "smeared m e (w OR drop_bit d w)"
  unfolding smeared_def e
proof
  fix k
  have "(\<exists>j. k \<le> j \<and> j < k + 2 * d \<and> bit m j) \<longleftrightarrow>
      (\<exists>j. k \<le> j \<and> j < k + d \<and> bit m j) \<or> (\<exists>j. d + k \<le> j \<and> j < d + k + d \<and> bit m j)"
    (is "?A = (?B \<or> ?C)")
  proof
    assume ?A
    then obtain j where j: "k \<le> j" "j < k + 2 * d" "bit m j" by blast
    show "?B \<or> ?C"
    proof (cases "j < k + d")
      case False
      then have "d + k \<le> j" "j < d + k + d" using j by simp_all
      then show ?thesis using j by blast
    qed (use j in blast)
  next
    assume "?B \<or> ?C"
    then show ?A
    proof
      assume ?B
      then obtain j where "k \<le> j" "j < k + d" "bit m j" by blast
      then show ?A by (intro exI [of _ j]) simp
    next
      assume ?C
      then obtain j where "d + k \<le> j" "j < d + k + d" "bit m j" by blast
      then show ?A by (intro exI [of _ j]) simp
    qed
  qed
  then show "bit (w OR drop_bit d w) k = (\<exists>j\<ge>k. j < k + 2 * d \<and> bit m j)"
    using assms(1) by (simp add: bit_or_iff bit_drop_bit_eq smeared_def)
qed

lemma smear_mask:
  assumes sm: "smeared m 64 w" and m: "m \<noteq> 0"
  shows "\<exists>b<64. bit m b \<and> (\<forall>j>b. \<not> bit m j) \<and> w = mask (Suc b)"
proof -
  note bits = sm [unfolded smeared_def, rule_format]
  have fin: "j < 64" if "bit m j" for j using bit_imp_le_length [OF that] by simp
  have ex: "\<exists>j. bit m j" using m by (metis bit_eqI bit_0_eq bot_apply bot_bool_def)
  define b where "b = Max {j. bit m j}"
  have F: "finite {j. bit m j}" by (rule finite_subset [of _ "{..<64}"]) (auto dest: fin)
  have b: "bit m b" using Max_in [OF F] ex by (auto simp: b_def)
  have top: "\<not> bit m j" if "b < j" for j using that Max_ge [OF F, of j] by (metis b_def leD mem_Collect_eq)
  have "w = mask (Suc b)"
  proof (rule bit_word_eqI)
    fix k assume "k < LENGTH(64)"
    then have "k < 64" by simp
    have "bit w k \<longleftrightarrow> k \<le> b"
    proof
      assume "bit w k"
      then obtain j where "k \<le> j" "bit m j" using bits by blast
      then show "k \<le> b" using top [of j] by (meson le_trans not_le)
    next
      assume "k \<le> b"
      then show "bit w k" using bits [of k] b fin [OF b] by auto
    qed
    then show "bit w k = bit (mask (Suc b) :: u64) k"
      using \<open>k < 64\<close> by (simp add: bit_mask_iff less_Suc_eq_le)
  qed
  then show ?thesis using b top fin [OF b] by blast
qed


lemma next_power_of_2_spec:
  fixes n :: u64
  assumes "2 \<le> unat n" "unat n \<le> 2 ^ 63"
  shows "\<exists>k. 1 \<le> k \<and> k \<le> 63 \<and> next_power_of_2 n = 2 ^ k \<and> unat n \<le> 2 ^ k \<and> 2 ^ k < 2 * unat n"
proof -
  define m where "m = n - 1"
  have n0: "n \<noteq> 0" using assms(1) by auto
  have um: "unat m = unat n - 1" using n0 by (simp add: m_def unat_minus_one)
  have m0: "m \<noteq> 0" using um assms(1) by auto
  define w1 where "w1 = m OR drop_bit 1 m"
  define w2 where "w2 = w1 OR drop_bit 2 w1"
  define w4 where "w4 = w2 OR drop_bit 4 w2"
  define w8 where "w8 = w4 OR drop_bit 8 w4"
  define w16 where "w16 = w8 OR drop_bit 16 w8"
  define w32 where "w32 = w16 OR drop_bit 32 w16"
  have "smeared m 1 m" by (auto simp: smeared_def less_Suc_eq_le)
  then have "smeared m 2 w1" unfolding w1_def by (rule smear_step) simp
  then have "smeared m 4 w2" unfolding w2_def by (rule smear_step) simp
  then have "smeared m 8 w4" unfolding w4_def by (rule smear_step) simp
  then have "smeared m 16 w8" unfolding w8_def by (rule smear_step) simp
  then have "smeared m 32 w16" unfolding w16_def by (rule smear_step) simp
  then have "smeared m 64 w32" unfolding w32_def by (rule smear_step) simp
  from smear_mask [OF this m0] obtain b
    where b: "b < 64" "bit m b" "\<forall>j>b. \<not> bit m j" "w32 = mask (Suc b)" by blast
  have lo: "2 ^ b \<le> unat m"
  proof -
    have "bit (unat m) b" using b(1,2) by (simp add: bit_unsigned_iff)
    then have "odd (unat m div 2 ^ b)" by (simp add: bit_iff_odd)
    then have "unat m div 2 ^ b \<noteq> 0" by (metis even_zero)
    then show ?thesis by (metis div_less not_le)
  qed
  have hi: "unat m < 2 ^ Suc b"
  proof -
    have "m = take_bit (Suc b) m"
      by (rule bit_word_eqI) (use b(3) in \<open>auto simp: bit_take_bit_iff less_Suc_eq_le dest: leI\<close>)
    then have "unat m = unat m mod 2 ^ Suc b"
      by (metis unsigned_take_bit_eq take_bit_eq_mod)
    then show ?thesis by (metis mod_less_divisor zero_less_power zero_less_numeral)
  qed
  have "(2::nat) ^ b < 2 ^ 63" using lo um assms by linarith
  then have b63: "b < 63" by (metis power_strict_increasing_iff one_less_numeral_iff semiring_norm(76))
  have "next_power_of_2 n = w32 + 1"
    using n0 by (simp add: next_power_of_2_def Let_def w32_def w16_def w8_def w4_def w2_def w1_def m_def)
  also have "\<dots> = 2 ^ Suc b" unfolding b(4) mask_eq_exp_minus_1 by simp
  finally have "next_power_of_2 n = 2 ^ Suc b" .
  moreover have "unat n \<le> 2 ^ Suc b" "2 ^ Suc b < 2 * unat n"
    using lo hi um assms(1) by simp_all
  ultimately show ?thesis using b63 by (intro exI [of _ "Suc b"]) simp
qed

section \<open>Slots and their contents\<close>

definition elem_at :: "'a ring_scheme \<Rightarrow> nat \<Rightarrow> bytes" where
  "elem_at r i = (if elem_size r \<le> ptr_size then cc__chan_unpack_value (cell_value r i) (elem_size r)
                  else channel_load_slot r i)"

lemma ring_slot_mod:
  assumes "lfqueue_cap r = 2 ^ k" "k < 64"
  shows "ring_slot r pos = unat pos mod 2 ^ k"
  using assms by (simp add: ring_slot_def and_mask_mod)

lemma mod_pow_mod: "k \<le> 64 \<Longrightarrow> (n :: nat) mod 2 ^ 64 mod 2 ^ k = n mod 2 ^ k"
  by (rule mod_mod_cancel) (rule le_imp_power_dvd)

lemma unat_add_mod: "unat (a + b :: u64) = (unat a + unat b) mod 2 ^ 64"
  by (simp add: unat_word_ariths)

lemma ring_slot_add:
  assumes "lfqueue_cap r = 2 ^ k" "k < 64"
  shows "ring_slot r (pos + of_nat i) = (unat pos + i) mod 2 ^ k"
proof -
  have "unat (pos + of_nat i) mod 2 ^ k = (unat pos + i mod 2 ^ 64) mod 2 ^ 64 mod 2 ^ k"
    by (simp only: unat_add_mod unat_of_nat) simp
  also have "\<dots> = (unat pos + i) mod 2 ^ k"
    using assms(2) by (simp only: mod_add_right_eq mod_pow_mod less_imp_le)
  finally show ?thesis using assms by (simp add: ring_slot_mod)
qed

lemma mod_shift_inj:
  fixes a i j n :: nat
  assumes "(a + i) mod n = (a + j) mod n" "i < n" "j < n"
  shows "i = j"
proof -
  have *: "x = y" if "(a + x) mod n = (a + y) mod n" "x \<le> y" "y < n" for x y
  proof -
    have "n dvd (a + y) - (a + x)" using that mod_eq_dvd_iff_nat [of "a + x" "a + y" n] by simp
    then show ?thesis using that by (auto dest: dvd_imp_le)
  qed
  show ?thesis using * [of i j] * [of j i] assms by (metis nat_le_linear)
qed

lemma elem_at_write:
  assumes "length v = elem_size r"
  shows "elem_at (write_cell r pos v) i = (if i = ring_slot r pos then v else elem_at r i)"
  using assms
  by (auto simp: elem_at_def write_cell_def Let_def unpack_pack channel_store_slot_def
      channel_load_slot_def)

lemma read_cell_value: "snd (read_cell r pos) = elem_at r (ring_slot r pos)"
  by (simp add: read_cell_def elem_at_def Let_def)

lemma elem_at_read: "elem_at (fst (read_cell r pos)) i = elem_at r i"
  by (auto simp: read_cell_def elem_at_def Let_def channel_load_slot_def)

lemma write_cell_fields [simp]:
  "cap (write_cell r pos v) = cap r" "elem_size (write_cell r pos v) = elem_size r"
  "lfqueue_cap (write_cell r pos v) = lfqueue_cap r" "ring_head (write_cell r pos v) = ring_head r"
  "ring_tail (write_cell r pos v) = ring_tail r" "cell_seq (write_cell r pos v) = cell_seq r"
  by (simp_all add: write_cell_def Let_def channel_store_slot_def)

lemma read_cell_fields [simp]:
  "cap (fst (read_cell r pos)) = cap r" "elem_size (fst (read_cell r pos)) = elem_size r"
  "lfqueue_cap (fst (read_cell r pos)) = lfqueue_cap r"
  "ring_head (fst (read_cell r pos)) = ring_head r"
  "ring_tail (fst (read_cell r pos)) = ring_tail r" "cell_seq (fst (read_cell r pos)) = cell_seq r"
  by (simp_all add: read_cell_def Let_def)

lemma elem_at_counters [simp]:
  "elem_at (r\<lparr>ring_tail := a\<rparr>) = elem_at r" "elem_at (r\<lparr>ring_head := a\<rparr>) = elem_at r"
  "elem_at (r\<lparr>cell_seq := f\<rparr>) = elem_at r"
  by (simp_all add: elem_at_def fun_eq_iff channel_load_slot_def)

lemma ring_slot_cong: "lfqueue_cap r' = lfqueue_cap r \<Longrightarrow> ring_slot r' pos = ring_slot r pos"
  by (simp add: ring_slot_def)

section \<open>The contract of a bounded queue\<close>

text \<open>Clients that put a list of elements in and take a number of elements out.\<close>

primrec enq_all :: "('q \<Rightarrow> 'v \<Rightarrow> ('q \<times> bool) option) \<Rightarrow> 'q \<Rightarrow> 'v list \<Rightarrow> 'q option" where
  "enq_all enq q [] = Some q"
| "enq_all enq q (v # vs) =
    (case enq q v of Some (q', True) \<Rightarrow> enq_all enq q' vs | _ \<Rightarrow> None)"

primrec deq_all :: "('q \<Rightarrow> ('q \<times> 'v option) option) \<Rightarrow> 'q \<Rightarrow> nat \<Rightarrow> ('q \<times> 'v list) option" where
  "deq_all deq q 0 = Some (q, [])"
| "deq_all deq q (Suc n) = (case deq q of
     Some (q', Some v) \<Rightarrow>
       (case deq_all deq q' n of Some (q'', vs) \<Rightarrow> Some (q'', v # vs) | None \<Rightarrow> None)
   | _ \<Rightarrow> None)"

text \<open>\<open>ok n q\<close>: the queue is well formed and its counters leave room for n more
  enqueues before they reach the bound under which they are compared.\<close>

locale bounded_queue =
  fixes enq :: "'q \<Rightarrow> 'v \<Rightarrow> ('q \<times> bool) option"
    and deq :: "'q \<Rightarrow> ('q \<times> 'v option) option"
    and items :: "'q \<Rightarrow> 'v list" and room :: "'q \<Rightarrow> nat"
    and ok :: "nat \<Rightarrow> 'q \<Rightarrow> bool" and fits :: "'q \<Rightarrow> 'v \<Rightarrow> bool"
  assumes enq_full: "ok n q \<Longrightarrow> fits q v \<Longrightarrow> room q \<le> length (items q) \<Longrightarrow> enq q v = Some (q, False)"
    and enq_room: "ok (Suc n) q \<Longrightarrow> fits q v \<Longrightarrow> length (items q) < room q \<Longrightarrow>
      \<exists>q'. enq q v = Some (q', True) \<and> ok n q' \<and> items q' = items q @ [v] \<and>
           room q' = room q \<and> fits q' = fits q"
    and deq_empty: "ok n q \<Longrightarrow> items q = [] \<Longrightarrow> deq q = Some (q, None)"
    and deq_item: "ok n q \<Longrightarrow> items q = v # vs \<Longrightarrow>
      \<exists>q'. deq q = Some (q', Some v) \<and> ok n q' \<and> items q' = vs \<and>
           room q' = room q \<and> fits q' = fits q"
    and ok_bound: "ok n q \<Longrightarrow> length (items q) \<le> room q"
    and ok_mono: "ok (Suc n) q \<Longrightarrow> ok n q"
begin

lemma enq_all_items:
  "ok (n + length vs) q \<Longrightarrow> (\<And>v. v \<in> set vs \<Longrightarrow> fits q v) \<Longrightarrow> length (items q) + length vs \<le> room q \<Longrightarrow>
    \<exists>q'. enq_all enq q vs = Some q' \<and> ok n q' \<and> items q' = items q @ vs \<and> room q' = room q \<and>
      fits q' = fits q"
proof (induction vs arbitrary: q)
  case (Cons v vs)
  obtain q' where q': "enq q v = Some (q', True)" "ok (n + length vs) q'" "items q' = items q @ [v]"
    "room q' = room q" "fits q' = fits q"
    using enq_room [of "n + length vs" q v] Cons.prems by auto
  then show ?case using Cons.IH [of q'] Cons.prems by auto
qed simp

lemma deq_all_items:
  "ok n q \<Longrightarrow> \<exists>q'. deq_all deq q (length (items q)) = Some (q', items q) \<and> ok n q' \<and> items q' = []"
proof (induction "items q" arbitrary: q)
  case Nil
  then show ?case by (metis deq_all.simps(1) list.size(3))
next
  case (Cons v vs)
  obtain q' where q': "deq q = Some (q', Some v)" "ok n q'" "items q' = vs"
    using deq_item [OF Cons.prems, of v vs] Cons.hyps(2) by auto
  then show ?case using Cons.hyps(1) [of q'] by (auto simp flip: Cons.hyps(2))
qed

end

section \<open>The single-producer single-consumer ring is a bounded queue\<close>

definition ring_items :: "'a ring_scheme \<Rightarrow> bytes list" where
  "ring_items r = map (\<lambda>i. elem_at r (ring_slot r (ring_head r + of_nat i)))
     [0..<unat (ring_tail r - ring_head r)]"

definition spsc_ok :: "nat \<Rightarrow> 'a ring_scheme \<Rightarrow> bool" where
  "spsc_ok n r = (\<exists>k<64. lfqueue_cap r = 2 ^ k \<and> cap r \<le> 2 ^ k \<and> unat (ring_tail r - ring_head r) \<le> cap r)"

definition ring_fits :: "'a ring_scheme \<Rightarrow> bytes \<Rightarrow> bool" where
  "ring_fits r v = (length v = elem_size r)"

lemma length_ring_items [simp]: "length (ring_items r) = unat (ring_tail r - ring_head r)"
  by (simp add: ring_items_def)

lemma elem_at_store:
  assumes "length v = elem_size r"
    and "r1 = (if elem_size r \<le> ptr_size
               then r\<lparr>cell_value := (cell_value r)(i := cc__chan_pack_value v (elem_size r))\<rparr>
               else channel_store_slot r i v)"
  shows "elem_at r1 j = (if j = i then v else elem_at r j)"
  using assms by (auto simp: elem_at_def unpack_pack channel_store_slot_def channel_load_slot_def)

lemma spsc_enqueue_room:
  assumes ok: "spsc_ok n r" and fit: "ring_fits r v" and lt: "length (ring_items r) < cap r"
  shows "\<exists>r'. cc__ring_enqueue_spsc_value r v = (r', True) \<and> spsc_ok n r' \<and>
    ring_items r' = ring_items r @ [v] \<and> cap r' = cap r \<and> ring_fits r' = ring_fits r"
proof -
  obtain k where k: "k < 64" "lfqueue_cap r = 2 ^ k" "cap r \<le> 2 ^ k"
    using ok by (auto simp: spsc_ok_def)
  define len where "len = unat (ring_tail r - ring_head r)"
  define i where "i = ring_slot r (ring_tail r)"
  define r1 where "r1 = (if elem_size r \<le> ptr_size
               then r\<lparr>cell_value := (cell_value r)(i := cc__chan_pack_value v (elem_size r))\<rparr>
               else channel_store_slot r i v)"
  define r' where "r' = r1\<lparr>ring_tail := ring_tail r + 1\<rparr>"
  have len: "len < cap r" using lt by (simp add: len_def)
  have tail: "ring_tail r = ring_head r + of_nat len" by (simp add: len_def)
  have F: "cap r' = cap r" "elem_size r' = elem_size r" "lfqueue_cap r' = lfqueue_cap r"
    "ring_head r' = ring_head r" "ring_tail r' = ring_tail r + 1"
    by (simp_all add: r'_def r1_def channel_store_slot_def)
  have at: "elem_at r' j = (if j = i then v else elem_at r j)" for j
    using elem_at_store [OF fit [unfolded ring_fits_def] r1_def, of j] by (simp add: r'_def)
  have "(2::nat) ^ k < 2 ^ 64" using k(1) by (intro power_strict_increasing) simp_all
  then have small: "Suc len < 2 ^ 64" using len k(3) by linarith
  have "ring_tail r' - ring_head r' = of_nat (Suc len)" using F tail by simp
  then have len': "unat (ring_tail r' - ring_head r') = Suc len"
    using unat_of_nat_small [OF small] by simp
  have slot: "ring_slot r' p = ring_slot r p" for p by (rule ring_slot_cong) (simp add: F)
  have i: "i = (unat (ring_head r) + len) mod 2 ^ k"
    unfolding i_def tail by (rule ring_slot_add [OF k(2,1)])
  have other: "ring_slot r (ring_head r + of_nat j) \<noteq> i" if "j < len" for j
    using mod_shift_inj [of "unat (ring_head r)" j "2 ^ k" len] that len k(3)
    unfolding i ring_slot_add [OF k(2,1)] by auto
  have "ring_items r' = ring_items r @ [v]"
    unfolding ring_items_def len' len_def [symmetric]
    using other by (simp add: F slot at i_def tail)
  moreover have "spsc_ok n r'" using k len len' by (auto simp: spsc_ok_def F)
  moreover have "cc__ring_enqueue_spsc_value r v = (r', True)"
    using lt by (simp add: cc__ring_enqueue_spsc_value_def Let_def r'_def r1_def i_def)
  ultimately show ?thesis using F by (auto simp: ring_fits_def)
qed

lemma spsc_dequeue_item:
  assumes ok: "spsc_ok n r" and ne: "ring_items r = v # vs"
  shows "\<exists>r'. cc__ring_dequeue_spsc_value r = (r', Some v) \<and> spsc_ok n r' \<and>
    ring_items r' = vs \<and> cap r' = cap r \<and> ring_fits r' = ring_fits r"
proof -
  define len where "len = unat (ring_tail r - ring_head r)"
  define r' where "r' = r\<lparr>ring_head := ring_head r + 1\<rparr>"
  have "len = Suc (length vs)" using ne length_ring_items [of r] by (simp add: len_def)
  then obtain m where m: "len = Suc m" by blast
  have ht: "ring_head r \<noteq> ring_tail r" using m by (auto simp: len_def)
  have F: "cap r' = cap r" "elem_size r' = elem_size r" "lfqueue_cap r' = lfqueue_cap r"
    "ring_head r' = ring_head r + 1" "ring_tail r' = ring_tail r" "elem_at r' = elem_at r"
    by (simp_all add: r'_def)
  have "ring_tail r' - ring_head r' = (ring_tail r - ring_head r) - 1" by (simp add: F)
  then have len': "unat (ring_tail r' - ring_head r') = m"
    using m ht by (simp add: unat_minus_one len_def)
  have slot: "ring_slot r' p = ring_slot r p" for p by (rule ring_slot_cong) (simp add: F)
  have "ring_items r = elem_at r (ring_slot r (ring_head r)) # ring_items r'"
    unfolding ring_items_def len' len_def [symmetric] m upt_conv_Cons [OF zero_less_Suc] list.map map_upt_shift
    by (simp add: F slot algebra_simps)
  then have "v = elem_at r (ring_slot r (ring_head r))" "ring_items r' = vs" using ne by simp_all
  moreover have "spsc_ok n r'" using ok len' m by (auto simp: spsc_ok_def F len_def)
  ultimately show ?thesis
    using ht F by (auto simp: cc__ring_dequeue_spsc_value_def Let_def elem_at_def r'_def ring_fits_def)
qed

interpretation spsc: bounded_queue
  "cc__queue_enqueue_value True" "cc__queue_dequeue_value True" ring_items cap spsc_ok ring_fits
proof (unfold_locales, goal_cases)
  case (1 n q v)
  then show ?case
    by (simp add: cc__queue_enqueue_value_def cc__ring_enqueue_spsc_value_def Let_def)
next
  case (2 n q v)
  then show ?case
    using spsc_enqueue_room [of n q v] by (auto simp: cc__queue_enqueue_value_def spsc_ok_def)
next
  case (3 n q)
  then show ?case
    by (simp add: cc__queue_dequeue_value_def cc__ring_dequeue_spsc_value_def ring_items_def Let_def
        unat_eq_zero)
next
  case (4 n q v vs)
  then show ?case
    using spsc_dequeue_item [of n q v vs] by (auto simp: cc__queue_dequeue_value_def)
qed (auto simp: spsc_ok_def)

section \<open>The multi-producer multi-consumer ring is a bounded queue when calls do not overlap\<close>

definition mpmc_state :: "nat \<Rightarrow> nat \<Rightarrow> nat \<Rightarrow> 'a ring_scheme \<Rightarrow> bool" where
  "mpmc_state k h t r =
    (1 \<le> k \<and> k < 63 \<and> lfqueue_cap r = 2 ^ k \<and> ring_head r = of_nat h \<and> ring_tail r = of_nat t \<and>
     h \<le> t \<and> t \<le> h + 2 ^ k \<and>
     (\<forall>p. h \<le> p \<longrightarrow> p < t \<longrightarrow> cell_seq r (p mod 2 ^ k) = of_nat (p + 1)) \<and>
     (\<forall>p. t \<le> p \<longrightarrow> p < h + 2 ^ k \<longrightarrow> cell_seq r (p mod 2 ^ k) = of_nat p))"

definition mpmc_ok :: "nat \<Rightarrow> 'a ring_scheme \<Rightarrow> bool" where
  "mpmc_ok n r = (\<exists>k h t. mpmc_state k h t r \<and> t + 2 ^ k + n < 2 ^ 63)"

definition ring_room :: "'a ring_scheme \<Rightarrow> nat" where
  "ring_room r = unat (lfqueue_cap r)"

lemma seq_dif_of_nat:
  "a < 2 ^ 63 \<Longrightarrow> b < 2 ^ 63 \<Longrightarrow> seq_dif (of_nat a) (of_nat b) = int a - int b"
  by (simp add: seq_dif_def sint_of_nat_small)

lemma mpmc_stateD:
  assumes "mpmc_state k h t r"
  shows "1 \<le> k" "k < 64" "lfqueue_cap r = 2 ^ k" "ring_head r = of_nat h" "ring_tail r = of_nat t"
    "h \<le> t" "t \<le> h + 2 ^ k" "h \<le> p \<Longrightarrow> p < t \<Longrightarrow> cell_seq r (p mod 2 ^ k) = of_nat (p + 1)"
    "t \<le> p \<Longrightarrow> p < h + 2 ^ k \<Longrightarrow> cell_seq r (p mod 2 ^ k) = of_nat p" "ring_room r = 2 ^ k"
proof -
  have "(2::nat) ^ k < 2 ^ 64" if "k < 63" using that by (intro power_strict_increasing) simp_all
  then show "ring_room r = 2 ^ k"
    using assms unat_of_nat_small [of "2 ^ k"] by (simp add: mpmc_state_def ring_room_def)
qed (use assms in \<open>auto simp: mpmc_state_def\<close>)

lemma mpmc_slot:
  assumes "mpmc_state k h t r" "p < 2 ^ 64"
  shows "ring_slot r (of_nat p) = p mod 2 ^ k"
  using ring_slot_add [OF mpmc_stateD(3,2) [OF assms(1)], of 0 p] by simp

lemma mpmc_items:
  assumes "mpmc_state k h t r" "t < 2 ^ 63"
  shows "ring_items r = map (\<lambda>p. elem_at r (p mod 2 ^ k)) [h..<t]"
    and "unat (ring_tail r - ring_head r) = t - h"
proof -
  note D = mpmc_stateD [OF assms(1)]
  have "ring_tail r - ring_head r = of_nat (t - h)" using D(4-6) by (simp add: of_nat_diff)
  then show len: "unat (ring_tail r - ring_head r) = t - h"
    using assms(2) unat_of_nat_small [of "t - h"] by simp
  have "ring_slot r (ring_head r + of_nat i) = (h + i) mod 2 ^ k" for i
    unfolding D(4) ring_slot_add [OF D(3,2)]
    using unat_of_nat_small [of h] D(6) assms(2) by simp
  then have "ring_items r = map (\<lambda>i. elem_at r ((h + i) mod 2 ^ k)) [0..<t - h]"
    by (simp add: ring_items_def len)
  also have "\<dots> = map (\<lambda>p. elem_at r (p mod 2 ^ k)) (map (\<lambda>i. i + h) [0..<t - h])"
    by (simp add: add.commute)
  finally show "ring_items r = map (\<lambda>p. elem_at r (p mod 2 ^ k)) [h..<t]"
    using D(6) by (simp only: map_add_upt) simp
qed

lemma mod_window_inj:
  fixes p q n :: nat
  assumes "p mod n = q mod n" "h \<le> p" "p < h + n" "h \<le> q" "q < h + n"
  shows "p = q"
proof -
  have "p - h = q - h" by (rule mod_shift_inj [of h _ n]) (use assms in auto)
  then show ?thesis using assms by simp
qed

lemma two_le_pow: "1 \<le> k \<Longrightarrow> 2 \<le> (2::nat) ^ k"
  using power_increasing [of 1 k "2::nat"] by simp

lemma mpmc_enqueue_room:
  assumes st: "mpmc_state k h t r" and bd: "t + 2 ^ k < 2 ^ 63" and fit: "ring_fits r v"
    and lt: "t < h + 2 ^ k"
  shows "\<exists>r'. mpmc_enqueue_loop r v (ring_tail r) = Some (r', True) \<and> mpmc_state k h (t + 1) r' \<and>
    ring_items r' = ring_items r @ [v] \<and> elem_size r' = elem_size r"
proof -
  note D = mpmc_stateD [OF st]
  define r1 where "r1 = write_cell (r\<lparr>ring_tail := ring_tail r + 1\<rparr>) (ring_tail r) v"
  define r' where "r' = r1\<lparr>cell_seq := (cell_seq r1)(t mod 2 ^ k := ring_tail r + 1)\<rparr>"
  have slot: "ring_slot r (ring_tail r) = t mod 2 ^ k"
    using mpmc_slot [OF st, of t] bd D(5) by simp
  have "cell_seq r (ring_slot r (ring_tail r)) = ring_tail r"
    unfolding slot D(9) [OF order_refl lt] by (simp add: D(5))
  then have "seq_dif (cell_seq r (ring_slot r (ring_tail r))) (ring_tail r) = 0"
    by (simp add: seq_dif_def)
  then have run: "mpmc_enqueue_loop r v (ring_tail r) = Some (r', True)"
    by (simp add: mpmc_enqueue_loop.simps [of r v] Let_def slot r'_def r1_def)
  have F: "lfqueue_cap r' = lfqueue_cap r" "ring_head r' = ring_head r" "ring_tail r' = ring_tail r + 1"
    "elem_size r' = elem_size r" "cell_seq r' = (cell_seq r)(t mod 2 ^ k := ring_tail r + 1)"
    by (simp_all add: r'_def r1_def)
  have ne: "p mod 2 ^ k \<noteq> t mod 2 ^ k" if "h \<le> p" "p < h + 2 ^ k" "p \<noteq> t" for p
    using mod_window_inj [of p "2 ^ k" t h] that D(6) lt by auto
  have st': "mpmc_state k h (t + 1) r'"
    using st lt ne D(5) by (auto simp: mpmc_state_def F less_Suc_eq)
  have "elem_at r' i = (if i = t mod 2 ^ k then v else elem_at r i)" for i
    using fit slot by (simp add: r'_def r1_def elem_at_write ring_fits_def ring_slot_def)
  then have "ring_items r' = ring_items r @ [v]"
    using mpmc_items(1) [OF st] mpmc_items(1) [OF st'] bd ne D(6,7) lt by simp
  then show ?thesis using run st' F by auto
qed

lemma mpmc_enqueue_full:
  assumes st: "mpmc_state k h t r" and bd: "t + 2 ^ k < 2 ^ 63" and full: "t = h + 2 ^ k"
  shows "mpmc_enqueue_loop r v (ring_tail r) = Some (r, False)"
proof -
  note D = mpmc_stateD [OF st]
  have slot: "ring_slot r (ring_tail r) = h mod 2 ^ k"
    using mpmc_slot [OF st, of t] bd D(5) full by simp
  have "cell_seq r (ring_slot r (ring_tail r)) = of_nat (h + 1)"
    unfolding slot using D(8) [of h] full by simp
  moreover have "h + 1 < 2 ^ 63" "t < 2 ^ 63" using bd full two_le_pow [OF D(1)] by linarith+
  ultimately have "seq_dif (cell_seq r (ring_slot r (ring_tail r))) (ring_tail r) = int (h + 1) - int t"
    unfolding D(5) by (metis seq_dif_of_nat)
  also have "\<dots> < 0"
  proof -
    have "h + 1 < t" using full two_le_pow [OF D(1)] by linarith
    then show ?thesis by simp
  qed
  finally show ?thesis by (simp add: mpmc_enqueue_loop.simps [of r v] Let_def)
qed

lemma mpmc_dequeue_item:
  assumes st: "mpmc_state k h t r" and bd: "t + 2 ^ k < 2 ^ 63" and ne: "h < t"
  shows "\<exists>r'. mpmc_dequeue_loop r (ring_head r) = Some (r', Some (elem_at r (h mod 2 ^ k))) \<and>
    mpmc_state k (h + 1) t r' \<and> ring_items r = elem_at r (h mod 2 ^ k) # ring_items r' \<and>
    elem_size r' = elem_size r"
proof -
  note D = mpmc_stateD [OF st]
  define r1 where "r1 = fst (read_cell (r\<lparr>ring_head := ring_head r + 1\<rparr>) (ring_head r))"
  define r' where "r' = r1\<lparr>cell_seq := (cell_seq r1)(h mod 2 ^ k := ring_head r + lfqueue_cap r)\<rparr>"
  have slot: "ring_slot r (ring_head r) = h mod 2 ^ k"
    using mpmc_slot [OF st, of h] bd D(4) ne by simp
  have val: "snd (read_cell (r\<lparr>ring_head := ring_head r + 1\<rparr>) (ring_head r)) = elem_at r (h mod 2 ^ k)"
    using slot by (simp add: read_cell_value ring_slot_def)
  have "cell_seq r (ring_slot r (ring_head r)) = ring_head r + 1"
    unfolding slot D(8) [OF order_refl ne] by (simp add: D(4) add.commute)
  then have "seq_dif (cell_seq r (ring_slot r (ring_head r))) (ring_head r + 1) = 0"
    by (simp add: seq_dif_def)
  then have run: "mpmc_dequeue_loop r (ring_head r) = Some (r', Some (elem_at r (h mod 2 ^ k)))"
    using val by (simp add: mpmc_dequeue_loop.simps [of r] Let_def slot r'_def r1_def split_beta)
  have F: "lfqueue_cap r' = lfqueue_cap r" "ring_head r' = ring_head r + 1" "ring_tail r' = ring_tail r"
    "elem_size r' = elem_size r"
    "cell_seq r' = (cell_seq r)(h mod 2 ^ k := ring_head r + lfqueue_cap r)"
    by (simp_all add: r'_def r1_def)
  have at: "elem_at r' = elem_at r" by (simp add: r'_def r1_def elem_at_read fun_eq_iff)
  have ne': "p mod 2 ^ k \<noteq> h mod 2 ^ k" if "h < p" "p < h + 2 ^ k" for p
    using mod_window_inj [of p "2 ^ k" h h] that by auto
  have st': "mpmc_state k (h + 1) t r'"
    using st ne ne' D(3,4) by (auto simp: mpmc_state_def F less_Suc_eq)
  have "ring_items r = elem_at r (h mod 2 ^ k) # ring_items r'"
    using mpmc_items(1) [OF st] mpmc_items(1) [OF st'] bd ne by (simp add: at upt_conv_Cons)
  then show ?thesis using run st' F by auto
qed

lemma mpmc_dequeue_empty:
  assumes st: "mpmc_state k h t r" and bd: "t + 2 ^ k < 2 ^ 63" and emp: "h = t"
  shows "mpmc_dequeue_loop r (ring_head r) = Some (r, None)"
proof -
  note D = mpmc_stateD [OF st]
  have slot: "ring_slot r (ring_head r) = h mod 2 ^ k"
    using mpmc_slot [OF st, of h] bd D(4) emp by simp
  have c: "cell_seq r (ring_slot r (ring_head r)) = of_nat h"
    unfolding slot using D(9) [of h] emp by simp
  have "seq_dif (of_nat h) (of_nat (h + 1)) = int h - int (h + 1)"
    using bd emp two_le_pow [OF D(1)] by (intro seq_dif_of_nat) linarith+
  then have "seq_dif (cell_seq r (ring_slot r (ring_head r))) (ring_head r + 1) = int h - int (h + 1)"
    unfolding c unfolding D(4) by (simp add: add.commute)
  then show ?thesis by (simp add: mpmc_dequeue_loop.simps [of r] Let_def)
qed

interpretation mpmc: bounded_queue
  "cc__queue_enqueue_value False" "cc__queue_dequeue_value False" ring_items ring_room mpmc_ok ring_fits
proof (unfold_locales, goal_cases)
  case (1 n q v)
  then obtain k h t where st: "mpmc_state k h t q" and bd: "t + 2 ^ k + n < 2 ^ 63"
    by (auto simp: mpmc_ok_def)
  then have "t = h + 2 ^ k"
    using 1(3) mpmc_items(2) [OF st] mpmc_stateD(6,7,10) [OF st] by simp
  then show ?case
    using mpmc_enqueue_full [OF st] bd by (simp add: cc__queue_enqueue_value_def)
next
  case (2 n q v)
  then obtain k h t where st: "mpmc_state k h t q" and bd: "t + 2 ^ k + Suc n < 2 ^ 63"
    by (auto simp: mpmc_ok_def)
  then have "t < h + 2 ^ k"
    using 2(3) mpmc_items(2) [OF st] mpmc_stateD(6,10) [OF st] by simp
  then obtain r' where r': "mpmc_enqueue_loop q v (ring_tail q) = Some (r', True)"
    "mpmc_state k h (t + 1) r'" "ring_items r' = ring_items q @ [v]" "elem_size r' = elem_size q"
    using mpmc_enqueue_room [OF st _ 2(2)] bd by auto
  have "mpmc_ok n r'" using r'(2) bd by (auto simp: mpmc_ok_def intro!: exI)
  then show ?case
    using r' mpmc_stateD(10) [OF st] mpmc_stateD(10) [OF r'(2)]
    by (auto simp: cc__queue_enqueue_value_def ring_fits_def)
next
  case (3 n q)
  then obtain k h t where st: "mpmc_state k h t q" and bd: "t + 2 ^ k + n < 2 ^ 63"
    by (auto simp: mpmc_ok_def)
  have "length (ring_items q) = 0" using 3(2) by simp
  then have "h = t" using mpmc_items(2) [OF st] mpmc_stateD(6) [OF st] bd by simp
  then show ?case
    using mpmc_dequeue_empty [OF st] bd by (simp add: cc__queue_dequeue_value_def)
next
  case (4 n q v vs)
  then obtain k h t where st: "mpmc_state k h t q" and bd: "t + 2 ^ k + n < 2 ^ 63"
    by (auto simp: mpmc_ok_def)
  have "0 < length (ring_items q)" using 4(2) by simp
  then have "h < t" using mpmc_items(2) [OF st] bd by simp
  then obtain r' where r': "mpmc_dequeue_loop q (ring_head q) = Some (r', Some (elem_at q (h mod 2 ^ k)))"
    "mpmc_state k (h + 1) t r'" "ring_items q = elem_at q (h mod 2 ^ k) # ring_items r'"
    "elem_size r' = elem_size q"
    using mpmc_dequeue_item [OF st] bd by auto
  have "mpmc_ok n r'" using r'(2) bd by (auto simp: mpmc_ok_def intro!: exI)
  then show ?case
    using r' 4(2) mpmc_stateD(10) [OF st] mpmc_stateD(10) [OF r'(2)]
    by (auto simp: cc__queue_dequeue_value_def ring_fits_def)
next
  case (5 n q)
  then obtain k h t where st: "mpmc_state k h t q" and bd: "t + 2 ^ k + n < 2 ^ 63"
    by (auto simp: mpmc_ok_def)
  then show ?case using mpmc_items(2) [OF st] mpmc_stateD(7,10) [OF st] by simp
next
  case (6 n q)
  then show ?case unfolding mpmc_ok_def using Suc_lessD add_Suc_right by metis
qed

section \<open>Fresh rings\<close>

lemma ring_create_room:
  assumes "2 \<le> c" "c \<le> 2 ^ 61"
  obtains k where "1 \<le> k" "k < 63" "lfqueue_cap (ring_create c es) = 2 ^ k"
    "ring_room (ring_create c es) = 2 ^ k" "c \<le> 2 ^ k" "2 ^ k < 2 * c"
proof -
  have "c < 2 ^ 64" using assms(2) by simp
  then have "unat (of_nat c :: u64) = c" by (rule unat_of_nat_small)
  then obtain k where k: "1 \<le> k" "next_power_of_2 (of_nat c) = 2 ^ k" "c \<le> 2 ^ k" "2 ^ k < 2 * c"
    using next_power_of_2_spec [of "of_nat c"] assms by auto
  have "(2::nat) ^ k < 2 ^ 63" using k(4) assms(2) by simp
  then have "k < 63" by (metis power_less_imp_less_exp one_less_numeral_iff semiring_norm(76))
  moreover have "unat (2 ^ k :: u64) = 2 ^ k"
    using unat_of_nat_small [of "2 ^ k"] \<open>(2::nat) ^ k < 2 ^ 63\<close> by simp
  ultimately show thesis using that [of k] k by (simp add: ring_create_def ring_room_def)
qed

lemma ring_create_ok:
  assumes "2 \<le> c" "c \<le> 2 ^ 61" "n < 2 ^ 62"
  shows "mpmc_ok n (ring_create c es)" "spsc_ok n (ring_create c es)"
    "ring_items (ring_create c es) = []"
proof -
  obtain k where k: "1 \<le> k" "k < 63" "lfqueue_cap (ring_create c es) = 2 ^ k" "c \<le> 2 ^ k" "2 ^ k < 2 * c"
    using ring_create_room [OF assms(1,2), of es] by metis
  then have "mpmc_state k 0 0 (ring_create c es)"
    by (simp add: mpmc_state_def) (simp add: ring_create_def)
  moreover have "0 + 2 ^ k + n < (2::nat) ^ 63" using k(5) assms(2,3) by simp
  ultimately show "mpmc_ok n (ring_create c es)" unfolding mpmc_ok_def by blast
  show "spsc_ok n (ring_create c es)"
    using k by (auto simp: spsc_ok_def) (simp_all add: ring_create_def exI [of _ k])
  show "ring_items (ring_create c es) = []" by (simp add: ring_items_def ring_create_def)
qed

text \<open>A value of at most pointer size survives being packed into the pointer-sized
  cell of the ring and unpacked again, whatever its size.\<close>

theorem pack_unpack_roundtrip:
  "length v = es \<Longrightarrow> es \<le> ptr_size \<Longrightarrow> cc__chan_unpack_value (cc__chan_pack_value v es) es = v"
  by (rule unpack_pack)

theorem pack_unpack_roundtrip_witness:
  "cc__chan_unpack_value (cc__chan_pack_value [1, 2, 255] 3) 3 = [1, 2, 255]"
  using pack_unpack_roundtrip [of "[1, 2, 255]" 3] by (simp add: ptr_size_def)

text \<open>The capacity rounding by bit smearing returns a power of two that is at least
  the requested capacity and less than twice it.\<close>

theorem next_power_of_2_rounds:
  "2 \<le> unat n \<Longrightarrow> unat n \<le> 2 ^ 63 \<Longrightarrow>
   \<exists>k\<le>63. next_power_of_2 n = 2 ^ k \<and> unat n \<le> 2 ^ k \<and> 2 ^ k < 2 * unat n"
  using next_power_of_2_spec [of n] by blast

theorem next_power_of_2_rounds_witness:
  "\<exists>k\<le>63. next_power_of_2 5 = 2 ^ k \<and> (5::nat) \<le> 2 ^ k \<and> (2::nat) ^ k < 10"
  using next_power_of_2_rounds [of 5] by simp

text \<open>On a fresh ring of either topology, every list of elements that fits the capacity is
  accepted, and dequeuing as many times returns the same elements in the same
  order; in particular the retry loops of the multi-producer path return.\<close>

theorem ring_fill_drain:
  assumes "2 \<le> c" "c \<le> 2 ^ 61" "length vs \<le> c" "\<forall>v \<in> set vs. length v = es"
  shows "\<exists>r r'. enq_all (cc__queue_enqueue_value topo) (ring_create c es) vs = Some r \<and>
    deq_all (cc__queue_dequeue_value topo) r (length vs) = Some (r', vs) \<and> ring_items r' = []"
proof -
  have n: "0 + length vs < 2 ^ 62" using assms(2,3) by simp
  note ok = ring_create_ok [OF assms(1,2) n, of es]
  have fits: "v \<in> set vs \<Longrightarrow> ring_fits (ring_create c es) v" for v
    using assms(4) by (simp add: ring_fits_def ring_create_def)
  have room: "length vs \<le> cap (ring_create c es)" "length vs \<le> ring_room (ring_create c es)"
    using ring_create_room [OF assms(1,2), of es] assms(3) by (simp add: ring_create_def, fastforce)
  show ?thesis
  proof (cases topo)
    case True
    then show ?thesis
      using spsc.enq_all_items [OF ok(2) fits] spsc.deq_all_items [of 0] room(1) ok(3)
      by (metis append_Nil list.size(3) plus_nat.add_0)
  next
    case False
    then show ?thesis
      using mpmc.enq_all_items [OF ok(1) fits] mpmc.deq_all_items [of 0] room(2) ok(3)
      by (metis append_Nil list.size(3) plus_nat.add_0)
  qed
qed

theorem ring_fill_drain_witness:
  "\<exists>r r'. enq_all (cc__queue_enqueue_value False) (ring_create 3 1) [[5], [6], [7]] = Some r \<and>
    deq_all (cc__queue_dequeue_value False) r 3 = Some (r', [[5], [6], [7]]) \<and> ring_items r' = []"
  using ring_fill_drain [of 3 "[[5], [6], [7]]" 1 False]
  by (simp add: numeral_3_eq_3 del: enq_all.simps deq_all.simps)

text \<open>C14: One operation on a well-formed ring in single-producer single-consumer topology is
  exactly one operation on the list of its elements, with the 64-bit counters
  free to wrap around.\<close>

theorem spsc_refines_list:
  assumes "spsc_ok n r" "ring_fits r v"
  shows "(let (r', b) = cc__ring_enqueue_spsc_value r v in
      b = (length (ring_items r) < cap r) \<and> spsc_ok n r' \<and>
      ring_items r' = (if b then ring_items r @ [v] else ring_items r)) \<and>
    (let (r', x) = cc__ring_dequeue_spsc_value r in
      spsc_ok n r' \<and> ring_items r' = tl (ring_items r) \<and>
      x = (if ring_items r = [] then None else Some (hd (ring_items r))))"
proof
  show "let (r', b) = cc__ring_enqueue_spsc_value r v in
      b = (length (ring_items r) < cap r) \<and> spsc_ok n r' \<and>
      ring_items r' = (if b then ring_items r @ [v] else ring_items r)"
    using spsc_enqueue_room [OF assms] spsc.enq_full [OF assms] assms(1)
    by (cases "length (ring_items r) < cap r") (auto simp: cc__queue_enqueue_value_def not_less)
  show "let (r', x) = cc__ring_dequeue_spsc_value r in
      spsc_ok n r' \<and> ring_items r' = tl (ring_items r) \<and>
      x = (if ring_items r = [] then None else Some (hd (ring_items r)))"
    using spsc_dequeue_item [OF assms(1)] spsc.deq_empty [OF assms(1)] assms(1)
    by (cases "ring_items r") (auto simp: cc__queue_dequeue_value_def)
qed

text \<open>A ring whose counters are about to wrap, with one element in it.\<close>

definition wrapped_ring :: ring where
  "wrapped_ring = (ring_create 2 1)\<lparr>ring_head := - 1, ring_tail := 0, cell_value := (\<lambda>_. 65)\<rparr>"

lemma wrapped_ring_ok: "spsc_ok 0 wrapped_ring"
  unfolding spsc_ok_def wrapped_ring_def
  by (rule exI [of _ 1]) (simp add: ring_create_def next_power_of_2_def)

lemma wrapped_ring_items: "ring_items wrapped_ring = [[65]]"
  by code_simp

theorem spsc_refines_list_witness:
  "ring_items (fst (cc__ring_enqueue_spsc_value wrapped_ring [66])) = [[65], [66]]"
  using spsc_refines_list [OF wrapped_ring_ok, of "[66]"] wrapped_ring_items
  by (simp add: ring_fits_def wrapped_ring_def ring_create_def split_beta)

text \<open>In the multi-producer topology a channel holds as many elements as its rounded
  capacity: a ring created for c elements accepts next_power_of_2(c) of them
  before it reports full.\<close>

theorem mpmc_accepts_rounded_capacity:
  assumes "2 \<le> c" "c \<le> 2 ^ 61" "length vs = unat (next_power_of_2 (of_nat c))"
    "\<forall>v \<in> set vs. length v = es" "length v = es"
  shows "\<exists>r. enq_all (cc__queue_enqueue_value False) (ring_create c es) vs = Some r \<and>
    cc__queue_enqueue_value False r v = Some (r, False)"
proof -
  have room: "ring_room (ring_create c es) = length vs"
    using assms(3) by (simp add: ring_room_def ring_create_def)
  obtain k where "ring_room (ring_create c es) = 2 ^ k" "2 ^ k < 2 * c"
    using ring_create_room [OF assms(1,2), of es] by metis
  then have lt: "0 + length vs < 2 ^ 62" using room assms(2) by simp
  note ok = ring_create_ok [OF assms(1,2) lt, of es]
  have fits: "w \<in> set vs \<Longrightarrow> ring_fits (ring_create c es) w" for w
    using assms(4) by (simp add: ring_fits_def ring_create_def)
  obtain r where r: "enq_all (cc__queue_enqueue_value False) (ring_create c es) vs = Some r"
    "mpmc_ok 0 r" "ring_items r = vs" "ring_room r = length vs" "ring_fits r = ring_fits (ring_create c es)"
    using mpmc.enq_all_items [OF ok(1) fits] room ok(3) by auto
  then have "cc__queue_enqueue_value False r v = Some (r, False)"
    using mpmc.enq_full [of 0 r v] assms(5) by (simp add: ring_fits_def ring_create_def)
  then show ?thesis using r(1) by blast
qed

theorem mpmc_accepts_rounded_capacity_witness:
  "\<exists>r. enq_all (cc__queue_enqueue_value False) (ring_create 3 1) [[1], [2], [3], [4]] = Some r \<and>
    cc__queue_enqueue_value False r [5] = Some (r, False)"
  using mpmc_accepts_rounded_capacity [of 3 "[[1], [2], [3], [4]]" 1 "[5]"]
  by (simp add: next_power_of_2_def del: enq_all.simps)

end
