(* ===== verification/Ring_Threads.thy ===== *)
theory Ring_Threads
  imports Ring_Queue
begin

text \<open>
  The multi-producer multi-consumer ring of channel.c as a system of threads
  over the 64-bit counters and the cells of the code.  Each step is one access
  to shared memory of \<^verbatim>\<open>cc__queue_enqueue_value\<close> or \<^verbatim>\<open>cc__queue_dequeue_value\<close>; a
  schedule is any list of calls and steps, and the flag of a step lets a weak
  compare-and-swap fail spuriously.  The machine simulates the one of
  Mpmc_Ring, whose invariant gives the first-in first-out guarantee.
\<close>

section \<open>Multi producer, multi consumer, as threads\<close>

record ring_sys =
  rg :: ring
  pcs :: "nat \<Rightarrow> (bytes, u64) pc"
  enq_log :: "bytes list"
  deq_log :: "(nat \<times> bytes) list"

definition jump :: "ring_sys \<Rightarrow> nat \<Rightarrow> (bytes, u64) pc \<Rightarrow> ring_sys" where
  "jump s t c = s\<lparr>pcs := (pcs s)(t := c)\<rparr>"

definition ring_run :: "ring_sys \<Rightarrow> nat \<Rightarrow> bool \<Rightarrow> ring_sys" where
  "ring_run s t spurious = (let r = rg s in case pcs s t of
      Idle \<Rightarrow> s | E_Done _ \<Rightarrow> s | D_Done _ \<Rightarrow> s
    | E_Load v \<Rightarrow> jump s t (E_Cell v (ring_tail r))
    | E_Cell v pos \<Rightarrow>
        (let dif = seq_dif (cell_seq r (ring_slot r pos)) pos in
         jump s t (if dif = 0 then E_Cas v pos else if dif < 0 then E_Done False else E_Load v))
    | E_Cas v pos \<Rightarrow>
        (if ring_tail r = pos \<and> \<not> spurious
         then jump (s\<lparr>rg := r\<lparr>ring_tail := pos + 1\<rparr>, enq_log := enq_log s @ [v]\<rparr>) t (E_Write v pos)
         else jump s t (E_Cell v (ring_tail r)))
    | E_Write v pos \<Rightarrow> jump (s\<lparr>rg := write_cell r pos v\<rparr>) t (E_Pub v pos)
    | E_Pub v pos \<Rightarrow>
        jump (s\<lparr>rg := r\<lparr>cell_seq := (cell_seq r)(ring_slot r pos := pos + 1)\<rparr>\<rparr>) t (E_Done True)
    | D_Load \<Rightarrow> jump s t (D_Cell (ring_head r))
    | D_Cell pos \<Rightarrow>
        (let dif = seq_dif (cell_seq r (ring_slot r pos)) (pos + 1) in
         jump s t (if dif = 0 then D_Cas pos else if dif < 0 then D_Done None else D_Load))
    | D_Cas pos \<Rightarrow>
        (if ring_head r = pos \<and> \<not> spurious
         then jump (s\<lparr>rg := r\<lparr>ring_head := pos + 1\<rparr>\<rparr>) t (D_Read pos)
         else jump s t (D_Cell (ring_head r)))
    | D_Read pos \<Rightarrow> (case read_cell r pos of (r1, v) \<Rightarrow> jump (s\<lparr>rg := r1\<rparr>) t (D_Pub v pos))
    | D_Pub v pos \<Rightarrow>
        jump (s\<lparr>rg := r\<lparr>cell_seq := (cell_seq r)(ring_slot r pos := pos + lfqueue_cap r)\<rparr>,
               deq_log := deq_log s @ [(unat pos, v)]\<rparr>) t (D_Done (Some v)))"

fun ring_step :: "ring_sys \<Rightarrow> bytes ring_ev \<Rightarrow> ring_sys" where
  "ring_step s (Call_enqueue t v) = (if pc_ready (pcs s t) then jump s t (E_Load v) else s)"
| "ring_step s (Call_dequeue t) = (if pc_ready (pcs s t) then jump s t D_Load else s)"
| "ring_step s (Run t spurious) = ring_run s t spurious"

definition ring_sys_create :: "nat \<Rightarrow> nat \<Rightarrow> ring_sys" where
  "ring_sys_create capacity es =
    \<lparr>rg = ring_create capacity es, pcs = (\<lambda>_. Idle), enq_log = [], deq_log = []\<rparr>"

section \<open>The threads of the code simulate the machine on unbounded counters\<close>

definition sim :: "nat \<Rightarrow> bytes nring \<Rightarrow> ring_sys \<Rightarrow> bool" where
  "sim k a s =
    (1 \<le> k \<and> k < 63 \<and> nN a = 2 ^ k \<and> lfqueue_cap (rg s) = 2 ^ k \<and>
     ring_tail (rg s) = of_nat (ntail a) \<and> ring_head (rg s) = of_nat (nhead a) \<and>
     (\<forall>i<2 ^ k. cell_seq (rg s) i = of_nat (nseq a i)) \<and> elem_at (rg s) = nval a \<and>
     (\<forall>t. pcs s t = map_pc id of_nat (npc a t)) \<and> enq_log s = nlog a \<and> deq_log s = nouts a \<and>
     (\<forall>t. \<forall>v \<in> set1_pc (npc a t). length v = elem_size (rg s)) \<and>
     (\<forall>v \<in> set (nlog a). length v = elem_size (rg s)))"

lemma simD:
  assumes "sim k a s"
  shows "1 \<le> k" "k < 63" "k < 64" "nN a = 2 ^ k" "lfqueue_cap (rg s) = 2 ^ k"
    "ring_tail (rg s) = of_nat (ntail a)" "ring_head (rg s) = of_nat (nhead a)"
    "i < 2 ^ k \<Longrightarrow> cell_seq (rg s) i = of_nat (nseq a i)" "elem_at (rg s) = nval a"
    "pcs s t = map_pc id of_nat (npc a t)" "enq_log s = nlog a" "deq_log s = nouts a"
    "v \<in> set1_pc (npc a t) \<Longrightarrow> length v = elem_size (rg s)"
    "v \<in> set (nlog a) \<Longrightarrow> length v = elem_size (rg s)"
  using assms by (auto simp: sim_def)

lemma pc_pos_bound:
  assumes "nring_inv a" "p \<in> set2_pc (npc a t)"
  shows "p \<le> ntail a"
  using nring_invD(2) [OF assms(1)] nring_invD(5) [OF assms(1), of t] assms(2)
  by (cases "npc a t") auto

lemma nseq_bound:
  assumes inv: "nring_inv a" and i: "i < nN a"
  shows "nseq a i \<le> ntail a + nN a"
proof -
  obtain p where p: "cell_inv a i p" using nring_invD(4) [OF inv i] by blast
  have "p < ntail a + nN a"
  proof (cases "p < nN a")
    case False
    then have "p - nN a < p" "(p - nN a) mod nN a = i"
      using p nring_invD(1) [OF inv] by (auto simp: cell_inv_def le_mod_geq not_less)
    then have "p - nN a < nhead a" using p by (simp add: cell_inv_def)
    then show ?thesis using nring_invD(2) [OF inv] by simp
  qed simp
  then show ?thesis using p by (auto simp: cell_inv_def)
qed

lemma of_nat_eq_small: "a < 2 ^ 64 \<Longrightarrow> b < 2 ^ 64 \<Longrightarrow> (of_nat a :: u64) = of_nat b \<longleftrightarrow> a = b"
  by (metis unat_of_nat_small)

lemma sim_slot: "sim k a s \<Longrightarrow> ring_slot (rg s) (of_nat p) = p mod 2 ^ k"
  using ring_slot_add [of "rg s" k 0 p] simD(5,3) [of k a s] by simp

lemma sim_dif:
  assumes sim: "sim k a s" and inv: "nring_inv a" and bd: "ntail a + 2 ^ k < 2 ^ 63"
    and p: "p \<le> ntail a" and q: "q = p \<or> q = Suc p"
  shows "seq_dif (cell_seq (rg s) (ring_slot (rg s) (of_nat p))) (of_nat q) =
    int (nseq a (p mod 2 ^ k)) - int q"
proof -
  have i: "p mod 2 ^ k < 2 ^ k" by simp
  have "nseq a (p mod 2 ^ k) < 2 ^ 63"
    using nseq_bound [OF inv, of "p mod 2 ^ k"] simD(4) [OF sim] bd by simp
  moreover have "q < 2 ^ 63" using p q bd two_le_pow [OF simD(1) [OF sim]] by linarith
  ultimately show ?thesis
    unfolding sim_slot [OF sim] simD(8) [OF sim i] by (rule seq_dif_of_nat)
qed

lemma jump_simps [simp]:
  "rg (jump s t c) = rg s" "enq_log (jump s t c) = enq_log s" "deq_log (jump s t c) = deq_log s"
  "pcs (jump s t c) = (pcs s)(t := c)"
  by (simp_all add: jump_def)

lemma sim_goto:
  assumes "sim k a s" "c' = map_pc id of_nat c" "\<And>v. v \<in> set1_pc c \<Longrightarrow> length v = elem_size (rg s)"
  shows "sim k (goto a t c) (jump s t c')"
  using assms by (auto simp: sim_def)

lemma sim_run:
  assumes sim: "sim k a s" and inv: "nring_inv a" and bd: "ntail a + 2 ^ k < 2 ^ 63"
  shows "sim k (nrun a t sp) (ring_run s t sp)"
proof -
  note D = simD [OF sim]
  have N2: "2 \<le> (2::nat) ^ k" by (rule two_le_pow [OF D(1)])
  have small: "p < 2 ^ 64" if "p \<le> ntail a" for p using that bd by simp
  have htail: "nhead a \<le> ntail a" using nring_invD(2) [OF inv] .
  have pos: "p \<le> ntail a" if "p \<in> set2_pc (npc a t)" for p using pc_pos_bound [OF inv that] .
  show ?thesis
  proof (cases "npc a t")
    case (E_Cell v p)
    then have p: "p \<le> ntail a" using pos by simp
    show ?thesis
      using E_Cell D(13) [of _ t] sim_dif [OF sim inv bd p, of p]
      by (auto simp: nrun_def ring_run_def D(10) D(4) Let_def intro!: sim_goto [OF sim])
  next
    case (D_Cell p)
    then have p: "p \<le> ntail a" using pos by simp
    show ?thesis
      using D_Cell sim_dif [OF sim inv bd p, of "Suc p"]
      by (auto simp: nrun_def ring_run_def D(10) D(4) Let_def add.commute intro!: sim_goto [OF sim])
  next
    case (E_Cas v p)
    then have p: "p \<le> ntail a" using pos by simp
    then have "of_nat (ntail a) = (of_nat p :: u64) \<longleftrightarrow> ntail a = p"
      using of_nat_eq_small small by blast
    then show ?thesis
      using E_Cas sim D(13) [of _ t]
      by (auto simp: nrun_def ring_run_def D(10) sim_def Let_def)
  next
    case (D_Cas p)
    then have p: "p \<le> ntail a" using pos by simp
    then have "of_nat (nhead a) = (of_nat p :: u64) \<longleftrightarrow> nhead a = p"
      using of_nat_eq_small small htail by blast
    then show ?thesis
      using D_Cas sim by (auto simp: nrun_def ring_run_def D(10) sim_def Let_def)
  next
    case (E_Write v p)
    have "elem_at (write_cell (rg s) (of_nat p) v) = (nval a)(p mod 2 ^ k := v)"
      using D(13) [of v t] E_Write by (auto simp: fun_eq_iff elem_at_write sim_slot [OF sim] D(9))
    then show ?thesis
      using E_Write sim D(13) [of v t]
      by (auto simp: nrun_def ring_run_def D(10) sim_def Let_def)
  next
    case (E_Pub v p)
    then show ?thesis
      using sim by (auto simp: nrun_def ring_run_def D(10) sim_def Let_def sim_slot [OF sim])
  next
    case (D_Read p)
    define v where "v = nval a (p mod 2 ^ k)"
    define r1 where "r1 = fst (read_cell (rg s) (of_nat p))"
    have rd: "read_cell (rg s) (of_nat p) = (r1, v)"
      using read_cell_value [of "rg s" "of_nat p"]
      by (simp add: r1_def v_def D(9) sim_slot [OF sim] prod_eq_iff)
    have cl: "d_claim (npc a t) p" using D_Read by simp
    have "v = nlog a ! p" using d_claim_cell(3) [OF inv cl] D(4) by (simp add: v_def)
    moreover have "p < length (nlog a)"
      using d_claim_bounds [OF inv cl] htail nring_invD(3) [OF inv] by simp
    ultimately have len: "length v = elem_size (rg s)" using D(14) by simp
    have "sim k a (s\<lparr>rg := r1\<rparr>)"
      using sim by (simp add: sim_def r1_def elem_at_read fun_eq_iff)
    then have "sim k (goto a t (D_Pub v p)) (jump (s\<lparr>rg := r1\<rparr>) t (D_Pub v (of_nat p)))"
      by (rule sim_goto) (simp_all add: len r1_def)
    then show ?thesis
      using D_Read by (simp add: nrun_def ring_run_def D(4) D(10) rd v_def)
  next
    case (D_Pub v p)
    then have "unat (of_nat p :: u64) = p" using unat_of_nat_small small pos by simp
    then show ?thesis
      using D_Pub sim D(13) [of v t] by (auto simp: nrun_def ring_run_def D(10) sim_def Let_def sim_slot [OF sim])
  qed (use D(13) [of _ t] in \<open>auto simp: nrun_def ring_run_def D(10) D(6) D(7) sim Let_def intro!: sim_goto [OF sim]\<close>)
qed


definition ev_fits :: "nat \<Rightarrow> bytes ring_ev \<Rightarrow> bool" where
  "ev_fits es ev = (case ev of Call_enqueue t v \<Rightarrow> length v = es | _ \<Rightarrow> True)"

lemma pc_ready_map: "pc_ready (map_pc f g c) = pc_ready c"
  by (cases c) simp_all

lemma sim_step:
  assumes sim: "sim k a s" and inv: "nring_inv a" and bd: "ntail a + 2 ^ k < 2 ^ 63"
    and fit: "ev_fits (elem_size (rg s)) ev"
  shows "sim k (nstep a ev) (ring_step s ev)"
  using assms
  by (cases ev) (auto simp: ev_fits_def sim_run simD(10) [OF sim] pc_ready_map intro!: sim_goto [OF sim])

lemma ring_run_elem_size: "elem_size (rg (ring_step s ev)) = elem_size (rg s)"
  by (cases ev) (auto simp: ring_run_def Let_def split: pc.splits prod.splits
      dest!: arg_cong [of "read_cell _ _" _ fst])

lemma enq_log_mono: "length (enq_log s) \<le> length (enq_log (ring_step s ev))"
  by (cases ev) (auto simp: ring_run_def Let_def split: pc.splits prod.splits)

lemma ring_create_sim:
  assumes "2 \<le> capacity" "capacity \<le> 2 ^ 62"
  shows "\<exists>k. sim k (nring_init (2 ^ k) (elem_at (ring_create capacity es))) (ring_sys_create capacity es) \<and>
     capacity \<le> 2 ^ k \<and> 2 ^ k < 2 * capacity"
proof -
  have "capacity < 2 ^ 64" using assms(2) by simp
  then have "unat (of_nat capacity :: u64) = capacity" by (rule unat_of_nat_small)
  then obtain k where k: "1 \<le> k" "next_power_of_2 (of_nat capacity) = 2 ^ k" "capacity \<le> 2 ^ k"
    "2 ^ k < 2 * capacity"
    using next_power_of_2_spec [of "of_nat capacity"] assms by auto
  have "(2::nat) ^ k < 2 ^ 63" using k(4) assms(2) by simp
  then have "k < 63" by (metis power_less_imp_less_exp one_less_numeral_iff semiring_norm(76))
  then have "sim k (nring_init (2 ^ k) (elem_at (ring_create capacity es))) (ring_sys_create capacity es)"
    using k by (simp add: sim_def nring_init_def ring_sys_create_def ring_create_def)
  then show ?thesis using k by blast
qed

lemma sim_all:
  assumes "sim k (nring_init (2 ^ k) vals) s0" "1 \<le> k"
    and "\<forall>ev \<in> set evs. ev_fits (elem_size (rg s0)) ev"
    and "length (enq_log (foldl ring_step s0 evs)) + 2 ^ k < 2 ^ 63"
  shows "sim k (foldl nstep (nring_init (2 ^ k) vals) evs) (foldl ring_step s0 evs) \<and>
    elem_size (rg (foldl ring_step s0 evs)) = elem_size (rg s0)"
  using assms(3,4)
proof (induction evs rule: rev_induct)
  case Nil
  then show ?case using assms(1) by simp
next
  case (snoc ev evs)
  define a where "a = foldl nstep (nring_init (2 ^ k) vals) evs"
  define s where "s = foldl ring_step s0 evs"
  have inv: "nring_inv a" unfolding a_def by (rule nrun_all_inv) (rule two_le_pow [OF assms(2)])
  have fit: "\<forall>ev \<in> set evs. ev_fits (elem_size (rg s0)) ev" "ev_fits (elem_size (rg s0)) ev"
    using snoc.prems(1) by simp_all
  have "length (enq_log s) + 2 ^ k < 2 ^ 63"
    using snoc.prems(2) enq_log_mono [of s ev] by (simp add: s_def)
  moreover from this have IH: "sim k a s" "elem_size (rg s) = elem_size (rg s0)"
    using snoc.IH fit(1) by (simp_all add: a_def s_def)
  moreover have "ntail a = length (enq_log s)"
    using nring_invD(3) [OF inv] simD(11) [OF IH(1)] by simp
  ultimately have "sim k (nstep a ev) (ring_step s ev)"
    using sim_step [OF _ inv] fit(2) by simp
  then show ?case using IH(2) by (simp add: a_def s_def ring_run_elem_size)
qed


lemma ring_threads_inv:
  assumes cap: "2 \<le> capacity" "capacity \<le> 2 ^ 61"
    and fit: "\<forall>ev \<in> set evs. ev_fits es ev"
    and s: "s = foldl ring_step (ring_sys_create capacity es) evs"
    and bd: "length (enq_log s) < 2 ^ 62"
  shows "\<exists>k a. sim k a s \<and> nring_inv a \<and> capacity \<le> 2 ^ k \<and> 2 ^ k < 2 * capacity"
proof -
  obtain k where k: "sim k (nring_init (2 ^ k) (elem_at (ring_create capacity es))) (ring_sys_create capacity es)"
    "capacity \<le> 2 ^ k" "2 ^ k < 2 * capacity"
    using ring_create_sim [OF cap(1)] cap(2) by force
  have es: "elem_size (rg (ring_sys_create capacity es)) = es"
    by (simp add: ring_sys_create_def ring_create_def)
  have "length (enq_log s) + 2 ^ k < 2 ^ 63" using bd k(3) cap(2) by simp
  then have "sim k (foldl nstep (nring_init (2 ^ k) (elem_at (ring_create capacity es))) evs) s"
    using sim_all [OF k(1) simD(1) [OF k(1)], of evs] fit unfolding es s by blast
  moreover have "nring_inv (foldl nstep (nring_init (2 ^ k) (elem_at (ring_create capacity es))) evs)"
    by (rule nrun_all_inv) (rule two_le_pow [OF simD(1) [OF k(1)]])
  ultimately show ?thesis using k by blast
qed

text \<open>A run of two producers and one consumer in which one compare-and-swap of the second
  producer loses against the first and another one fails spuriously.\<close>

definition demo_schedule :: "bytes ring_ev list" where
  "demo_schedule =
    [Call_enqueue 0 [7], Call_enqueue 1 [9], Run 0 False, Run 1 False, Run 0 False, Run 1 False,
     Run 0 False, Run 1 False, Call_dequeue 2, Run 2 False, Run 0 False, Run 0 False,
     Run 1 False, Run 1 False, Run 1 True, Run 1 False, Run 1 False, Run 1 False, Run 1 False,
     Run 2 False, Run 2 False, Run 2 False, Run 2 False]"

definition demo_sys :: ring_sys where
  "demo_sys = foldl ring_step (ring_sys_create 2 1) demo_schedule"

lemma demo_deq: "deq_log demo_sys = [(0, [7])]"
  by code_simp
lemma demo_enq: "enq_log demo_sys = [[7], [9]]"
  by code_simp
lemma demo_fits: "\<forall>ev \<in> set demo_schedule. ev_fits 1 ev"
  by code_simp

text \<open>C1: In every interleaving of any number of producer and consumer threads (with spurious
  compare-and-swap failures allowed) every finished dequeue returned the value
  that the enqueue of the same position stored, no position is returned twice,
  and once no call is in progress exactly the positions below the head counter
  have been returned: elements are neither lost, duplicated nor reordered.\<close>

theorem ring_threads_fifo:
  assumes cap: "2 \<le> capacity" "capacity \<le> 2 ^ 61"
    and fit: "\<forall>ev \<in> set evs. ev_fits es ev"
    and s: "s = foldl ring_step (ring_sys_create capacity es) evs"
    and bd: "length (enq_log s) < 2 ^ 62"
  shows "(\<forall>(p, v) \<in> set (deq_log s). p < length (enq_log s) \<and> v = enq_log s ! p) \<and>
    distinct (map fst (deq_log s)) \<and>
    ((\<forall>t. pc_ready (pcs s t)) \<longrightarrow> fst ` set (deq_log s) = {..<unat (ring_head (rg s))})"
proof -
  obtain k a where sim: "sim k a s" and inv: "nring_inv a"
    using ring_threads_inv [OF cap fit s bd] by blast
  note D = simD [OF sim]
  have "nhead a < 2 ^ 64"
    using nring_invD(2,3) [OF inv] bd D(11) by simp
  then have head: "unat (ring_head (rg s)) = nhead a" using D(7) unat_of_nat_small by simp
  have "fst ` set (nouts a) = {..<nhead a}" if "\<forall>t. pc_ready (pcs s t)"
    using outs_complete(1) [OF inv] that by (simp add: D(10) pc_ready_map)
  moreover have "distinct (map fst (nouts a))" using nring_invD(8) [OF inv] by (simp add: outs_inv_def)
  moreover have "p < length (nlog a) \<and> v = nlog a ! p" if "(p, v) \<in> set (nouts a)" for p v
    using outs_fifo [OF inv that] nring_invD(2,3) [OF inv] by simp
  ultimately show ?thesis unfolding D(11) D(12) head by blast
qed

theorem ring_threads_fifo_witness:
  "deq_log demo_sys = [(0, [7])] \<and> [7] = enq_log demo_sys ! 0 \<and> distinct (map fst (deq_log demo_sys))"
  using ring_threads_fifo [OF _ _ demo_fits demo_sys_def] by (simp add: demo_deq demo_enq)



end
