(* ===== verification/Sched_Fiber.thy ===== *)
theory Sched_Fiber
  imports CC_Prelude
begin

text \<open>
  The fiber state machine of the scheduler (sched_v2.c): the state word with
  its signal-pending bit, the worker that runs a fiber and commits its park,
  and the signaller that makes a fiber runnable.  Workers and signallers take
  one shared-memory access per step and interleave in any order.  The invariant
  says who owns a fiber in which state; from it follow that a fiber is on the
  ready queue at most once, that two workers never run the same fiber, and that
  a signal is never lost to a concurrent park.
\<close>

section \<open>The state word\<close>

definition FIBER_V2_IDLE :: nat where "FIBER_V2_IDLE = 0"
definition FIBER_V2_QUEUED :: nat where "FIBER_V2_QUEUED = 1"
definition FIBER_V2_RUNNING :: nat where "FIBER_V2_RUNNING = 2"
definition FIBER_V2_PARKED :: nat where "FIBER_V2_PARKED = 3"
definition FIBER_V2_DEAD :: nat where "FIBER_V2_DEAD = 4"
definition FIBER_V2_STATE_MASK :: nat where "FIBER_V2_STATE_MASK = 0x0f"
definition FIBER_V2_FLAG_SIGNAL_PENDING :: nat where "FIBER_V2_FLAG_SIGNAL_PENDING = 0x10"

lemmas fiber_state_defs [sched_simps] = FIBER_V2_IDLE_def FIBER_V2_QUEUED_def
  FIBER_V2_RUNNING_def FIBER_V2_PARKED_def FIBER_V2_DEAD_def FIBER_V2_STATE_MASK_def
  FIBER_V2_FLAG_SIGNAL_PENDING_def

definition fiber_v2_state_base :: "nat \<Rightarrow> nat" where
  "fiber_v2_state_base raw = raw AND FIBER_V2_STATE_MASK"

definition fiber_v2_state_has_signal_pending :: "nat \<Rightarrow> bool" where
  "fiber_v2_state_has_signal_pending raw = (raw AND FIBER_V2_FLAG_SIGNAL_PENDING \<noteq> 0)"

section \<open>Threads of the scheduler\<close>

text \<open>What the fiber did when its coroutine gave control back.\<close>

datatype yield_kind = V2_YIELD_PARK | V2_YIELD_YIELD | Finished

datatype worker_pc =
    W_Idle
  | W_Got nat
  | W_Start nat
  | W_Run nat
  | W_Post nat yield_kind
  | W_CasPark nat
  | W_Requeue nat
  | W_Push nat
  | W_Die nat
  | W_Free nat

datatype signal_pc =
    S_Idle
  | S_Load nat
  | S_CasPend nat nat
  | S_CasWake nat nat
  | S_Push nat

record sched =
  fstate :: "nat \<Rightarrow> nat"
  ready :: "nat list"
  workers :: "nat \<Rightarrow> worker_pc"
  signalers :: "nat \<Rightarrow> signal_pc"
  owed :: "nat \<Rightarrow> bool"
  bug :: bool

datatype sched_ev =
    Drain nat
  | Resume nat yield_kind
  | Work nat
  | Signal nat nat
  | Sig nat bool
  | Spawn nat nat
  | Release nat

section \<open>Worker steps\<close>

text \<open>\<^verbatim>\<open>sched_v2_wake\<close>: take the next runnable fiber.\<close>

definition drain_step :: "sched \<Rightarrow> nat \<Rightarrow> sched" where
  "drain_step s w =
    (case (workers s w, ready s) of
       (W_Idle, f # fs) \<Rightarrow> s\<lparr>ready := fs, workers := (workers s)(w := W_Got f)\<rparr>
     | _ \<Rightarrow> s)"

text \<open>The coroutine of the fiber returns to the worker.\<close>

definition resume_step :: "sched \<Rightarrow> nat \<Rightarrow> yield_kind \<Rightarrow> sched" where
  "resume_step s w k =
    (case workers s w of
       W_Run f \<Rightarrow> s\<lparr>workers := (workers s)(w := if k = Finished then W_Die f else W_Post f k)\<rparr>
     | _ \<Rightarrow> s)"

text \<open>\<^verbatim>\<open>thread_v2_run_fiber\<close>, one access to the state word or the queue at a time.\<close>

definition run_fiber_step :: "(nat \<Rightarrow> bool) \<Rightarrow> sched \<Rightarrow> nat \<Rightarrow> sched" where
  "run_fiber_step frees s w =
    (case workers s w of
       W_Got f \<Rightarrow>
         (if fiber_v2_state_base (fstate s f) \<noteq> FIBER_V2_QUEUED
          then s\<lparr>workers := (workers s)(w := W_Idle), bug := True\<rparr>
          else s\<lparr>workers := (workers s)(w := W_Start f)\<rparr>)
     | W_Start f \<Rightarrow>
         s\<lparr>fstate := (fstate s)(f := FIBER_V2_RUNNING), owed := (owed s)(f := False),
           workers := (workers s)(w := W_Run f)\<rparr>
     | W_Post f k \<Rightarrow>
         (if k = V2_YIELD_YIELD \<or> fiber_v2_state_has_signal_pending (fstate s f)
          then s\<lparr>workers := (workers s)(w := W_Requeue f)\<rparr>
          else s\<lparr>workers := (workers s)(w := W_CasPark f)\<rparr>)
     | W_CasPark f \<Rightarrow>
         (if fstate s f = FIBER_V2_RUNNING
          then s\<lparr>fstate := (fstate s)(f := FIBER_V2_PARKED), workers := (workers s)(w := W_Idle)\<rparr>
          else s\<lparr>workers := (workers s)(w := W_Requeue f)\<rparr>)
     | W_Requeue f \<Rightarrow>
         s\<lparr>fstate := (fstate s)(f := FIBER_V2_QUEUED), workers := (workers s)(w := W_Push f)\<rparr>
     | W_Push f \<Rightarrow> s\<lparr>ready := ready s @ [f], workers := (workers s)(w := W_Idle)\<rparr>
     | W_Die f \<Rightarrow>
         s\<lparr>fstate := (fstate s)(f := FIBER_V2_DEAD), owed := (owed s)(f := False),
           workers := (workers s)(w := if frees f then W_Free f else W_Idle)\<rparr>
     | W_Free f \<Rightarrow>
         s\<lparr>fstate := (fstate s)(f := FIBER_V2_IDLE), workers := (workers s)(w := W_Idle)\<rparr>
     | _ \<Rightarrow> s)"

section \<open>Signaller steps\<close>

text \<open>\<^verbatim>\<open>sched_v2_signal\<close>: the load, the two compare-and-swaps and the enqueue.\<close>

definition signal_step :: "sched \<Rightarrow> nat \<Rightarrow> bool \<Rightarrow> sched" where
  "signal_step s i spurious =
    (case signalers s i of
       S_Load f \<Rightarrow>
         (let raw = fstate s f; base = fiber_v2_state_base raw in
          if base = FIBER_V2_QUEUED
          then s\<lparr>owed := (owed s)(f := True), signalers := (signalers s)(i := S_Idle)\<rparr>
          else if base = FIBER_V2_RUNNING then
            (if fiber_v2_state_has_signal_pending raw
             then s\<lparr>owed := (owed s)(f := True), signalers := (signalers s)(i := S_Idle)\<rparr>
             else s\<lparr>signalers := (signalers s)(i := S_CasPend f raw)\<rparr>)
          else if base = FIBER_V2_PARKED then s\<lparr>signalers := (signalers s)(i := S_CasWake f raw)\<rparr>
          else s\<lparr>signalers := (signalers s)(i := S_Idle)\<rparr>)
     | S_CasPend f e \<Rightarrow>
         (if fstate s f = e \<and> \<not> spurious
          then s\<lparr>fstate := (fstate s)(f := e OR FIBER_V2_FLAG_SIGNAL_PENDING),
                 owed := (owed s)(f := True), signalers := (signalers s)(i := S_Idle)\<rparr>
          else s\<lparr>signalers := (signalers s)(i := S_Load f)\<rparr>)
     | S_CasWake f e \<Rightarrow>
         (if fstate s f = e \<and> \<not> spurious
          then s\<lparr>fstate := (fstate s)(f := FIBER_V2_QUEUED),
                 owed := (owed s)(f := True), signalers := (signalers s)(i := S_Push f)\<rparr>
          else s\<lparr>signalers := (signalers s)(i := S_Load f)\<rparr>)
     | S_Push f \<Rightarrow> s\<lparr>ready := ready s @ [f], signalers := (signalers s)(i := S_Idle)\<rparr>
     | S_Idle \<Rightarrow> s)"

text \<open>\<^verbatim>\<open>sched_v2_spawn_in_nursery\<close> on a fiber of the pool: publish the state, then enqueue.\<close>

definition spawn_step :: "sched \<Rightarrow> nat \<Rightarrow> nat \<Rightarrow> sched" where
  "spawn_step s i f =
    (if signalers s i = S_Idle \<and> fstate s f = FIBER_V2_IDLE
     then s\<lparr>fstate := (fstate s)(f := FIBER_V2_QUEUED), signalers := (signalers s)(i := S_Push f)\<rparr>
     else s)"

text \<open>\<^verbatim>\<open>sched_v2_fiber_release\<close> of a joined fiber.\<close>

definition release_step :: "sched \<Rightarrow> nat \<Rightarrow> sched" where
  "release_step s f =
    (if fstate s f = FIBER_V2_DEAD then s\<lparr>fstate := (fstate s)(f := FIBER_V2_IDLE)\<rparr> else s)"

text \<open>The parameter tells the fibers the workers free themselves: in worker-frees mode the
  ones a nursery owns (\<^verbatim>\<open>cc_v2_worker_frees_mode\<close>, \<^verbatim>\<open>saved_nursery\<close>).  The
  others are released by the thread that joined them.\<close>

fun sched_step :: "(nat \<Rightarrow> bool) \<Rightarrow> sched \<Rightarrow> sched_ev \<Rightarrow> sched" where
  "sched_step frees s (Drain w) = drain_step s w"
| "sched_step frees s (Resume w k) = resume_step s w k"
| "sched_step frees s (Work w) = run_fiber_step frees s w"
| "sched_step frees s (Signal i f) =
    (if signalers s i = S_Idle then s\<lparr>signalers := (signalers s)(i := S_Load f)\<rparr> else s)"
| "sched_step frees s (Sig i spurious) = signal_step s i spurious"
| "sched_step frees s (Spawn i f) = spawn_step s i f"
| "sched_step frees s (Release f) = (if frees f then s else release_step s f)"

definition sched_init :: sched where
  "sched_init = \<lparr>fstate = (\<lambda>_. FIBER_V2_IDLE), ready = [], workers = (\<lambda>_. W_Idle),
     signalers = (\<lambda>_. S_Idle), owed = (\<lambda>_. False), bug = False\<rparr>"

section \<open>Ownership invariant\<close>

datatype owner = Nobody | In_Queue | By_Worker nat | By_Signaler nat

fun worker_fiber :: "worker_pc \<Rightarrow> nat option" where
  "worker_fiber W_Idle = None"
| "worker_fiber (W_Got f) = Some f"
| "worker_fiber (W_Start f) = Some f"
| "worker_fiber (W_Run f) = Some f"
| "worker_fiber (W_Post f _) = Some f"
| "worker_fiber (W_CasPark f) = Some f"
| "worker_fiber (W_Requeue f) = Some f"
| "worker_fiber (W_Push f) = Some f"
| "worker_fiber (W_Die f) = Some f"
| "worker_fiber (W_Free f) = Some f"

fun signaler_fiber :: "signal_pc \<Rightarrow> nat option" where
  "signaler_fiber (S_Push f) = Some f"
| "signaler_fiber _ = None"

text \<open>The values the state word may have while a worker is at a program point.\<close>

fun worker_states :: "worker_pc \<Rightarrow> nat set" where
  "worker_states (W_Got f) = {1}"
| "worker_states (W_Start f) = {1}"
| "worker_states (W_Push f) = {1}"
| "worker_states (W_Free f) = {4}"
| "worker_states _ = {2, 18}"

fun owner_states :: "sched \<Rightarrow> owner \<Rightarrow> nat set" where
  "owner_states s Nobody = {0, 3, 4}"
| "owner_states s In_Queue = {1}"
| "owner_states s (By_Worker w) = worker_states (workers s w)"
| "owner_states s (By_Signaler i) = {1}"

fun signal_expects :: "signal_pc \<Rightarrow> bool" where
  "signal_expects (S_CasPend f e) = (e = 2)"
| "signal_expects (S_CasWake f e) = (e = 3)"
| "signal_expects _ = True"

definition sched_inv' :: "(nat \<Rightarrow> bool) \<Rightarrow> (nat \<Rightarrow> owner) \<Rightarrow> sched \<Rightarrow> bool" where
  "sched_inv' frees own s =
    (distinct (ready s) \<and> (\<forall>f. own f = In_Queue \<longleftrightarrow> f \<in> set (ready s)) \<and>
     (\<forall>w f. own f = By_Worker w \<longleftrightarrow> worker_fiber (workers s w) = Some f) \<and>
     (\<forall>i f. own f = By_Signaler i \<longleftrightarrow> signaler_fiber (signalers s i) = Some f) \<and>
     (\<forall>f. fstate s f \<in> owner_states s (own f)) \<and>
     (\<forall>i. signal_expects (signalers s i)) \<and>
     (\<forall>f. owed s f \<longrightarrow> fstate s f = 1 \<or> fstate s f = 18) \<and> \<not> bug s \<and>
     (\<forall>w f. workers s w = W_Free f \<longrightarrow> frees f))"

definition sched_inv :: "(nat \<Rightarrow> bool) \<Rightarrow> sched \<Rightarrow> bool" where
  "sched_inv frees s = (\<exists>own. sched_inv' frees own s)"

section \<open>Every step keeps the invariant\<close>

lemma state_base_values [simp]:
  "fiber_v2_state_base 0 = 0" "fiber_v2_state_base (Suc 0) = 1" "fiber_v2_state_base 1 = 1"
  "fiber_v2_state_base 2 = 2"
  "fiber_v2_state_base 3 = 3" "fiber_v2_state_base 4 = 4" "fiber_v2_state_base 18 = 2"
  by code_simp+

lemma state_pending_values [simp]:
  "\<not> fiber_v2_state_has_signal_pending 2" "fiber_v2_state_has_signal_pending 18"
  by code_simp+

lemma set_pending: "2 OR FIBER_V2_FLAG_SIGNAL_PENDING = 18"
  by code_simp

lemma sched_invD:
  assumes "sched_inv' frees own s"
  shows "distinct (ready s)" "own f = In_Queue \<longleftrightarrow> f \<in> set (ready s)"
    "own f = By_Worker w \<longleftrightarrow> worker_fiber (workers s w) = Some f"
    "own f = By_Signaler i \<longleftrightarrow> signaler_fiber (signalers s i) = Some f"
    "fstate s f \<in> owner_states s (own f)" "signal_expects (signalers s i)"
    "owed s f \<Longrightarrow> fstate s f = 1 \<or> fstate s f = 18" "\<not> bug s"
    "workers s w = W_Free f \<Longrightarrow> frees f"
  using assms by (auto simp: sched_inv'_def)

lemma worker_states_fiber:
  assumes "sched_inv' frees own s" "worker_fiber (workers s w) = Some f"
  shows "fstate s f \<in> worker_states (workers s w)"
  using sched_invD(5) [OF assms(1), of f] sched_invD(3) [OF assms(1), of f w] assms(2) by simp

text \<open>A step of one worker that keeps hold of its fiber and may change the state word of it.\<close>

lemma worker_keeps:
  assumes inv: "sched_inv' frees own s" and pc: "worker_fiber (workers s w) = Some f"
    and c: "worker_fiber c = Some f" and x: "x \<in> worker_states c"
    and o: "\<And>g. ow g \<Longrightarrow> if g = f then x = 1 \<or> x = 18 else owed s g"
    and fr: "c = W_Free f \<Longrightarrow> frees f"
    and s': "s' = s\<lparr>fstate := (fstate s)(f := x), owed := ow, workers := (workers s)(w := c)\<rparr>"
  shows "sched_inv' frees own s'"
  unfolding sched_inv'_def
proof (intro conjI allI)
  note D = sched_invD [OF inv]
  have own: "own f = By_Worker w" using D(3) pc by simp
  show "distinct (ready s')" and "own g = In_Queue \<longleftrightarrow> g \<in> set (ready s')" for g
    using D(1) D(2) by (simp_all add: s')
  show "own g = By_Worker v \<longleftrightarrow> worker_fiber (workers s' v) = Some g" for v g
    using D(3) [of g v] D(3) [of g w] pc c by (auto simp: s')
  show "own g = By_Signaler i \<longleftrightarrow> signaler_fiber (signalers s' i) = Some g" for i g
    using D(4) by (simp add: s')
  show "fstate s' g \<in> owner_states s' (own g)" for g
    using D(5) [of g] D(3) [of g w] own pc x by (cases "own g") (auto simp: s')
  show "signal_expects (signalers s' i)" for i using D(6) by (simp add: s')
  show "owed s' g \<longrightarrow> fstate s' g = 1 \<or> fstate s' g = 18" for g
    using D(7) [of g] o [of g] by (auto simp: s' split: if_splits)
  show "\<not> bug s'" using D(8) by (simp add: s')
  show "workers s' v = W_Free g \<longrightarrow> frees g" for v g
    using D(9) [of v g] fr c by (auto simp: s')
qed

text \<open>A worker lets go of its fiber.\<close>

lemma worker_drops:
  assumes inv: "sched_inv' frees own s" and pc: "worker_fiber (workers s w) = Some f"
    and n: "n = In_Queue \<and> x = 1 \<and> rq = ready s @ [f] \<or> n = Nobody \<and> x \<in> {0, 3, 4} \<and> rq = ready s"
    and o: "\<And>g. ow g \<Longrightarrow> if g = f then x = 1 \<or> x = 18 else owed s g"
    and s': "s' = s\<lparr>fstate := (fstate s)(f := x), ready := rq, owed := ow, workers := (workers s)(w := W_Idle)\<rparr>"
  shows "sched_inv' frees (own(f := n)) s'"
  unfolding sched_inv'_def
proof (intro conjI allI)
  note D = sched_invD [OF inv]
  have own: "own f = By_Worker w" using D(3) pc by simp
  have nq: "f \<notin> set (ready s)" using D(2) [of f] own by simp
  show "distinct (ready s')" and "(own(f := n)) g = In_Queue \<longleftrightarrow> g \<in> set (ready s')" for g
    using D(1) D(2) [of g] nq n by (auto simp: s')
  show "(own(f := n)) g = By_Worker v \<longleftrightarrow> worker_fiber (workers s' v) = Some g" for v g
    using D(3) [of g v] D(3) [of g w] D(3) [of f v] own n pc by (auto simp: s')
  show "(own(f := n)) g = By_Signaler i \<longleftrightarrow> signaler_fiber (signalers s' i) = Some g" for i g
    using D(4) [of g i] own n by (auto simp: s')
  show "fstate s' g \<in> owner_states s' ((own(f := n)) g)" for g
    using D(5) [of g] D(3) [of g w] own pc n by (cases "own g") (auto simp: s')
  show "signal_expects (signalers s' i)" for i using D(6) by (simp add: s')
  show "owed s' g \<longrightarrow> fstate s' g = 1 \<or> fstate s' g = 18" for g
    using D(7) [of g] o [of g] by (auto simp: s' split: if_splits)
  show "\<not> bug s'" using D(8) by (simp add: s')
  show "workers s' v = W_Free g \<longrightarrow> frees g" for v g
    using D(9) [of v g] by (auto simp: s')
qed


lemma drain_inv:
  assumes inv: "sched_inv' frees own s"
  shows "sched_inv frees (drain_step s w)"
proof (cases "workers s w = W_Idle \<and> ready s \<noteq> []")
  case True
  then obtain f fs where pc: "workers s w = W_Idle" and q: "ready s = f # fs" by (cases "ready s") auto
  note D = sched_invD [OF inv]
  define s' where "s' = s\<lparr>ready := fs, workers := (workers s)(w := W_Got f)\<rparr>"
  have own: "own f = In_Queue" using D(2) [of f] q by simp
  have idle: "own g \<noteq> By_Worker w" for g using D(3) [of g w] pc by simp
  have "sched_inv' frees (own(f := By_Worker w)) s'"
    unfolding sched_inv'_def
  proof (intro conjI allI)
    show "distinct (ready s')" and "(own(f := By_Worker w)) g = In_Queue \<longleftrightarrow> g \<in> set (ready s')" for g
      using D(1) D(2) [of g] q by (auto simp: s'_def)
    show "(own(f := By_Worker w)) g = By_Worker v \<longleftrightarrow> worker_fiber (workers s' v) = Some g" for v g
      using D(3) [of g v] idle own by (auto simp: s'_def)
    show "(own(f := By_Worker w)) g = By_Signaler i \<longleftrightarrow> signaler_fiber (signalers s' i) = Some g" for i g
      using D(4) [of g i] own by (auto simp: s'_def)
    show "fstate s' g \<in> owner_states s' ((own(f := By_Worker w)) g)" for g
      using D(5) [of g] idle own by (cases "own g") (auto simp: s'_def)
  qed (use D(6-9) in \<open>auto simp: s'_def\<close>)
  then show ?thesis using pc q by (auto simp: sched_inv_def drain_step_def s'_def)
next
  case False
  then have "drain_step s w = s"
    by (auto simp: drain_step_def split: worker_pc.splits list.splits)
  then show ?thesis using inv by (auto simp: sched_inv_def)
qed

lemma worker_goto:
  assumes inv: "sched_inv' frees own s" and pc: "worker_fiber (workers s w) = Some f"
    and c: "worker_fiber c = Some f" "worker_states c = worker_states (workers s w)"
    "c \<noteq> W_Free f"
  shows "sched_inv' frees own (s\<lparr>workers := (workers s)(w := c)\<rparr>)"
  by (rule worker_keeps [OF inv pc c(1), of "fstate s f" "owed s"])
    (use worker_states_fiber [OF inv pc] sched_invD(7) [OF inv] c in \<open>auto split: if_splits\<close>)

lemma resume_inv:
  assumes inv: "sched_inv' frees own s"
  shows "sched_inv frees (resume_step s w k)"
proof (cases "workers s w")
  case (W_Run f)
  have "sched_inv' frees own (s\<lparr>workers := (workers s)(w := if k = Finished then W_Die f else W_Post f k)\<rparr>)"
    by (rule worker_goto [OF inv, of w f]) (simp_all add: W_Run)
  then show ?thesis using W_Run by (auto simp: resume_step_def sched_inv_def)
qed (use inv in \<open>auto simp: resume_step_def sched_inv_def\<close>)

lemma run_fiber_inv:
  assumes inv: "sched_inv' frees own s"
  shows "sched_inv frees (run_fiber_step frees s w)"
proof -
  note D = sched_invD [OF inv] and st = worker_states_fiber [OF inv, of w]
  have upd: "s\<lparr>owed := owed s\<rparr> = s" "s\<lparr>ready := ready s\<rparr> = s" by simp_all
  show ?thesis
  proof (cases "workers s w")
    case (W_Got f)
    have "sched_inv' frees own (s\<lparr>workers := (workers s)(w := W_Start f)\<rparr>)"
      by (rule worker_goto [OF inv, of w f]) (simp_all add: W_Got)
    moreover have "fstate s f = 1" using st [of f] W_Got by simp
    ultimately show ?thesis using W_Got by (auto simp: run_fiber_step_def sched_inv_def sched_simps)
  next
    case (W_Start f)
    have "sched_inv' frees own (s\<lparr>fstate := (fstate s)(f := 2), owed := (owed s)(f := False),
        workers := (workers s)(w := W_Run f)\<rparr>)"
      by (rule worker_keeps [OF inv, of w f _ 2 "(owed s)(f := False)"])
        (use W_Start in \<open>auto split: if_splits\<close>)
    then show ?thesis using W_Start by (auto simp: run_fiber_step_def sched_inv_def sched_simps)
  next
    case (W_Post f k)
    have "sched_inv' frees own (s\<lparr>workers := (workers s)(w := W_Requeue f)\<rparr>)"
      "sched_inv' frees own (s\<lparr>workers := (workers s)(w := W_CasPark f)\<rparr>)"
      by (rule worker_goto [OF inv, of w f]; simp add: W_Post)+
    then show ?thesis using W_Post by (auto simp: run_fiber_step_def sched_inv_def)
  next
    case (W_CasPark f)
    have "sched_inv' frees own (s\<lparr>workers := (workers s)(w := W_Requeue f)\<rparr>)"
      by (rule worker_goto [OF inv, of w f]) (simp_all add: W_CasPark)
    moreover have "sched_inv' frees (own(f := Nobody))
        (s\<lparr>fstate := (fstate s)(f := 3), workers := (workers s)(w := W_Idle)\<rparr>)" if "fstate s f = 2"
      by (rule worker_drops [OF inv, of w f _ 3 "ready s" "owed s"])
        (use W_CasPark that D(7) [of f] in \<open>auto split: if_splits\<close>)
    ultimately show ?thesis using W_CasPark by (auto simp: run_fiber_step_def sched_inv_def sched_simps)
  next
    case (W_Requeue f)
    have "sched_inv' frees own (s\<lparr>fstate := (fstate s)(f := 1), workers := (workers s)(w := W_Push f)\<rparr>)"
      by (rule worker_keeps [OF inv, of w f _ 1 "owed s"])
        (use W_Requeue in \<open>auto split: if_splits\<close>)
    then show ?thesis using W_Requeue by (auto simp: run_fiber_step_def sched_inv_def sched_simps)
  next
    case (W_Push f)
    have "sched_inv' frees (own(f := In_Queue)) (s\<lparr>ready := ready s @ [f], workers := (workers s)(w := W_Idle)\<rparr>)"
      by (rule worker_drops [OF inv, of w f _ 1 "ready s @ [f]" "owed s"])
        (use W_Push st [of f] in \<open>auto split: if_splits simp: fun_upd_idem\<close>)
    then show ?thesis using W_Push by (auto simp: run_fiber_step_def sched_inv_def)
  next
    case (W_Die f)
    have "sched_inv' frees own (s\<lparr>fstate := (fstate s)(f := 4), owed := (owed s)(f := False),
        workers := (workers s)(w := W_Free f)\<rparr>)" if "frees f"
      by (rule worker_keeps [OF inv, of w f _ 4 "(owed s)(f := False)"])
        (use W_Die that in \<open>auto split: if_splits\<close>)
    moreover have "sched_inv' frees (own(f := Nobody)) (s\<lparr>fstate := (fstate s)(f := 4),
        owed := (owed s)(f := False), workers := (workers s)(w := W_Idle)\<rparr>)"
      by (rule worker_drops [OF inv, of w f _ 4 "ready s" "(owed s)(f := False)"])
        (use W_Die in \<open>auto split: if_splits\<close>)
    ultimately show ?thesis using W_Die by (auto simp: run_fiber_step_def sched_inv_def sched_simps)
  next
    case (W_Free f)
    have "fstate s f = 4" using st [of f] W_Free by simp
    then have "\<not> owed s f" using D(7) [of f] by auto
    then have "sched_inv' frees (own(f := Nobody)) (s\<lparr>fstate := (fstate s)(f := 0), workers := (workers s)(w := W_Idle)\<rparr>)"
      by (intro worker_drops [OF inv, of w f _ 0 "ready s" "owed s"])
        (use W_Free in \<open>auto split: if_splits\<close>)
    then show ?thesis using W_Free by (auto simp: run_fiber_step_def sched_inv_def sched_simps)
  qed (use inv in \<open>auto simp: run_fiber_step_def sched_inv_def\<close>)
qed


lemma worker_states_cases:
  "x \<in> worker_states c \<Longrightarrow>
   x = 1 \<or> (x = 2 \<or> x = 18) \<and> worker_states c = {2, 18} \<or> x = 4 \<and> (\<exists>f. c = W_Free f)"
  by (cases c) auto

lemma state_cases:
  assumes inv: "sched_inv' frees own s"
  shows "(fstate s f = 0 \<or> fstate s f = 3) \<and> own f = Nobody \<or> fstate s f = 1 \<or>
    (fstate s f = 2 \<or> fstate s f = 18) \<and> owner_states s (own f) = {2, 18} \<or>
    fstate s f = 4 \<and> (own f = Nobody \<or> frees f)"
proof (cases "own f")
  case (By_Worker w)
  then have "worker_fiber (workers s w) = Some f" using sched_invD(3) [OF inv] by simp
  moreover have "fstate s f \<in> worker_states (workers s w)"
    using sched_invD(5) [OF inv, of f] By_Worker by simp
  ultimately show ?thesis
    using worker_states_cases [of "fstate s f" "workers s w"] sched_invD(9) [OF inv, of w] By_Worker
    by auto
qed (use sched_invD(5) [OF inv, of f] in auto)

text \<open>A signaller changes its program counter and possibly the state word of a fiber it does
  not hold.\<close>

lemma signaler_moves:
  assumes inv: "sched_inv' frees own s"
    and pc: "signaler_fiber (signalers s i) = None" "signaler_fiber c = None" "signal_expects c"
    and x: "x \<in> owner_states s (own f)"
    and o: "\<And>g. ow g \<Longrightarrow> if g = f then x = 1 \<or> x = 18 else owed s g"
    and s': "s' = s\<lparr>fstate := (fstate s)(f := x), owed := ow, signalers := (signalers s)(i := c)\<rparr>"
  shows "sched_inv' frees own s'"
  unfolding sched_inv'_def
proof (intro conjI allI)
  note D = sched_invD [OF inv]
  show "own g = By_Signaler j \<longleftrightarrow> signaler_fiber (signalers s' j) = Some g" for j g
    using D(4) [of g j] pc by (auto simp: s')
  show "fstate s' g \<in> owner_states s' (own g)" for g
    using D(5) [of g] x by (cases "own g") (auto simp: s')
  show "signal_expects (signalers s' j)" for j using D(6) pc by (simp add: s')
  show "owed s' g \<longrightarrow> fstate s' g = 1 \<or> fstate s' g = 18" for g
    using D(7) [of g] o [of g] by (auto simp: s' split: if_splits)
qed (use sched_invD [OF inv] in \<open>auto simp: s'\<close>)

lemma signaler_goto:
  assumes inv: "sched_inv' frees own s"
    and pc: "signaler_fiber (signalers s i) = None" "signaler_fiber c = None" "signal_expects c"
  shows "sched_inv' frees own (s\<lparr>signalers := (signalers s)(i := c)\<rparr>)"
  by (rule signaler_moves [OF inv pc, of "fstate s f" f "owed s" for f])
    (use sched_invD(5,7) [OF inv] in \<open>auto split: if_splits\<close>)

lemma owner_states_cong: "workers s' = workers s \<Longrightarrow> owner_states s' x = owner_states s x"
  by (cases x) simp_all

text \<open>A signaller takes a fiber nobody holds, to enqueue it.\<close>

lemma signaler_takes:
  assumes inv: "sched_inv' frees own s" and pc: "signaler_fiber (signalers s i) = None"
    and own: "own f = Nobody" and o: "\<And>g. ow g \<Longrightarrow> g = f \<or> owed s g"
    and s': "s' = s\<lparr>fstate := (fstate s)(f := 1), owed := ow, signalers := (signalers s)(i := S_Push f)\<rparr>"
  shows "sched_inv' frees (own(f := By_Signaler i)) s'"
  unfolding sched_inv'_def
proof (intro conjI allI)
  note D = sched_invD [OF inv]
  have free: "own g \<noteq> By_Signaler i" for g using D(4) [of g i] pc by simp
  show "(own(f := By_Signaler i)) g = In_Queue \<longleftrightarrow> g \<in> set (ready s')" for g
    using D(2) [of g] own by (auto simp: s')
  show "(own(f := By_Signaler i)) g = By_Worker v \<longleftrightarrow> worker_fiber (workers s' v) = Some g" for v g
    using D(3) [of g v] own by (auto simp: s')
  show "(own(f := By_Signaler i)) g = By_Signaler j \<longleftrightarrow> signaler_fiber (signalers s' j) = Some g" for j g
    using D(4) [of g j] free own by (auto simp: s')
  show "fstate s' g \<in> owner_states s' ((own(f := By_Signaler i)) g)" for g
    using D(5) [of g] by (cases "own g") (auto simp: s')
  show "owed s' g \<longrightarrow> fstate s' g = 1 \<or> fstate s' g = 18" for g
    using D(7) [of g] o [of g] by (auto simp: s')
qed (use sched_invD [OF inv] in \<open>auto simp: s'\<close>)

lemma signaler_pushes:
  assumes inv: "sched_inv' frees own s" and pc: "signalers s i = S_Push f"
    and s': "s' = s\<lparr>ready := ready s @ [f], signalers := (signalers s)(i := S_Idle)\<rparr>"
  shows "sched_inv' frees (own(f := In_Queue)) s'"
  unfolding sched_inv'_def
proof (intro conjI allI)
  note D = sched_invD [OF inv]
  have own: "own f = By_Signaler i" using D(4) pc by simp
  have nq: "f \<notin> set (ready s)" using D(2) [of f] own by simp
  show "distinct (ready s')" and "(own(f := In_Queue)) g = In_Queue \<longleftrightarrow> g \<in> set (ready s')" for g
    using D(1) D(2) [of g] nq by (auto simp: s')
  show "(own(f := In_Queue)) g = By_Worker v \<longleftrightarrow> worker_fiber (workers s' v) = Some g" for v g
    using D(3) [of g v] own by (auto simp: s')
  show "(own(f := In_Queue)) g = By_Signaler j \<longleftrightarrow> signaler_fiber (signalers s' j) = Some g" for j g
    using D(4) [of g j] D(4) [of f j] D(4) [of g i] own pc by (auto simp: s')
  show "fstate s' g \<in> owner_states s' ((own(f := In_Queue)) g)" for g
    using D(5) [of g] own by (cases "own g") (auto simp: s')
qed (use sched_invD [OF inv] in \<open>auto simp: s'\<close>)

lemma signal_inv:
  assumes inv: "sched_inv' frees own s"
  shows "sched_inv frees (signal_step s i sp)"
proof (cases "signalers s i")
  case S_Idle
  then show ?thesis using inv by (auto simp: signal_step_def sched_inv_def)
next
  case (S_Load f)
  have pc: "signaler_fiber (signalers s i) = None" by (simp add: S_Load)
  have go: "sched_inv' frees own (s\<lparr>signalers := (signalers s)(i := c)\<rparr>)"
    if "signaler_fiber c = None" "signal_expects c" for c
    by (rule signaler_goto [OF inv pc that])
  have mark: "sched_inv' frees own (s\<lparr>owed := (owed s)(f := True), signalers := (signalers s)(i := S_Idle)\<rparr>)"
    if "fstate s f = 1 \<or> fstate s f = 18"
    by (rule signaler_moves [OF inv pc, of S_Idle "fstate s f" f "(owed s)(f := True)"])
      (use that sched_invD(5) [OF inv, of f] in \<open>auto split: if_splits\<close>)
  show ?thesis
    using state_cases [OF inv, of f] go [of S_Idle] go [of "S_CasPend f 2"] go [of "S_CasWake f 3"] mark
    by (auto simp: signal_step_def S_Load sched_inv_def sched_simps Let_def)
next
  case (S_CasPend f e)
  have pc: "signaler_fiber (signalers s i) = None" by (simp add: S_CasPend)
  have e: "e = 2" using sched_invD(6) [OF inv, of i] S_CasPend by simp
  have "sched_inv' frees own (s\<lparr>signalers := (signalers s)(i := S_Load f)\<rparr>)"
    by (rule signaler_goto [OF inv pc]) simp_all
  moreover have "sched_inv' frees own (s\<lparr>fstate := (fstate s)(f := 18), owed := (owed s)(f := True),
      signalers := (signalers s)(i := S_Idle)\<rparr>)" if "fstate s f = 2"
    by (rule signaler_moves [OF inv pc, of S_Idle 18 f "(owed s)(f := True)"])
      (use that state_cases [OF inv, of f] in \<open>auto split: if_splits\<close>)
  ultimately show ?thesis
    using e by (auto simp: signal_step_def S_CasPend sched_inv_def set_pending)
next
  case (S_CasWake f e)
  have pc: "signaler_fiber (signalers s i) = None" by (simp add: S_CasWake)
  have e: "e = 3" using sched_invD(6) [OF inv, of i] S_CasWake by simp
  have "sched_inv' frees own (s\<lparr>signalers := (signalers s)(i := S_Load f)\<rparr>)"
    by (rule signaler_goto [OF inv pc]) simp_all
  moreover have "sched_inv' frees (own(f := By_Signaler i)) (s\<lparr>fstate := (fstate s)(f := 1),
      owed := (owed s)(f := True), signalers := (signalers s)(i := S_Push f)\<rparr>)" if "fstate s f = 3"
    by (rule signaler_takes [OF inv pc, of f "(owed s)(f := True)"])
      (use that state_cases [OF inv, of f] in \<open>auto split: if_splits\<close>)
  ultimately show ?thesis
    using e by (auto simp: signal_step_def S_CasWake sched_inv_def sched_simps)
next
  case (S_Push f)
  then show ?thesis
    using signaler_pushes [OF inv S_Push refl] by (auto simp: signal_step_def sched_inv_def)
qed

lemma spawn_inv:
  assumes inv: "sched_inv' frees own s"
  shows "sched_inv frees (spawn_step s i f)"
proof -
  have "sched_inv' frees (own(f := By_Signaler i)) (s\<lparr>fstate := (fstate s)(f := 1),
      signalers := (signalers s)(i := S_Push f)\<rparr>)" if "fstate s f = 0" "signalers s i = S_Idle"
    by (rule signaler_takes [OF inv, of i f "owed s"])
      (use that state_cases [OF inv, of f] in \<open>auto split: if_splits\<close>)
  then show ?thesis using inv by (auto simp: spawn_step_def sched_inv_def sched_simps)
qed

lemma release_inv:
  assumes inv: "sched_inv' frees own s" and nf: "\<not> frees f"
  shows "sched_inv frees (release_step s f)"
proof -
  have "sched_inv' frees own (s\<lparr>fstate := (fstate s)(f := 0)\<rparr>)" if "fstate s f = 4"
    using inv that nf state_cases [OF inv, of f] sched_invD(7) [OF inv, of f]
      owner_states_cong [of "s\<lparr>fstate := (fstate s)(f := 0)\<rparr>" s]
    unfolding sched_inv'_def by auto
  then show ?thesis using inv by (auto simp: release_step_def sched_inv_def sched_simps)
qed

lemma sched_step_inv:
  assumes "sched_inv frees s"
  shows "sched_inv frees (sched_step frees s ev)"
proof -
  obtain own where inv: "sched_inv' frees own s" using assms by (auto simp: sched_inv_def)
  show ?thesis
  proof (cases ev)
    case (Signal i f)
    have "sched_inv' frees own (s\<lparr>signalers := (signalers s)(i := S_Load f)\<rparr>)" if "signalers s i = S_Idle"
      by (rule signaler_goto [OF inv]) (simp_all add: that)
    then show ?thesis using Signal assms by (auto simp: sched_inv_def)
  qed (use assms drain_inv [OF inv] resume_inv [OF inv] run_fiber_inv [OF inv] signal_inv [OF inv]
         spawn_inv [OF inv] release_inv [OF inv] in auto)
qed

lemma sched_init_inv: "sched_inv frees sched_init"
  unfolding sched_inv_def
  by (rule exI [of _ "\<lambda>_. Nobody"]) (simp add: sched_inv'_def sched_init_def sched_simps)

lemma sched_run_inv: "sched_inv frees (foldl (sched_step frees) sched_init evs)"
  by (induction evs rule: rev_induct) (simp_all add: sched_init_inv sched_step_inv)

section \<open>Properties of every run\<close>

text \<open>C2: In every interleaving of workers, signallers and spawners, a fiber that some signal has
  marked runnable since it last started to run is never left parked: the signal
  either finds it queued, sets the pending bit that makes the worker requeue
  it, or takes it out of the parked state itself.\<close>

theorem signal_never_lost:
  "fiber_v2_state_base (fstate (foldl (sched_step frees) sched_init evs) f) = FIBER_V2_PARKED \<Longrightarrow>
   \<not> owed (foldl (sched_step frees) sched_init evs) f"
proof -
  let ?s = "foldl (sched_step frees) sched_init evs"
  obtain own where inv: "sched_inv' frees own ?s" using sched_run_inv by (auto simp: sched_inv_def)
  show "fiber_v2_state_base (fstate ?s f) = FIBER_V2_PARKED \<Longrightarrow> \<not> owed ?s f"
    using sched_invD(7) [OF inv, of f] by (auto simp: sched_simps)
qed

text \<open>A run in which the fiber is signalled while it runs, so its park is turned into a requeue,
  and parks for good the second time.\<close>

definition demo_run :: "sched_ev list" where
  "demo_run = [Spawn 0 7, Sig 0 False, Drain 0, Work 0, Work 0, Resume 0 V2_YIELD_PARK, Work 0,
     Signal 1 7, Sig 1 False, Sig 1 True, Sig 1 False, Sig 1 False, Work 0, Work 0, Work 0,
     Drain 2, Work 2, Work 2, Resume 2 V2_YIELD_PARK, Work 2, Work 2]"

theorem signal_never_lost_witness:
  "fstate (foldl (sched_step (\<lambda>_. True)) sched_init demo_run) 7 = FIBER_V2_PARKED \<and>
   \<not> owed (foldl (sched_step (\<lambda>_. True)) sched_init demo_run) 7"
proof -
  have st: "fstate (foldl (sched_step (\<lambda>_. True)) sched_init demo_run) 7 = FIBER_V2_PARKED" by code_simp
  then show ?thesis
    using signal_never_lost [of "\<lambda>_. True" demo_run 7] by (simp add: sched_simps)
qed



text \<open>When a signal arrives after the worker has decided to park the fiber but before the park
  is committed, the three next steps of that worker put the fiber back on the
  ready queue.\<close>

theorem signal_races_park:
  assumes "s = foldl (sched_step frees) sched_init evs" "workers s w = W_CasPark f" "owed s f"
  shows "ready (run_fiber_step frees (run_fiber_step frees (run_fiber_step frees s w) w) w) = ready s @ [f]"
proof -
  obtain own where inv: "sched_inv' frees own s"
    using sched_run_inv [of frees evs] assms(1) by (auto simp: sched_inv_def)
  have "fstate s f \<in> {2, 18}" using worker_states_fiber [OF inv, of w f] assms(2) by simp
  then have "fstate s f = 18" using sched_invD(7) [OF inv assms(3)] by auto
  then show ?thesis using assms(2) by (simp add: run_fiber_step_def sched_simps)
qed

theorem signal_races_park_witness:
  "ready (run_fiber_step (\<lambda>_. True) (run_fiber_step (\<lambda>_. True) (run_fiber_step (\<lambda>_. True)
     (foldl (sched_step (\<lambda>_. True)) sched_init (take 12 demo_run)) 0) 0) 0) = [7]"
proof -
  have "workers (foldl (sched_step (\<lambda>_. True)) sched_init (take 12 demo_run)) 0 = W_CasPark 7"
    and "owed (foldl (sched_step (\<lambda>_. True)) sched_init (take 12 demo_run)) 7"
    and "ready (foldl (sched_step (\<lambda>_. True)) sched_init (take 12 demo_run)) = []"
    by code_simp+
  then show ?thesis using signal_races_park [OF refl, of "\<lambda>_. True" "take 12 demo_run" 0 7] by simp
qed

end
