(* ===== verification/Sched_Pool.thy ===== *)
theory Sched_Pool
  imports Sched_Fiber
begin

text \<open>
  The linked structures and handshakes around the fibers of sched_v2.c: the
  intrusive ready queue, the free list of pooled fibers, the join handshake,
  wait tickets and park deadlines, and the deadlock detector.
\<close>

section \<open>The intrusive ready queue\<close>

record v2_queue =
  qhead :: "nat option"
  qtail :: "nat option"
  qcount :: nat

type_synonym next_ptrs = "nat \<Rightarrow> nat option"

definition v2_queue_init :: v2_queue where
  "v2_queue_init = \<lparr>qhead = None, qtail = None, qcount = 0\<rparr>"

text \<open>The result carries the queue depth before the push.\<close>

definition v2_queue_push :: "v2_queue \<times> next_ptrs \<Rightarrow> nat \<Rightarrow> (v2_queue \<times> next_ptrs) \<times> nat" where
  "v2_queue_push st f =
    (case st of (q, nxt) \<Rightarrow>
      (let nxt = nxt(f := None);
           (q, nxt) = (case qtail q of
               Some t \<Rightarrow> (q, nxt(t := Some f))
             | None \<Rightarrow> (q\<lparr>qhead := Some f\<rparr>, nxt));
           prev = qcount q
       in ((q\<lparr>qtail := Some f, qcount := prev + 1\<rparr>, nxt), prev)))"

definition v2_queue_pop :: "v2_queue \<times> next_ptrs \<Rightarrow> (v2_queue \<times> next_ptrs) \<times> nat option" where
  "v2_queue_pop st =
    (case st of (q, nxt) \<Rightarrow>
      (if qcount q = 0 then ((q, nxt), None)
       else (case qhead q of
           None \<Rightarrow> ((q, nxt), None)
         | Some f \<Rightarrow>
             (let q = q\<lparr>qhead := nxt f\<rparr>;
                  q = (if qhead q = None then q\<lparr>qtail := None\<rparr> else q)
              in ((q\<lparr>qcount := qcount q - 1\<rparr>, nxt(f := None)), Some f)))))"

section \<open>The free list of pooled fibers\<close>

text \<open>\<^verbatim>\<open>fiber_v2_alloc\<close> and \<^verbatim>\<open>fiber_v2_free\<close> on the shared list, one access per step.\<close>

datatype pool_pc =
    P_Idle
  | A_Next nat
  | A_Cas nat "nat option"
  | A_Got nat
  | F_Cas nat "nat option"

record pool =
  free_list :: "nat option"
  fnext :: next_ptrs
  pool_pcs :: "nat \<Rightarrow> pool_pc"
  fresh :: nat

datatype pool_ev = Alloc nat | Free nat | Pool nat

text \<open>An empty list makes the caller allocate a new fiber.\<close>

definition alloc_from :: "pool \<Rightarrow> nat \<Rightarrow> pool" where
  "alloc_from s t = (case free_list s of
      Some f \<Rightarrow> s\<lparr>pool_pcs := (pool_pcs s)(t := A_Next f)\<rparr>
    | None \<Rightarrow> s\<lparr>pool_pcs := (pool_pcs s)(t := A_Got (fresh s)), fresh := fresh s + 1\<rparr>)"

definition free_link :: "pool \<Rightarrow> nat \<Rightarrow> nat \<Rightarrow> pool" where
  "free_link s t f = s\<lparr>fnext := (fnext s)(f := free_list s),
     pool_pcs := (pool_pcs s)(t := F_Cas f (free_list s))\<rparr>"

fun pool_step :: "pool \<Rightarrow> pool_ev \<Rightarrow> pool" where
  "pool_step s (Alloc t) = (if pool_pcs s t = P_Idle then alloc_from s t else s)"
| "pool_step s (Free t) = (case pool_pcs s t of A_Got f \<Rightarrow> free_link s t f | _ \<Rightarrow> s)"
| "pool_step s (Pool t) = (case pool_pcs s t of
      A_Next f \<Rightarrow> s\<lparr>pool_pcs := (pool_pcs s)(t := A_Cas f (fnext s f))\<rparr>
    | A_Cas f n \<Rightarrow>
        (if free_list s = Some f
         then s\<lparr>free_list := n, fnext := (fnext s)(f := None), pool_pcs := (pool_pcs s)(t := A_Got f)\<rparr>
         else alloc_from s t)
    | F_Cas f h \<Rightarrow>
        (if free_list s = h
         then s\<lparr>free_list := Some f, pool_pcs := (pool_pcs s)(t := P_Idle)\<rparr>
         else free_link s t f)
    | _ \<Rightarrow> s)"

section \<open>The join handshake\<close>

text \<open>One pooled fiber, the worker that completes it (\<^verbatim>\<open>thread_v2_run_fiber\<close>: store done, take the
  waiter and unpark it) and joining fibers (\<^verbatim>\<open>sched_v2_join\<close>: publish the waiter, then park
  while done is not set).\<close>

datatype completer_pc = C_Run | C_Done | C_End
datatype joiner_pc = J_Idle | J_Start | J_Publish | J_Check | J_Parked | J_Finished

record join_sys =
  fdone :: bool
  join_waiter :: "nat option"
  completer :: "nat \<Rightarrow> completer_pc"
  joiner :: "nat \<Rightarrow> joiner_pc"

datatype join_ev = Complete nat | Join nat | Joining nat | Recycle

fun join_step :: "join_sys \<Rightarrow> join_ev \<Rightarrow> join_sys" where
  "join_step s (Complete c) = (case completer s c of
      C_Run \<Rightarrow> s\<lparr>fdone := True, completer := (completer s)(c := C_Done)\<rparr>
    | C_Done \<Rightarrow>
        (let s1 = (case join_waiter s of
              Some j \<Rightarrow> (if joiner s j = J_Parked then s\<lparr>joiner := (joiner s)(j := J_Check)\<rparr> else s)
            | None \<Rightarrow> s)
         in s1\<lparr>join_waiter := None, completer := (completer s)(c := C_End)\<rparr>)
    | C_End \<Rightarrow> s)"
| "join_step s (Join j) = (if joiner s j = J_Idle then s\<lparr>joiner := (joiner s)(j := J_Start)\<rparr> else s)"
| "join_step s (Joining j) = (case joiner s j of
      J_Start \<Rightarrow> s\<lparr>joiner := (joiner s)(j := if fdone s then J_Finished else J_Publish)\<rparr>
    | J_Publish \<Rightarrow> s\<lparr>join_waiter := Some j, joiner := (joiner s)(j := J_Check)\<rparr>
    | J_Check \<Rightarrow>
        (if fdone s then s\<lparr>join_waiter := None, joiner := (joiner s)(j := J_Finished)\<rparr>
         else s\<lparr>joiner := (joiner s)(j := J_Parked)\<rparr>)
    | _ \<Rightarrow> s)"
| "join_step s Recycle = (if fdone s then s\<lparr>fdone := False, join_waiter := None\<rparr> else s)"

definition join_init :: join_sys where
  "join_init = \<lparr>fdone = False, join_waiter = None, completer = (\<lambda>_. C_Run), joiner = (\<lambda>_. J_Idle)\<rparr>"

section \<open>Fiber bookkeeping\<close>

record fiber_meta =
  wait_ticket :: u64
  has_park_deadline :: bool
  park_deadline :: "int \<times> int"
  deadlock_suppress_depth :: u32
  external_wait_depth :: u32
  open_chan_recv_wait :: bool

definition sched_v2_fiber_publish_wait_ticket :: "fiber_meta \<Rightarrow> fiber_meta \<times> u64" where
  "sched_v2_fiber_publish_wait_ticket m = (m\<lparr>wait_ticket := wait_ticket m + 1\<rparr>, wait_ticket m + 1)"

definition sched_v2_fiber_wait_ticket_matches :: "fiber_meta \<Rightarrow> u64 \<Rightarrow> bool" where
  "sched_v2_fiber_wait_ticket_matches m ticket = (wait_ticket m = ticket)"

definition inc_depth :: "u32 \<Rightarrow> u32" where "inc_depth d = (if d < - 1 then d + 1 else d)"
definition dec_depth :: "u32 \<Rightarrow> u32" where "dec_depth d = (if 0 < d then d - 1 else d)"

definition sched_v2_fiber_inc_deadlock_suppress :: "fiber_meta \<Rightarrow> fiber_meta" where
  "sched_v2_fiber_inc_deadlock_suppress m =
    m\<lparr>deadlock_suppress_depth := inc_depth (deadlock_suppress_depth m)\<rparr>"

definition sched_v2_fiber_dec_deadlock_suppress :: "fiber_meta \<Rightarrow> fiber_meta" where
  "sched_v2_fiber_dec_deadlock_suppress m =
    m\<lparr>deadlock_suppress_depth := dec_depth (deadlock_suppress_depth m)\<rparr>"

definition sched_v2_fiber_inc_external_wait :: "fiber_meta \<Rightarrow> fiber_meta" where
  "sched_v2_fiber_inc_external_wait m = m\<lparr>external_wait_depth := inc_depth (external_wait_depth m)\<rparr>"

definition sched_v2_fiber_dec_external_wait :: "fiber_meta \<Rightarrow> fiber_meta" where
  "sched_v2_fiber_dec_external_wait m = m\<lparr>external_wait_depth := dec_depth (external_wait_depth m)\<rparr>"

text \<open>The counter of published deadlines is kept with the flag of the fiber.\<close>

definition sched_v2_fiber_set_park_deadline ::
  "fiber_meta \<Rightarrow> nat \<Rightarrow> int \<times> int \<Rightarrow> fiber_meta \<times> nat" where
  "sched_v2_fiber_set_park_deadline m g d =
    (m\<lparr>park_deadline := d, has_park_deadline := True\<rparr>, if has_park_deadline m then g else g + 1)"

definition sched_v2_fiber_clear_park_deadline :: "fiber_meta \<Rightarrow> nat \<Rightarrow> fiber_meta \<times> nat" where
  "sched_v2_fiber_clear_park_deadline m g =
    (m\<lparr>has_park_deadline := False\<rparr>, if has_park_deadline m then g - 1 else g)"

text \<open>\<^verbatim>\<open>sched_v2_wake_expired_parkers\<close>: the fibers of the list it signals.\<close>

definition deadline_pending :: "int \<times> int \<Rightarrow> int \<times> int \<Rightarrow> bool" where
  "deadline_pending now d = (fst now < fst d \<or> fst now = fst d \<and> snd now < snd d)"

definition sched_v2_wake_expired_parkers ::
  "nat \<Rightarrow> int \<times> int \<Rightarrow> (nat \<times> nat \<times> fiber_meta) list \<Rightarrow> nat list" where
  "sched_v2_wake_expired_parkers g now all_fibers =
    (if g = 0 then []
     else map fst (filter (\<lambda>(f, raw, m). has_park_deadline m \<and>
        fiber_v2_state_base raw = FIBER_V2_PARKED \<and> \<not> deadline_pending now (park_deadline m)) all_fibers))"

section \<open>The deadlock detector\<close>

text \<open>\<^verbatim>\<open>sched_v2_classify_parked_fibers\<close>\<close>

record parked_counts =
  internal_parked :: nat
  suppressed_parked :: nat
  external_parked :: nat
  saw_only_open_recv :: bool

definition classify_one :: "parked_counts \<Rightarrow> nat \<times> fiber_meta \<Rightarrow> parked_counts" where
  "classify_one c fm = (case fm of (raw, m) \<Rightarrow>
     if fiber_v2_state_base raw \<noteq> FIBER_V2_PARKED then c
     else if 0 < external_wait_depth m then c\<lparr>external_parked := external_parked c + 1\<rparr>
     else if 0 < deadlock_suppress_depth m then c\<lparr>suppressed_parked := suppressed_parked c + 1\<rparr>
     else (let c = c\<lparr>internal_parked := internal_parked c + 1\<rparr> in
           if open_chan_recv_wait m then c else c\<lparr>saw_only_open_recv := False\<rparr>))"

definition sched_v2_classify_parked_fibers :: "(nat \<times> fiber_meta) list \<Rightarrow> parked_counts" where
  "sched_v2_classify_parked_fibers all_fibers =
    foldl classify_one
      \<lparr>internal_parked = 0, suppressed_parked = 0, external_parked = 0, saw_only_open_recv = True\<rparr>
      all_fibers"

definition SCHED_V2_DEADLOCK_PERSIST_MS :: u64 where "SCHED_V2_DEADLOCK_PERSIST_MS = 1000"

record detector =
  first_seen :: u64
  reported :: bool

text \<open>\<^verbatim>\<open>sched_v2_check_deadlock\<close>; the result says whether the deadlock is reported now.\<close>

definition sched_v2_check_deadlock ::
  "detector \<Rightarrow> bool \<Rightarrow> int \<Rightarrow> int \<Rightarrow> nat \<Rightarrow> (nat \<times> fiber_meta) list \<Rightarrow> nat \<Rightarrow> u64 \<Rightarrow> detector \<times> bool" where
  "sched_v2_check_deadlock d initialized n idle rq all_fibers external_threads now =
    (if \<not> initialized \<or> reported d \<or> n \<le> 0 then (d, False)
     else if idle < n \<or> 0 < rq then (d\<lparr>first_seen := 0\<rparr>, False)
     else (let c = sched_v2_classify_parked_fibers all_fibers in
       if internal_parked c = 0 then (d\<lparr>first_seen := 0\<rparr>, False)
       else if 0 < external_parked c + external_threads \<and> saw_only_open_recv c
       then (d\<lparr>first_seen := 0\<rparr>, False)
       else if first_seen d = 0 then (d\<lparr>first_seen := now\<rparr>, False)
       else if now - first_seen d < SCHED_V2_DEADLOCK_PERSIST_MS then (d, False)
       else (d\<lparr>reported := True\<rparr>, True)))"

section \<open>The ready queue implements a list\<close>

primrec qpath :: "next_ptrs \<Rightarrow> nat option \<Rightarrow> nat list \<Rightarrow> bool" where
  "qpath nxt p [] = (p = None)"
| "qpath nxt p (x # xs) = (p = Some x \<and> qpath nxt (nxt x) xs)"

definition queue_repr :: "v2_queue \<times> next_ptrs \<Rightarrow> nat list \<Rightarrow> bool" where
  "queue_repr st xs = (case st of (q, nxt) \<Rightarrow>
     qpath nxt (qhead q) xs \<and> qtail q = (if xs = [] then None else Some (last xs)) \<and>
     qcount q = length xs \<and> distinct xs)"

text \<open>What the scheduler relies on: the queue keeps the pushed fibers in order as long as no
  fiber is pushed while it is on the queue.\<close>

datatype queue_op = Push nat | Pop

fun pushes :: "queue_op list \<Rightarrow> nat list" where
  "pushes [] = []"
| "pushes (Push f # ops) = f # pushes ops"
| "pushes (Pop # ops) = pushes ops"

fun queue_exec ::
  "('q \<Rightarrow> nat \<Rightarrow> 'q \<times> nat) \<Rightarrow> ('q \<Rightarrow> 'q \<times> nat option) \<Rightarrow> 'q \<Rightarrow> queue_op list \<Rightarrow> 'q \<times> nat list" where
  "queue_exec push pop q [] = (q, [])"
| "queue_exec push pop q (Push f # ops) = queue_exec push pop (fst (push q f)) ops"
| "queue_exec push pop q (Pop # ops) = (case pop q of
     (q', Some f) \<Rightarrow> (case queue_exec push pop q' ops of (q'', out) \<Rightarrow> (q'', f # out))
   | (q', None) \<Rightarrow> queue_exec push pop q' ops)"

locale ready_queue =
  fixes empty :: 'q and push :: "'q \<Rightarrow> nat \<Rightarrow> 'q \<times> nat" and pop :: "'q \<Rightarrow> 'q \<times> nat option"
    and repr :: "'q \<Rightarrow> nat list \<Rightarrow> bool"
  assumes repr_empty: "repr empty []"
    and repr_push: "repr q xs \<Longrightarrow> f \<notin> set xs \<Longrightarrow> repr (fst (push q f)) (xs @ [f]) \<and> snd (push q f) = length xs"
    and repr_pop_nil: "repr q [] \<Longrightarrow> pop q = (q, None)"
    and repr_pop_cons: "repr q (x # xs) \<Longrightarrow> repr (fst (pop q)) xs \<and> snd (pop q) = Some x"
begin

lemma exec_fifo:
  assumes "repr q xs" "distinct (xs @ pushes ops)"
  shows "\<exists>ys. repr (fst (queue_exec push pop q ops)) ys \<and>
    snd (queue_exec push pop q ops) @ ys = xs @ pushes ops"
  using assms
proof (induction ops arbitrary: q xs rule: pushes.induct)
  case 1
  then show ?case by auto
next
  case (2 f ops)
  have "repr (fst (push q f)) (xs @ [f])" using repr_push [of q xs f] 2(2,3) by simp
  then show ?case using 2(1) [of "fst (push q f)" "xs @ [f]"] 2(3) by simp
next
  case (3 ops)
  show ?case
  proof (cases xs)
    case Nil
    then show ?thesis using 3(1) [of q "[]"] 3(2,3) repr_pop_nil [of q] by simp
  next
    case (Cons x ys)
    then obtain q' where q': "pop q = (q', Some x)" "repr q' ys"
      using repr_pop_cons [of q x ys] 3(2) by (cases "pop q") auto
    then show ?thesis
      using 3(1) [OF q'(2)] 3(3) Cons by (auto split: prod.splits)
  qed
qed

end

lemma qpath_update: "x \<notin> set xs \<Longrightarrow> qpath (nxt(x := v)) p xs = qpath nxt p xs"
  by (induction xs arbitrary: p) auto

lemma qpath_append:
  "qpath nxt p (xs @ [l]) \<Longrightarrow> distinct (xs @ [l]) \<Longrightarrow> f \<notin> set (xs @ [l]) \<Longrightarrow>
   qpath (nxt(f := None, l := Some f)) p (xs @ [l, f])"
  by (induction xs arbitrary: p) auto

lemma push_repr:
  assumes "queue_repr st xs" "f \<notin> set xs"
  shows "queue_repr (fst (v2_queue_push st f)) (xs @ [f]) \<and> snd (v2_queue_push st f) = length xs"
proof (cases xs rule: rev_cases)
  case Nil
  then show ?thesis using assms by (auto simp: queue_repr_def v2_queue_push_def split: prod.splits)
next
  case (snoc ys l)
  then show ?thesis
    using assms qpath_append [of _ _ ys l f]
    by (cases st) (auto simp: queue_repr_def v2_queue_push_def)
qed

lemma pop_repr:
  assumes "queue_repr st (x # xs)"
  shows "queue_repr (fst (v2_queue_pop st)) xs \<and> snd (v2_queue_pop st) = Some x"
  using assms
  by (cases st; cases xs) (auto simp: queue_repr_def v2_queue_pop_def Let_def qpath_update)

interpretation v2q: ready_queue "(v2_queue_init, \<lambda>_. None)" v2_queue_push v2_queue_pop queue_repr
  using push_repr pop_repr
  by unfold_locales (auto simp: queue_repr_def v2_queue_init_def v2_queue_pop_def)



section \<open>The free list under concurrent allocation\<close>

text \<open>The pop of the free list has no protection against a fiber being popped and pushed back
  while another thread is between reading its successor and the
  compare-and-swap: three threads can drive the pool into a state where two of
  them own the same fiber.\<close>

theorem free_list_double_allocation:
  "let s = foldl pool_step
      \<lparr>free_list = Some 1, fnext = (\<lambda>_. None)(1 := Some 2), pool_pcs = (\<lambda>_. P_Idle), fresh = 3\<rparr>
      [Alloc 0, Pool 0,
       Alloc 1, Pool 1, Pool 1, Alloc 2, Pool 2, Pool 2, Free 1, Pool 1,
       Pool 0, Alloc 1, Pool 1, Pool 1]
   in pool_pcs s 1 = A_Got 2 \<and> pool_pcs s 2 = A_Got 2"
  by code_simp

section \<open>The join handshake\<close>

definition join_inv :: "join_sys \<Rightarrow> bool" where
  "join_inv s =
    ((fdone s \<longleftrightarrow> completer s 0 \<noteq> C_Run) \<and>
     (join_waiter s = None \<or> join_waiter s = Some 0) \<and>
     (joiner s 0 = J_Parked \<longrightarrow> join_waiter s = Some 0 \<and> completer s 0 \<noteq> C_End) \<and>
     (joiner s 0 = J_Check \<longrightarrow> join_waiter s = Some 0 \<or> fdone s))"

lemma join_step_inv:
  assumes "join_inv s" "ev \<in> {Complete 0, Join 0, Joining 0}"
  shows "join_inv (join_step s ev)"
proof -
  from assms(2) consider "ev = Complete 0" | "ev = Join 0" | "ev = Joining 0" by auto
  then show ?thesis
  proof cases
    case 1
    then show ?thesis
      using assms(1) by (cases "completer s 0"; cases "join_waiter s") (auto simp: join_inv_def)
  next
    case 2
    then show ?thesis using assms(1) by (auto simp: join_inv_def)
  next
    case 3
    then show ?thesis using assms(1) by (cases "joiner s 0") (auto simp: join_inv_def)
  qed
qed

lemma join_run_inv:
  "set evs \<subseteq> {Complete 0, Join 0, Joining 0} \<Longrightarrow> join_inv (foldl join_step join_init evs)"
proof (induction evs rule: rev_induct)
  case Nil
  then show ?case by (simp add: join_inv_def join_init_def)
next
  case (snoc ev evs)
  then show ?case using join_step_inv [of "foldl join_step join_init evs" ev] by simp
qed

text \<open>C19: For a fiber that is not reused, the joiner never sleeps for good: in every interleaving of
  the completing worker and the joining fiber, once the worker has finished its
  completion sequence the joiner is not parked.\<close>

theorem join_wakeup_not_lost:
  assumes "set evs \<subseteq> {Complete 0, Join 0, Joining 0}"
    and "completer (foldl join_step join_init evs) 0 = C_End"
  shows "joiner (foldl join_step join_init evs) 0 \<noteq> J_Parked"
  using join_run_inv [OF assms(1)] assms(2) by (auto simp: join_inv_def)

theorem join_wakeup_not_lost_witness:
  "joiner (foldl join_step join_init [Join 0, Joining 0, Joining 0, Joining 0, Complete 0, Complete 0]) 0
     \<noteq> J_Parked"
proof (rule join_wakeup_not_lost)
  show "completer (foldl join_step join_init
      [Join 0, Joining 0, Joining 0, Joining 0, Complete 0, Complete 0]) 0 = C_End"
    by code_simp
qed simp

text \<open>When the fiber is released and reused before the completing worker has taken the waiter,
  the worker of the previous use takes the waiter of the new one: the new
  joiner stays parked although its fiber is done and both workers have finished.\<close>

theorem join_wakeup_lost_on_reuse:
  "let s = foldl join_step join_init
      [Complete 0, Join 0, Joining 0, Recycle, Join 1, Joining 1, Joining 1, Joining 1,
       Complete 0, Joining 1, Complete 1, Complete 1]
   in joiner s 0 = J_Finished \<and> joiner s 1 = J_Parked \<and> fdone s \<and>
      completer s 0 = C_End \<and> completer s 1 = C_End"
  by code_simp

section \<open>Tickets, scopes and deadlines\<close>

text \<open>Publishing a wait ticket returns the one ticket that matches from then on; the ticket
  that matched before becomes stale.\<close>

theorem wait_ticket_fresh:
  "sched_v2_fiber_publish_wait_ticket m = (m', t) \<Longrightarrow>
   sched_v2_fiber_wait_ticket_matches m' u = (u = t) \<and>
   (sched_v2_fiber_wait_ticket_matches m u \<longrightarrow> \<not> sched_v2_fiber_wait_ticket_matches m' u)"
  by (auto simp: sched_v2_fiber_publish_wait_ticket_def sched_v2_fiber_wait_ticket_matches_def)

definition demo_meta :: fiber_meta where
  "demo_meta = \<lparr>wait_ticket = 41, has_park_deadline = False, park_deadline = (0, 0),
     deadlock_suppress_depth = 0, external_wait_depth = 0, open_chan_recv_wait = False\<rparr>"

theorem wait_ticket_fresh_witness:
  "sched_v2_fiber_wait_ticket_matches (fst (sched_v2_fiber_publish_wait_ticket demo_meta)) 42 \<and>
   \<not> sched_v2_fiber_wait_ticket_matches (fst (sched_v2_fiber_publish_wait_ticket demo_meta)) 41"
  using wait_ticket_fresh [of demo_meta "demo_meta\<lparr>wait_ticket := 42\<rparr>" 42]
  by (simp add: sched_v2_fiber_publish_wait_ticket_def demo_meta_def)

lemma inc_dec_depth: "d < - 1 \<Longrightarrow> dec_depth (inc_depth d) = d"
proof -
  assume "d < - 1"
  then have "d + 1 \<noteq> 0" by (metis eq_neg_iff_add_eq_0 less_irrefl)
  then show ?thesis using \<open>d < - 1\<close> by (simp add: inc_depth_def dec_depth_def word_neq_0_conv)
qed

text \<open>Leaving a deadlock-suppression or external-wait scope restores the depth the matching
  enter found, as long as the 32-bit depth is not saturated.\<close>

theorem scope_depth_balanced:
  assumes "deadlock_suppress_depth m < - 1" "external_wait_depth m < - 1"
  shows "sched_v2_fiber_dec_deadlock_suppress (sched_v2_fiber_inc_deadlock_suppress m) = m \<and>
    sched_v2_fiber_dec_external_wait (sched_v2_fiber_inc_external_wait m) = m"
  using assms
  by (simp add: sched_v2_fiber_dec_deadlock_suppress_def sched_v2_fiber_inc_deadlock_suppress_def
      sched_v2_fiber_dec_external_wait_def sched_v2_fiber_inc_external_wait_def inc_dec_depth)

theorem scope_depth_balanced_witness:
  "sched_v2_fiber_dec_external_wait (sched_v2_fiber_inc_external_wait demo_meta) = demo_meta"
proof -
  have "deadlock_suppress_depth demo_meta < - 1" "external_wait_depth demo_meta < - 1" by code_simp+
  then show ?thesis using scope_depth_balanced [of demo_meta] by blast
qed

text \<open>The fibers whose deadline flag is set.\<close>

definition deadline_set :: "(nat \<Rightarrow> fiber_meta) \<Rightarrow> nat set \<Rightarrow> nat set" where
  "deadline_set ms fs = {f \<in> fs. has_park_deadline (ms f)}"

text \<open>The global counter of published park deadlines stays equal to the number of fibers with
  the deadline flag set, also under repeated sets and clears, so the monitor
  skips its walk only when no fiber waits with a deadline.\<close>

theorem park_deadline_count:
  assumes "finite fs" "f \<in> fs" "g = card (deadline_set ms fs)"
  shows "snd (sched_v2_fiber_set_park_deadline (ms f) g d) =
      card (deadline_set (ms(f := fst (sched_v2_fiber_set_park_deadline (ms f) g d))) fs) \<and>
    snd (sched_v2_fiber_clear_park_deadline (ms f) g) =
      card (deadline_set (ms(f := fst (sched_v2_fiber_clear_park_deadline (ms f) g))) fs)"
proof -
  have fin: "finite (deadline_set ms fs)" using assms(1) by (simp add: deadline_set_def)
  have "deadline_set (ms(f := fst (sched_v2_fiber_set_park_deadline (ms f) g d))) fs =
      insert f (deadline_set ms fs)"
    using assms(2) by (auto simp: deadline_set_def sched_v2_fiber_set_park_deadline_def)
  moreover have "deadline_set (ms(f := fst (sched_v2_fiber_clear_park_deadline (ms f) g))) fs =
      deadline_set ms fs - {f}"
    by (auto simp: deadline_set_def sched_v2_fiber_clear_park_deadline_def)
  moreover have "f \<in> deadline_set ms fs \<longleftrightarrow> has_park_deadline (ms f)"
    using assms(2) by (simp add: deadline_set_def)
  ultimately show ?thesis
    using assms(3) fin
    by (auto simp: sched_v2_fiber_set_park_deadline_def sched_v2_fiber_clear_park_deadline_def
        insert_absorb card_Diff_singleton_if)
qed

theorem park_deadline_count_witness:
  "snd (sched_v2_fiber_set_park_deadline demo_meta 0 (5, 0)) = 1"
proof -
  have "card (deadline_set (\<lambda>_. demo_meta) {3}) = 0" by (simp add: deadline_set_def demo_meta_def)
  then show ?thesis
    using park_deadline_count [of "{3}" 3 0 "\<lambda>_. demo_meta" "(5, 0)"]
    by (simp add: sched_v2_fiber_set_park_deadline_def demo_meta_def)
qed

section \<open>Verdicts of the deadlock detector\<close>

definition internal_park :: "nat \<times> fiber_meta \<Rightarrow> bool" where
  "internal_park fm = (fiber_v2_state_base (fst fm) = FIBER_V2_PARKED \<and>
     external_wait_depth (snd fm) = 0 \<and> deadlock_suppress_depth (snd fm) = 0)"

lemma classify_foldl:
  "internal_parked (foldl classify_one c fs) = internal_parked c + length (filter internal_park fs) \<and>
   saw_only_open_recv (foldl classify_one c fs) =
     (saw_only_open_recv c \<and> (\<forall>fm \<in> set fs. internal_park fm \<longrightarrow> open_chan_recv_wait (snd fm)))"
  by (induction fs arbitrary: c)
    (auto simp: classify_one_def internal_park_def Let_def word_neq_0_conv split: prod.splits)



text \<open>The monitor signals exactly the parked fibers of the list whose published deadline has
  passed, provided the published-deadline counter is not zero.\<close>

theorem expired_parkers_exact:
  assumes "0 < g"
  shows "f \<in> set (sched_v2_wake_expired_parkers g now fs) \<longleftrightarrow>
    (\<exists>raw m. (f, raw, m) \<in> set fs \<and> has_park_deadline m \<and>
       fiber_v2_state_base raw = FIBER_V2_PARKED \<and> \<not> deadline_pending now (park_deadline m))"
  using assms by (force simp: sched_v2_wake_expired_parkers_def)

theorem expired_parkers_exact_witness:
  "4 \<in> set (sched_v2_wake_expired_parkers 1 (9, 0)
     [(4, 3, demo_meta\<lparr>has_park_deadline := True, park_deadline := (8, 5)\<rparr>)])"
  using expired_parkers_exact [of 1 4 "(9, 0)"
      "[(4, 3, demo_meta\<lparr>has_park_deadline := True, park_deadline := (8, 5)\<rparr>)]"]
  by (simp add: deadline_pending_def sched_simps demo_meta_def)

end
