(* ===== verification/Wait_List.thy ===== *)
theory Wait_List
  imports CC_Prelude
begin

text \<open>
  The doubly linked waiter queues of a channel (channel.c:
  \<^verbatim>\<open>cc__chan_add_waiter\<close>, \<^verbatim>\<open>cc__chan_remove_waiter_list\<close> and the inline removal of the
  head).  Wait nodes live on the stacks of their fibers; here they are numbers,
  their links are maps, and the queue is its head and tail pointer.  The three
  operations are shown to be append, removal and tail of a list, which is how
  theory Channel uses them.
\<close>

section \<open>Nodes and queues\<close>

record waitq =
  whead :: "nat option"
  wtail :: "nat option"
  wnext :: "nat \<Rightarrow> nat option"
  wprev :: "nat \<Rightarrow> nat option"
  in_list :: "nat \<Rightarrow> bool"

definition waitq_empty :: waitq where
  "waitq_empty = \<lparr>whead = None, wtail = None, wnext = (\<lambda>_. None), wprev = (\<lambda>_. None),
     in_list = (\<lambda>_. False)\<rparr>"

definition cc__chan_add_waiter :: "waitq \<Rightarrow> nat \<Rightarrow> waitq" where
  "cc__chan_add_waiter q n =
    (let q = q\<lparr>wnext := (wnext q)(n := None), wprev := (wprev q)(n := wtail q)\<rparr>;
         q = (case wtail q of
                Some t \<Rightarrow> q\<lparr>wnext := (wnext q)(t := Some n)\<rparr>
              | None \<Rightarrow> q\<lparr>whead := Some n\<rparr>)
     in q\<lparr>wtail := Some n, in_list := (in_list q)(n := True)\<rparr>)"

definition cc__chan_remove_waiter_list :: "waitq \<Rightarrow> nat \<Rightarrow> waitq" where
  "cc__chan_remove_waiter_list q n =
    (let q1 = (case wprev q n of
                 Some p \<Rightarrow> q\<lparr>wnext := (wnext q)(p := wnext q n)\<rparr>
               | None \<Rightarrow> q\<lparr>whead := wnext q n\<rparr>);
         q2 = (case wnext q1 n of
                 Some x \<Rightarrow> q1\<lparr>wprev := (wprev q1)(x := wprev q1 n)\<rparr>
               | None \<Rightarrow> q1\<lparr>wtail := wprev q1 n\<rparr>)
     in q2\<lparr>wnext := (wnext q2)(n := None), wprev := (wprev q2)(n := None),
           in_list := (in_list q2)(n := False)\<rparr>)"

text \<open>The removal of the head node that the pop and wake loops inline.\<close>

definition unlink_head :: "waitq \<Rightarrow> waitq \<times> nat option" where
  "unlink_head q = (case whead q of
      None \<Rightarrow> (q, None)
    | Some n \<Rightarrow>
        (let q = q\<lparr>whead := wnext q n\<rparr>;
             q = (case whead q of
                    Some h \<Rightarrow> q\<lparr>wprev := (wprev q)(h := None)\<rparr>
                  | None \<Rightarrow> q\<lparr>wtail := None\<rparr>)
         in (q\<lparr>wnext := (wnext q)(n := None), wprev := (wprev q)(n := None),
               in_list := (in_list q)(n := False)\<rparr>, Some n)))"

section \<open>What a queue represents\<close>

text \<open>A segment of linked nodes: entered at p, left at q, the node before it is a, the last one z.\<close>

fun segment :: "waitq \<Rightarrow> nat option \<Rightarrow> nat option \<Rightarrow> nat list \<Rightarrow> nat option \<Rightarrow> nat option \<Rightarrow> bool" where
  "segment q p a [] e z = (p = e \<and> a = z)"
| "segment q p a (x # xs) e z = (p = Some x \<and> wprev q x = a \<and> segment q (wnext q x) (Some x) xs e z)"

definition waitq_repr :: "waitq \<Rightarrow> nat list \<Rightarrow> bool" where
  "waitq_repr q xs = (segment q (whead q) None xs None (wtail q) \<and> distinct xs \<and>
     (\<forall>x. in_list q x \<longleftrightarrow> x \<in> set xs))"

lemma segment_append:
  "segment q p a (xs @ ys) e z = (\<exists>m b. segment q p a xs m b \<and> segment q m b ys e z)"
  by (induction xs arbitrary: p a) auto

lemma segment_frame:
  assumes "\<And>x. x \<in> set xs \<Longrightarrow> wnext q' x = wnext q x \<and> wprev q' x = wprev q x"
  shows "segment q' p a xs e z = segment q p a xs e z"
  using assms by (induction xs arbitrary: p a) auto

lemma segment_last:
  "segment q p a xs e z \<Longrightarrow> z = (if xs = [] then a else Some (last xs))"
  by (induction xs arbitrary: p a) auto

lemma segment_last_next:
  "segment q p a (xs @ [l]) e z \<Longrightarrow> wnext q l = e"
  by (auto simp: segment_append)

section \<open>The operations\<close>

lemma add_repr:
  assumes "waitq_repr q xs" "n \<notin> set xs"
  shows "waitq_repr (cc__chan_add_waiter q n) (xs @ [n])"
proof (cases xs rule: rev_cases)
  case Nil
  then show ?thesis using assms by (auto simp: waitq_repr_def cc__chan_add_waiter_def Let_def)
next
  case (snoc ys l)
  have seg: "segment q (whead q) None (ys @ [l]) None (wtail q)" using assms snoc by (simp add: waitq_repr_def)
  have t: "wtail q = Some l" using segment_last [OF seg] by simp
  have ne: "l \<noteq> n" "n \<notin> set ys" "l \<notin> set ys" using assms snoc by (auto simp: waitq_repr_def)
  let ?q = "cc__chan_add_waiter q n"
  have nx: "wnext ?q = (wnext q)(n := None, l := Some n)" and pv: "wprev ?q = (wprev q)(n := Some l)"
    and hd: "whead ?q = whead q" "wtail ?q = Some n" "in_list ?q = (in_list q)(n := True)"
    by (simp_all add: cc__chan_add_waiter_def Let_def t)
  have fr: "segment ?q p a ys e z = segment q p a ys e z" for p a e z
    by (rule segment_frame) (use ne in \<open>auto simp: nx pv\<close>)
  have "segment ?q (whead q) None (ys @ [l, n]) None (Some n)"
    using seg ne by (auto simp: segment_append fr nx pv)
  then show ?thesis using assms snoc hd by (auto simp: waitq_repr_def)
qed

lemma remove_repr:
  assumes "waitq_repr q (ys @ n # zs)"
  shows "waitq_repr (cc__chan_remove_waiter_list q n) (ys @ zs)"
proof -
  let ?q = "cc__chan_remove_waiter_list q n"
  have seg: "segment q (whead q) None (ys @ n # zs) None (wtail q)" and d: "distinct (ys @ n # zs)"
    and il: "\<And>x. in_list q x \<longleftrightarrow> x \<in> set (ys @ n # zs)"
    using assms by (auto simp: waitq_repr_def)
  obtain b where s1: "segment q (whead q) None ys (Some n) b" and pb: "wprev q n = b"
    and s2: "segment q (wnext q n) (Some n) zs None (wtail q)"
    using seg by (auto simp: segment_append)
  have b: "b = (if ys = [] then None else Some (last ys))" using segment_last [OF s1] by simp
  have nx: "wnext q n = (case zs of [] \<Rightarrow> None | z # _ \<Rightarrow> Some z)" using s2 by (cases zs) auto
  have hd: "whead ?q = (if ys = [] then wnext q n else whead q)"
    and tl: "wtail ?q = (if zs = [] then b else wtail q)"
    and il': "in_list ?q = (in_list q)(n := False)"
    using nx b pb by (auto simp: cc__chan_remove_waiter_list_def Let_def split: list.splits option.splits)
  have wn: "wnext ?q x = (if x = n then None else if b = Some x then wnext q n else wnext q x)"
    and wp: "wprev ?q x = (if x = n then None else if wnext q n = Some x then b else wprev q x)" for x
    using pb d b nx
    by (auto simp: cc__chan_remove_waiter_list_def Let_def split: list.splits option.splits)
  have ly: "last ys \<notin> set zs" if "ys \<noteq> []" using d last_in_set [OF that] by auto
  have fz: "segment ?q p a zs' e z = segment q p a zs' e z" if "zs = x # zs'" for x zs' p a e z
    by (rule segment_frame) (use that d b nx ly in \<open>auto simp: wn wp split: if_splits\<close>)
  have zs: "segment ?q (wnext q n) b zs None (wtail ?q)"
  proof (cases zs)
    case Nil
    then show ?thesis using nx tl by simp
  next
    case (Cons z zs')
    have "b \<noteq> Some z" "z \<noteq> n" using d b Cons by auto
    then show ?thesis using s2 fz [OF Cons] nx Cons tl by (auto simp: wn wp)
  qed
  show ?thesis
  proof (cases ys rule: rev_cases)
    case Nil
    then show ?thesis using zs hd il il' b d by (auto simp: waitq_repr_def)
  next
    case (snoc ys' l)
    have bl: "b = Some l" using b snoc by simp
    have fy: "segment ?q p a ys' e z = segment q p a ys' e z" for p a e z
      by (rule segment_frame) (use d bl nx snoc in \<open>auto simp: wn wp split: list.splits\<close>)
    have "wprev ?q l = wprev q l" "wnext ?q l = wnext q n"
      using d bl nx snoc by (auto simp: wn wp split: list.splits)
    then have "segment ?q (whead q) None ys (wnext q n) b"
      using s1 fy bl by (auto simp: snoc segment_append)
    then show ?thesis using zs hd il il' d snoc by (auto simp: waitq_repr_def segment_append)
  qed
qed

lemma unlink_head_eq:
  assumes "waitq_repr q (n # zs)"
  shows "unlink_head q = (cc__chan_remove_waiter_list q n, Some n)"
proof -
  have "whead q = Some n" "wprev q n = None" "segment q (wnext q n) (Some n) zs None (wtail q)"
    "n \<notin> set zs"
    using assms by (auto simp: waitq_repr_def)
  then show ?thesis
    by (cases zs)
      (auto simp: unlink_head_def cc__chan_remove_waiter_list_def Let_def split: option.splits)
qed

section \<open>The contract of a waiter queue\<close>

locale waiter_queue =
  fixes add :: "'q \<Rightarrow> nat \<Rightarrow> 'q" and rem :: "'q \<Rightarrow> nat \<Rightarrow> 'q" and take_head :: "'q \<Rightarrow> 'q \<times> nat option"
    and empty :: 'q and repr :: "'q \<Rightarrow> nat list \<Rightarrow> bool"
  assumes repr_empty: "repr empty []"
    and repr_add: "repr q xs \<Longrightarrow> n \<notin> set xs \<Longrightarrow> repr (add q n) (xs @ [n])"
    and repr_remove: "repr q xs \<Longrightarrow> n \<in> set xs \<Longrightarrow> repr (rem q n) (remove1 n xs)"
    and repr_head: "repr q (n # xs) \<Longrightarrow> repr (fst (take_head q)) xs \<and> snd (take_head q) = Some n"
    and repr_head_empty: "repr q [] \<Longrightarrow> take_head q = (q, None)"
begin

lemma add_all: "repr q xs \<Longrightarrow> distinct (xs @ ns) \<Longrightarrow> repr (foldl add q ns) (xs @ ns)"
proof (induction ns arbitrary: q xs)
  case (Cons n ns)
  have "repr (add q n) (xs @ [n])" using repr_add [of q xs n] Cons.prems by simp
  then show ?case using Cons.IH [of "add q n" "xs @ [n]"] Cons.prems by simp
qed simp

lemma cancel_middle:
  "distinct ns \<Longrightarrow> n \<in> set ns \<Longrightarrow> repr (rem (foldl add empty ns) n) (remove1 n ns)"
  using add_all [OF repr_empty, of ns] repr_remove [of _ ns n] by simp

end

interpretation wq: waiter_queue cc__chan_add_waiter cc__chan_remove_waiter_list unlink_head
  waitq_empty waitq_repr
proof (unfold_locales, goal_cases)
  case 1
  show ?case by (simp add: waitq_repr_def waitq_empty_def)
next
  case (2 q xs n)
  then show ?case by (rule add_repr)
next
  case (3 q xs n)
  then obtain ys zs where "xs = ys @ n # zs" "n \<notin> set ys" by (metis split_list_first)
  then show ?case using remove_repr [of q ys n zs] 3(1) by (simp add: remove1_append)
next
  case (4 q n xs)
  then show ?case using unlink_head_eq remove_repr [of q "[]" n xs] by simp
next
  case (5 q)
  then show ?case by (simp add: waitq_repr_def unlink_head_def)
qed

text \<open>C21: Linking any sequence of distinct waiters and then unlinking one of them, wherever it
  stands, leaves a queue whose forward and backward links, head, tail and
  membership flags represent exactly the remaining waiters in arrival order.\<close>

theorem waiter_cancel_keeps_order:
  assumes "distinct ns" "n \<in> set ns"
  shows "waitq_repr (cc__chan_remove_waiter_list (foldl cc__chan_add_waiter waitq_empty ns) n) (remove1 n ns)"
  using wq.cancel_middle [OF assms] .

theorem waiter_cancel_keeps_order_witness:
  "waitq_repr (cc__chan_remove_waiter_list (foldl cc__chan_add_waiter waitq_empty [5, 3, 8]) 3) [5, 8]"
  using waiter_cancel_keeps_order [of "[5, 3, 8]" 3] by simp

end
