(* ===== verification/Channel.thy ===== *)
theory Channel
  imports Ring_Queue Wait_List
begin

text \<open>
  Channels (channel.c): wait nodes and select groups, the two waiter queues with
  their counters, the close family, the mutex-protected ring buffer, the
  non-blocking operations over both buffers, the rendezvous of unbuffered
  channels and the non-blocking match.  Every definition is one critical
  section or one lock-free access sequence of the code; the wake batch is
  appended to the list of woken fibers when the code adds to it, since every
  caller flushes it before it returns.  Waiter queues are lists, justified by
  theory Wait_List.
\<close>

section \<open>Data\<close>

datatype notify = NOTIFY_NONE | NOTIFY_DATA | NOTIFY_CANCEL | NOTIFY_CLOSE | NOTIFY_SIGNAL

datatype chan_mode = MODE_BLOCK | MODE_DROP_NEW | MODE_DROP_OLD

datatype topology = TOPO_DEFAULT | TOPO_1_1 | TOPO_1_N | TOPO_N_1 | TOPO_N_N

datatype io_kind = IO_PERMISSION_DENIED | IO_FILE_NOT_FOUND | IO_INVALID_ARGUMENT | IO_INTERRUPTED
  | IO_OUT_OF_MEMORY | IO_BUSY | IO_CONNECTION_CLOSED | IO_CANCELLED | IO_OTHER

record io_error =
  io_kind :: io_kind
  os_code :: errno

record wait_node =
  nfiber :: "nat option"
  nticket :: u64
  ndata :: bytes
  notified :: notify
  select_group :: "nat option"
  select_index :: nat
  is_select :: bool
  in_wait_list :: bool

text \<open>What channel operations touch outside the channel: the wait nodes, the tickets of the
  fibers, the select groups, the fibers woken so far and the signals sent to
  condition variables and sockets.\<close>

record world =
  node :: "nat \<Rightarrow> wait_node"
  ticket :: "nat \<Rightarrow> u64"
  sel_signaled :: "nat \<Rightarrow> nat"
  sel_index :: "nat \<Rightarrow> int"
  woken :: "nat list"
  sig_not_empty :: nat
  sig_not_full :: nat
  recv_pokes :: nat

record chan = ring +
  buf_ready :: bool
  count :: nat
  head :: nat
  tail :: nat
  closed :: bool
  fast_path_ok :: bool
  tx_error_code :: errno
  rx_error_closed :: bool
  rx_error_code :: errno
  tx_io_error :: "io_error option"
  rx_io_error :: "io_error option"
  mode :: chan_mode
  allow_take :: bool
  is_sync :: bool
  topology :: topology
  rv_has_value :: bool
  rv_recv_waiters :: int
  is_ordered :: bool
  is_owned :: bool
  autoclose_owner :: "nat option"
  warned_autoclose :: bool
  send_waiters :: "nat list"
  recv_waiters :: "nat list"
  recv_signal_hint :: "nat option"
  has_send_waiters :: bool
  has_recv_waiters :: int
  recv_wake_inflight :: int
  thread_recv_waiters :: int
  use_lockfree :: bool
  recv_signal :: bool

section \<open>Creation\<close>

text \<open>The second argument says whether the environment variable disables the lock-free buffer;
  the allocations succeed.\<close>

definition cc_chan_create_internal ::
  "nat \<Rightarrow> bool \<Rightarrow> chan_mode \<Rightarrow> bool \<Rightarrow> bool \<Rightarrow> topology \<Rightarrow> chan" where
  "cc_chan_create_internal capacity no_lockfree md tk sync topo =
    (let lf = 1 < capacity \<and> \<not> no_lockfree in
    \<lparr>cap = capacity, elem_size = 0, buf = (\<lambda>_. []),
     lfqueue_cap = (if lf then next_power_of_2 (of_nat capacity) else 0),
     ring_head = 0, ring_tail = 0, cell_seq = (\<lambda>i. of_nat i), cell_value = (\<lambda>_. 0),
     buf_ready = False, count = 0, head = 0, tail = 0, closed = False, fast_path_ok = False,
     tx_error_code = 0, rx_error_closed = False, rx_error_code = 0, tx_io_error = None,
     rx_io_error = None, mode = md, allow_take = tk, is_sync = sync, topology = topo,
     rv_has_value = False, rv_recv_waiters = 0, is_ordered = False, is_owned = False, autoclose_owner = None,
     warned_autoclose = False, send_waiters = [], recv_waiters = [], recv_signal_hint = None,
     has_send_waiters = False, has_recv_waiters = 0, recv_wake_inflight = 0,
     thread_recv_waiters = 0, use_lockfree = lf, recv_signal = False\<rparr>)"

definition cc_chan_create :: "nat \<Rightarrow> bool \<Rightarrow> chan" where
  "cc_chan_create capacity no_lf = cc_chan_create_internal capacity no_lf MODE_BLOCK True False TOPO_DEFAULT"

definition cc_chan_create_mode :: "nat \<Rightarrow> bool \<Rightarrow> chan_mode \<Rightarrow> chan" where
  "cc_chan_create_mode capacity no_lf md = cc_chan_create_internal capacity no_lf md True False TOPO_DEFAULT"

definition cc_chan_create_mode_take :: "nat \<Rightarrow> bool \<Rightarrow> chan_mode \<Rightarrow> bool \<Rightarrow> chan" where
  "cc_chan_create_mode_take capacity no_lf md tk = cc_chan_create_internal capacity no_lf md tk False TOPO_DEFAULT"

definition cc_chan_create_sync :: "nat \<Rightarrow> bool \<Rightarrow> chan_mode \<Rightarrow> bool \<Rightarrow> chan" where
  "cc_chan_create_sync capacity no_lf md tk = cc_chan_create_internal capacity no_lf md tk True TOPO_DEFAULT"

text \<open>The flag tells whether the buffer allocation succeeds; the minimal path is enabled.\<close>

definition cc_chan_ensure_buf :: "bool \<Rightarrow> chan \<Rightarrow> nat \<Rightarrow> chan \<times> errno" where
  "cc_chan_ensure_buf mem ch es =
    (if elem_size ch = 0 then
       (if \<not> mem then (ch\<lparr>elem_size := es\<rparr>, ENOMEM)
        else (ch\<lparr>elem_size := es, buf_ready := True,
                fast_path_ok := use_lockfree ch \<and> 0 < cap ch \<and> \<not> is_owned ch \<and> \<not> is_ordered ch \<and>
                  \<not> is_sync ch\<rparr>, 0))
     else if elem_size ch \<noteq> es then (ch, EINVAL)
     else (ch, 0))"

definition cc_chan_init_elem :: "bool \<Rightarrow> chan \<Rightarrow> nat \<Rightarrow> chan \<times> errno" where
  "cc_chan_init_elem mem ch es = (if es = 0 then (ch, EINVAL) else cc_chan_ensure_buf mem ch es)"

section \<open>Wait nodes and select groups\<close>

definition set_notified :: "world \<Rightarrow> nat \<Rightarrow> notify \<Rightarrow> world" where
  "set_notified w n k = w\<lparr>node := (node w)(n := (node w n)\<lparr>notified := k\<rparr>)\<rparr>"

definition set_linked :: "world \<Rightarrow> nat \<Rightarrow> bool \<Rightarrow> world" where
  "set_linked w n b = w\<lparr>node := (node w)(n := (node w n)\<lparr>in_wait_list := b\<rparr>)\<rparr>"

definition cc__chan_waiter_ticket_valid :: "world \<Rightarrow> nat \<Rightarrow> bool" where
  "cc__chan_waiter_ticket_valid w n =
    (case nfiber (node w n) of
       None \<Rightarrow> True
     | Some f \<Rightarrow> nticket (node w n) = 0 \<or> ticket w f = nticket (node w n))"

definition cc__wait_select_try_win :: "world \<Rightarrow> nat \<Rightarrow> nat \<Rightarrow> world \<times> bool" where
  "cc__wait_select_try_win w g i =
    (let sel = sel_index w g in
     if sel = int i then (w, True)
     else if sel \<noteq> - 1 then (w, False)
     else (w\<lparr>sel_index := (sel_index w)(g := int i)\<rparr>, True))"

definition cc__chan_select_try_win :: "world \<Rightarrow> nat \<Rightarrow> world \<times> bool" where
  "cc__chan_select_try_win w n =
    (let x = node w n in
     case (is_select x, select_group x) of
       (True, Some g) \<Rightarrow> cc__wait_select_try_win w g (select_index x)
     | _ \<Rightarrow> (w, True))"

definition group_signal :: "world \<Rightarrow> nat \<Rightarrow> world" where
  "group_signal w n =
    (case (is_select (node w n), select_group (node w n)) of
       (True, Some g) \<Rightarrow> w\<lparr>sel_signaled := (sel_signaled w)(g := sel_signaled w g + 1)\<rparr>
     | _ \<Rightarrow> w)"

definition wake_batch_add :: "world \<Rightarrow> nat \<Rightarrow> world" where
  "wake_batch_add w n =
    (case nfiber (node w n) of Some f \<Rightarrow> w\<lparr>woken := woken w @ [f]\<rparr> | None \<Rightarrow> w)"

text \<open>Mark a node, count the signal for its select group and wake its fiber.\<close>

definition notify_node :: "world \<Rightarrow> nat \<Rightarrow> notify \<Rightarrow> world" where
  "notify_node w n k = wake_batch_add (group_signal (set_notified w n k) n) n"

definition cc__chan_select_cancel_node :: "world \<Rightarrow> nat \<Rightarrow> world" where
  "cc__chan_select_cancel_node w n =
    (if cc__chan_waiter_ticket_valid w n then notify_node w n NOTIFY_CANCEL else w)"

section \<open>Waiter queues\<close>

text \<open>\<^verbatim>\<open>cc__chan_add_waiter\<close> besides the links: publish a ticket, mark the node linked.\<close>

definition publish_waiter :: "world \<Rightarrow> nat \<Rightarrow> world" where
  "publish_waiter w n =
    (let w = (case nfiber (node w n) of
                Some f \<Rightarrow> (if nticket (node w n) = 0
                  then w\<lparr>ticket := (ticket w)(f := ticket w f + 1),
                         node := (node w)(n := (node w n)\<lparr>nticket := ticket w f + 1\<rparr>)\<rparr>
                  else w)
              | None \<Rightarrow> w)
     in set_linked w n True)"

definition cc__chan_add_send_waiter :: "chan \<Rightarrow> world \<Rightarrow> nat \<Rightarrow> chan \<times> world" where
  "cc__chan_add_send_waiter ch w n =
    (ch\<lparr>send_waiters := send_waiters ch @ [n], has_send_waiters := True\<rparr>, publish_waiter w n)"

text \<open>The decrement of the waiter counters, which stops at zero.\<close>

definition counter_dec :: "int \<Rightarrow> int" where
  "counter_dec old = (if old \<le> 1 then 0 else old - 1)"

definition cc__chan_recv_waiter_rearm :: "chan \<Rightarrow> world \<Rightarrow> nat \<Rightarrow> chan" where
  "cc__chan_recv_waiter_rearm ch w n =
    (if \<not> in_wait_list (node w n) then ch
     else ch\<lparr>has_recv_waiters := has_recv_waiters ch + 1,
             recv_signal_hint := (case recv_signal_hint ch of None \<Rightarrow> Some n | h \<Rightarrow> h)\<rparr>)"

definition cc__chan_recv_waiter_consume_signal :: "chan \<Rightarrow> world \<Rightarrow> nat \<Rightarrow> chan" where
  "cc__chan_recv_waiter_consume_signal ch w n =
    (if \<not> in_wait_list (node w n) then ch
     else ch\<lparr>recv_wake_inflight := counter_dec (recv_wake_inflight ch)\<rparr>)"

definition cc__chan_add_recv_waiter :: "chan \<Rightarrow> world \<Rightarrow> nat \<Rightarrow> chan \<times> world" where
  "cc__chan_add_recv_waiter ch w n =
    (ch\<lparr>recv_waiters := recv_waiters ch @ [n], has_recv_waiters := has_recv_waiters ch + 1,
        recv_signal_hint := (case recv_signal_hint ch of None \<Rightarrow> Some n | h \<Rightarrow> h)\<rparr>,
     publish_waiter w n)"

text \<open>\<^verbatim>\<open>node->next\<close> of a linked node.\<close>

fun next_of :: "nat list \<Rightarrow> nat \<Rightarrow> nat option" where
  "next_of (x # y # zs) n = (if x = n then Some y else next_of (y # zs) n)"
| "next_of _ n = None"

definition first_of :: "nat list \<Rightarrow> nat option" where
  "first_of xs = (case xs of [] \<Rightarrow> None | x # _ \<Rightarrow> Some x)"

definition cc__chan_recv_signal_hint_advance :: "chan \<Rightarrow> nat \<Rightarrow> nat option \<Rightarrow> chan" where
  "cc__chan_recv_signal_hint_advance ch n nxt =
    (let h = (if recv_signal_hint ch = Some n
              then (case nxt of Some x \<Rightarrow> Some x | None \<Rightarrow> first_of (recv_waiters ch))
              else recv_signal_hint ch);
         h = (if recv_waiters ch = [] then None
              else if h = None then first_of (recv_waiters ch) else h)
     in ch\<lparr>recv_signal_hint := h\<rparr>)"

definition cc__chan_has_wakeable_waiter :: "world \<Rightarrow> nat list \<Rightarrow> bool" where
  "cc__chan_has_wakeable_waiter w ns = (\<exists>n \<in> set ns. notified (node w n) = NOTIFY_NONE)"

definition cc__chan_refresh_has_send_waiters :: "chan \<Rightarrow> world \<Rightarrow> chan" where
  "cc__chan_refresh_has_send_waiters ch w =
    ch\<lparr>has_send_waiters := cc__chan_has_wakeable_waiter w (send_waiters ch)\<rparr>"

definition cc__chan_remove_send_waiter :: "chan \<Rightarrow> world \<Rightarrow> nat \<Rightarrow> chan \<times> world" where
  "cc__chan_remove_send_waiter ch w n =
    (if \<not> in_wait_list (node w n)
     then (if send_waiters ch = [] then ch\<lparr>has_send_waiters := False\<rparr> else ch, w)
     else (let w = set_linked w n False;
               ch = ch\<lparr>send_waiters := remove1 n (send_waiters ch)\<rparr>
           in (cc__chan_refresh_has_send_waiters ch w, w)))"

definition cc__chan_remove_recv_waiter :: "chan \<Rightarrow> world \<Rightarrow> nat \<Rightarrow> chan \<times> world" where
  "cc__chan_remove_recv_waiter ch w n =
    (if \<not> in_wait_list (node w n)
     then (if recv_waiters ch = [] then ch\<lparr>has_recv_waiters := 0, recv_signal_hint := None\<rparr> else ch, w)
     else (let k = notified (node w n); nxt = next_of (recv_waiters ch) n;
               w = set_linked w n False;
               ch = ch\<lparr>recv_waiters := remove1 n (recv_waiters ch)\<rparr>;
               ch = (if k = NOTIFY_NONE then ch\<lparr>has_recv_waiters := counter_dec (has_recv_waiters ch)\<rparr>
                     else if k = NOTIFY_SIGNAL
                     then ch\<lparr>recv_wake_inflight := counter_dec (recv_wake_inflight ch)\<rparr> else ch)
           in (cc__chan_recv_signal_hint_advance ch n nxt, w)))"

text \<open>\<^verbatim>\<open>cc__chan_wake_one_send_waiter\<close>: unlink nodes from the front until one can be signalled.\<close>

fun wake_one_send_list :: "nat list \<Rightarrow> world \<Rightarrow> nat list \<times> world" where
  "wake_one_send_list [] w = ([], w)"
| "wake_one_send_list (n # ns) w =
    (case cc__chan_select_try_win (set_linked w n False) n of
       (w, False) \<Rightarrow> wake_one_send_list ns (cc__chan_select_cancel_node w n)
     | (w, True) \<Rightarrow>
         (if cc__chan_waiter_ticket_valid w n then (ns, notify_node w n NOTIFY_SIGNAL)
          else wake_one_send_list ns w))"

definition cc__chan_wake_one_send_waiter :: "chan \<Rightarrow> world \<Rightarrow> chan \<times> world" where
  "cc__chan_wake_one_send_waiter ch w =
    (if send_waiters ch = [] then (ch, w)
     else (case wake_one_send_list (send_waiters ch) w of (ns, w') \<Rightarrow>
       (cc__chan_refresh_has_send_waiters (ch\<lparr>send_waiters := ns\<rparr>) w', w')))"

text \<open>\<^verbatim>\<open>cc__chan_pop_send_waiter\<close>: drop nodes that are already notified, lost their select or are
  stale; return the first one that is truly waiting.\<close>

fun pop_send_list :: "nat list \<Rightarrow> world \<Rightarrow> nat list \<times> world \<times> nat option" where
  "pop_send_list [] w = ([], w, None)"
| "pop_send_list (n # ns) w =
    (if notified (node w n) \<noteq> NOTIFY_NONE then pop_send_list ns (set_linked w n False)
     else case cc__chan_select_try_win w n of
       (w, False) \<Rightarrow> pop_send_list ns (cc__chan_select_cancel_node (set_linked w n False) n)
     | (w, True) \<Rightarrow>
         (if cc__chan_waiter_ticket_valid w n then (ns, set_linked w n False, Some n)
          else pop_send_list ns (set_linked w n False)))"

definition cc__chan_pop_send_waiter :: "chan \<Rightarrow> world \<Rightarrow> chan \<times> world \<times> nat option" where
  "cc__chan_pop_send_waiter ch w =
    (case pop_send_list (send_waiters ch) w of (ns, w', r) \<Rightarrow> (ch\<lparr>send_waiters := ns\<rparr>, w', r))"

text \<open>Unlink the head of the receive queue, with the hint kept on the list.\<close>

definition drop_recv_head :: "chan \<Rightarrow> nat \<Rightarrow> nat list \<Rightarrow> chan" where
  "drop_recv_head ch n ns =
    cc__chan_recv_signal_hint_advance (ch\<lparr>recv_waiters := ns\<rparr>) n (first_of ns)"

definition recv_count_dec :: "chan \<Rightarrow> chan" where
  "recv_count_dec ch = ch\<lparr>has_recv_waiters := counter_dec (has_recv_waiters ch)\<rparr>"

definition recv_inflight_dec :: "chan \<Rightarrow> chan" where
  "recv_inflight_dec ch = ch\<lparr>recv_wake_inflight := counter_dec (recv_wake_inflight ch)\<rparr>"

fun pop_recv_list :: "nat list \<Rightarrow> chan \<Rightarrow> world \<Rightarrow> chan \<times> world \<times> nat option" where
  "pop_recv_list [] ch w = (ch, w, None)"
| "pop_recv_list (n # ns) ch w =
    (if notified (node w n) \<noteq> NOTIFY_NONE
     then pop_recv_list ns
       (drop_recv_head (if notified (node w n) = NOTIFY_SIGNAL then recv_inflight_dec ch else ch) n ns)
       (set_linked w n False)
     else case cc__chan_select_try_win w n of
       (w, False) \<Rightarrow> pop_recv_list ns (drop_recv_head (recv_count_dec ch) n ns)
         (cc__chan_select_cancel_node (set_linked w n False) n)
     | (w, True) \<Rightarrow>
         (if cc__chan_waiter_ticket_valid w n
          then (drop_recv_head (recv_count_dec ch) n ns, set_linked w n False, Some n)
          else pop_recv_list ns (drop_recv_head (recv_count_dec ch) n ns) (set_linked w n False)))"

definition cc__chan_pop_recv_waiter :: "chan \<Rightarrow> world \<Rightarrow> chan \<times> world \<times> nat option" where
  "cc__chan_pop_recv_waiter ch w = pop_recv_list (recv_waiters ch) ch w"

text \<open>One pass of \<^verbatim>\<open>cc__chan_signal_recv_waiters\<close> over a part of the queue.  The result carries
  the number of signals still allowed and, when that number is used up, the
  node that was signalled last.\<close>

fun signal_pass :: "nat list \<Rightarrow> nat \<Rightarrow> chan \<Rightarrow> world \<Rightarrow> chan \<times> world \<times> nat \<times> nat option" where
  "signal_pass [] budget ch w = (ch, w, budget, None)"
| "signal_pass (n # ns) budget ch w =
    (if notified (node w n) \<noteq> NOTIFY_NONE then signal_pass ns budget ch w
     else case cc__chan_select_try_win w n of
       (w, False) \<Rightarrow> signal_pass ns budget (recv_count_dec ch) (cc__chan_select_cancel_node w n)
     | (w, True) \<Rightarrow>
         (if \<not> cc__chan_waiter_ticket_valid w n then signal_pass ns budget ch w
          else (let ch = (recv_count_dec ch)\<lparr>recv_wake_inflight := recv_wake_inflight ch + 1\<rparr>;
                    w = notify_node w n NOTIFY_SIGNAL
                in if budget \<le> 1 then (ch, w, 0, Some n) else signal_pass ns (budget - 1) ch w)))"

definition cc__chan_signal_recv_waiters :: "chan \<Rightarrow> world \<Rightarrow> nat \<Rightarrow> chan \<times> world" where
  "cc__chan_signal_recv_waiters ch w max_wake =
    (if max_wake = 0 \<or> recv_waiters ch = [] then (ch, w)
     else
      (let L = recv_waiters ch;
           start = (case recv_signal_hint ch of Some h \<Rightarrow> h | None \<Rightarrow> hd L);
           finish = (\<lambda>ch lst. ch\<lparr>recv_signal_hint :=
             (case lst of
                Some n \<Rightarrow> (case next_of L n of Some x \<Rightarrow> Some x | None \<Rightarrow> first_of L)
              | None \<Rightarrow> first_of L)\<rparr>)
       in case signal_pass (dropWhile (\<lambda>x. x \<noteq> start) L) max_wake ch w of
            (ch1, w1, b, Some n) \<Rightarrow> (finish ch1 (Some n), w1)
          | (ch1, w1, b, None) \<Rightarrow>
              (if start = hd L then (finish ch1 None, w1)
               else case signal_pass (takeWhile (\<lambda>x. x \<noteq> start) L) b ch1 w1 of
                 (ch2, w2, _, lst) \<Rightarrow> (finish ch2 lst, w2))))"

definition cc__chan_signal_recv_waiter :: "chan \<Rightarrow> world \<Rightarrow> chan \<times> world" where
  "cc__chan_signal_recv_waiter ch w = cc__chan_signal_recv_waiters ch w 1"

section \<open>Closing\<close>

definition cc__chan_wake_one_recv_waiter_close :: "chan \<Rightarrow> world \<Rightarrow> chan \<times> world" where
  "cc__chan_wake_one_recv_waiter_close ch w =
    (case recv_waiters ch of
       [] \<Rightarrow> (ch, w)
     | n # ns \<Rightarrow>
         (let k = notified (node w n);
              w = set_linked w n False;
              ch = (if k = NOTIFY_NONE then recv_count_dec ch
                    else if k = NOTIFY_SIGNAL then recv_inflight_dec ch else ch);
              ch = drop_recv_head ch n ns
          in case cc__chan_select_try_win w n of
               (w, False) \<Rightarrow> (ch, cc__chan_select_cancel_node w n)
             | (w, True) \<Rightarrow>
                 (ch, if cc__chan_waiter_ticket_valid w n then notify_node w n NOTIFY_CLOSE else w)))"

definition cc__chan_wake_one_send_waiter_close :: "chan \<Rightarrow> world \<Rightarrow> chan \<times> world" where
  "cc__chan_wake_one_send_waiter_close ch w =
    (case send_waiters ch of
       [] \<Rightarrow> (ch, w)
     | n # ns \<Rightarrow>
         (let w = set_linked w n False; ch = ch\<lparr>send_waiters := ns\<rparr>
          in case cc__chan_select_try_win w n of
               (w, False) \<Rightarrow> (ch, cc__chan_select_cancel_node w n)
             | (w, True) \<Rightarrow>
                 (ch, if cc__chan_waiter_ticket_valid w n then notify_node w n NOTIFY_CLOSE else w)))"

lemma drop_recv_head_waiters [simp]: "recv_waiters (drop_recv_head ch n ns) = ns"
  by (simp add: drop_recv_head_def cc__chan_recv_signal_hint_advance_def Let_def)

function wake_all_send :: "chan \<Rightarrow> world \<Rightarrow> chan \<times> world" where
  "wake_all_send ch w =
    (if send_waiters ch = [] then (ch, w)
     else case cc__chan_wake_one_send_waiter_close ch w of (ch', w') \<Rightarrow> wake_all_send ch' w')"
  by pat_completeness auto
termination
  by (relation "measure (\<lambda>(ch, w). length (send_waiters ch))")
    (auto simp: cc__chan_wake_one_send_waiter_close_def Let_def split: list.splits prod.splits bool.splits)

function wake_all_recv :: "chan \<Rightarrow> world \<Rightarrow> chan \<times> world" where
  "wake_all_recv ch w =
    (if recv_waiters ch = [] then (ch, w)
     else case cc__chan_wake_one_recv_waiter_close ch w of (ch', w') \<Rightarrow> wake_all_recv ch' w')"
  by pat_completeness auto
termination
  by (relation "measure (\<lambda>(ch, w). length (recv_waiters ch))")
    (auto simp: cc__chan_wake_one_recv_waiter_close_def Let_def split: list.splits prod.splits bool.splits)

declare wake_all_send.simps [simp del] wake_all_recv.simps [simp del]

definition cc__chan_wake_all_waiters :: "chan \<Rightarrow> world \<Rightarrow> chan \<times> world" where
  "cc__chan_wake_all_waiters ch w = (case wake_all_send ch w of (ch, w) \<Rightarrow> wake_all_recv ch w)"

definition cc__chan_signal_recv_ready :: "chan \<Rightarrow> world \<Rightarrow> world" where
  "cc__chan_signal_recv_ready ch w = (if recv_signal ch then w\<lparr>recv_pokes := recv_pokes w + 1\<rparr> else w)"

definition cc__chan_close_common ::
  "chan \<Rightarrow> world \<Rightarrow> bool \<Rightarrow> bool \<Rightarrow> errno \<Rightarrow> errno \<Rightarrow> io_error option \<Rightarrow> chan \<times> world" where
  "cc__chan_close_common ch w close_tx close_rx tx_errno rx_errno io_err =
    (let ch = ch\<lparr>fast_path_ok := False\<rparr>;
         ch = (if close_tx
               then ch\<lparr>closed := True,
                      tx_error_code := (if tx_errno \<noteq> 0 then tx_errno else tx_error_code ch),
                      tx_io_error := (case io_err of Some e \<Rightarrow> Some e | None \<Rightarrow> tx_io_error ch)\<rparr>
               else ch);
         ch = (if close_rx
               then ch\<lparr>rx_error_closed := True,
                      rx_error_code := (if rx_errno \<noteq> 0 then rx_errno else rx_error_code ch),
                      rx_io_error := (case io_err of Some e \<Rightarrow> Some e | None \<Rightarrow> rx_io_error ch)\<rparr>
               else ch);
         w = (if close_tx then w\<lparr>sig_not_empty := sig_not_empty w + 1\<rparr> else w);
         w = w\<lparr>sig_not_full := sig_not_full w + 1\<rparr>;
         (ch, w) = (if close_tx then cc__chan_wake_all_waiters ch w else wake_all_send ch w)
     in (ch, cc__chan_signal_recv_ready ch w))"

definition cc_chan_close :: "chan \<Rightarrow> world \<Rightarrow> chan \<times> world" where
  "cc_chan_close ch w = cc__chan_close_common ch w True False 0 0 None"

definition cc_chan_close_err :: "chan \<Rightarrow> world \<Rightarrow> errno \<Rightarrow> chan \<times> world" where
  "cc_chan_close_err ch w e = cc__chan_close_common ch w True False e 0 None"

definition cc_chan_rx_close_err :: "chan \<Rightarrow> world \<Rightarrow> errno \<Rightarrow> chan \<times> world" where
  "cc_chan_rx_close_err ch w e = cc__chan_close_common ch w False True 0 e None"

definition cc_chan_close_with :: "chan \<Rightarrow> world \<Rightarrow> io_error \<Rightarrow> chan \<times> world" where
  "cc_chan_close_with ch w e =
    (let code = (if os_code e \<noteq> 0 then os_code e else ECANCELED)
     in cc__chan_close_common ch w True True code code (Some e))"

definition cc_chan_cancel :: "chan \<Rightarrow> world \<Rightarrow> chan \<times> world" where
  "cc_chan_cancel ch w = cc_chan_close_with ch w \<lparr>io_kind = IO_CANCELLED, os_code = 0\<rparr>"

definition cc__chan_get_close_error :: "chan \<Rightarrow> bool \<Rightarrow> io_error" where
  "cc__chan_get_close_error ch is_recv =
    (case (if is_recv then tx_io_error ch else rx_io_error ch) of
       Some e \<Rightarrow> e | None \<Rightarrow> \<lparr>io_kind = IO_OTHER, os_code = 0\<rparr>)"

definition cc__chan_has_close_error :: "chan \<Rightarrow> bool \<Rightarrow> bool" where
  "cc__chan_has_close_error ch is_recv =
    ((if is_recv then tx_io_error ch else rx_io_error ch) \<noteq> None)"

definition cc__chan_send_close_errno :: "chan \<Rightarrow> errno" where
  "cc__chan_send_close_errno ch =
    (if rx_error_closed ch \<and> rx_error_code ch \<noteq> 0 then rx_error_code ch else EPIPE)"

definition recv_close_errno :: "chan \<Rightarrow> errno" where
  "recv_close_errno ch = (if tx_error_code ch \<noteq> 0 then tx_error_code ch else EPIPE)"

definition cc__chan_set_autoclose_owner :: "chan \<Rightarrow> nat option \<Rightarrow> chan" where
  "cc__chan_set_autoclose_owner ch owner =
    ch\<lparr>autoclose_owner := (case autoclose_owner ch of None \<Rightarrow> owner | o' \<Rightarrow> o'),
       warned_autoclose := False\<rparr>"

section \<open>Effects on the world\<close>

lemma set_linked_simps [simp]:
  "node (set_linked w n b) = (node w)(n := (node w n)\<lparr>in_wait_list := b\<rparr>)"
  "ticket (set_linked w n b) = ticket w" "sel_index (set_linked w n b) = sel_index w"
  "woken (set_linked w n b) = woken w"
  by (simp_all add: set_linked_def)

lemma set_notified_simps [simp]:
  "node (set_notified w n k) = (node w)(n := (node w n)\<lparr>notified := k\<rparr>)"
  "ticket (set_notified w n k) = ticket w" "sel_index (set_notified w n k) = sel_index w"
  by (simp_all add: set_notified_def)

lemma notify_node_simps [simp]:
  "node (notify_node w n k) = (node w)(n := (node w n)\<lparr>notified := k\<rparr>)"
  "ticket (notify_node w n k) = ticket w" "sel_index (notify_node w n k) = sel_index w"
  "woken (notify_node w n k) = woken w @ (case nfiber (node w n) of Some f \<Rightarrow> [f] | None \<Rightarrow> [])"
  by (simp_all add: notify_node_def wake_batch_add_def group_signal_def set_notified_def
      split: option.splits bool.splits)

lemma try_win_simps:
  assumes "cc__chan_select_try_win w n = (w', b)"
  shows "node w' = node w" "ticket w' = ticket w" "woken w' = woken w"
  using assms by (auto simp: cc__chan_select_try_win_def cc__wait_select_try_win_def Let_def
      split: option.splits bool.splits if_splits)

lemma ticket_valid_cong:
  "nfiber (node w' n) = nfiber (node w n) \<Longrightarrow> nticket (node w' n) = nticket (node w n) \<Longrightarrow>
    ticket w' = ticket w \<Longrightarrow> cc__chan_waiter_ticket_valid w' n = cc__chan_waiter_ticket_valid w n"
  by (simp add: cc__chan_waiter_ticket_valid_def split: option.split)

lemma ticket_valid_simps [simp]:
  "cc__chan_waiter_ticket_valid (set_linked w m b) n = cc__chan_waiter_ticket_valid w n"
  "cc__chan_waiter_ticket_valid (notify_node w m k) n = cc__chan_waiter_ticket_valid w n"
  "cc__chan_waiter_ticket_valid (set_notified w m k) n = cc__chan_waiter_ticket_valid w n"
  by (rule ticket_valid_cong; simp)+

lemma try_win_valid:
  "cc__chan_select_try_win w m = (w', b) \<Longrightarrow>
    cc__chan_waiter_ticket_valid w' n = cc__chan_waiter_ticket_valid w n"
  by (rule ticket_valid_cong) (simp_all add: try_win_simps)

section \<open>The counters of the receive queue\<close>

text \<open>
  What the comment on the channel structure promises of the receive queue: the counter
  \<^verbatim>\<open>has_recv_waiters\<close> is the number of linked waiters that are not notified,
  \<^verbatim>\<open>recv_wake_inflight\<close> the number of linked waiters that were signalled, and the
  scan hint points into the list.
\<close>

definition in_state :: "world \<Rightarrow> notify \<Rightarrow> nat list \<Rightarrow> int" where
  "in_state w k ns = int (length (filter (\<lambda>n. notified (node w n) = k) ns))"

definition hint_ok :: "nat option \<Rightarrow> nat list \<Rightarrow> bool" where
  "hint_ok h ns = (case h of None \<Rightarrow> ns = [] | Some x \<Rightarrow> x \<in> set ns)"

definition recv_queue_ok :: "chan \<Rightarrow> world \<Rightarrow> bool" where
  "recv_queue_ok ch w =
    (distinct (recv_waiters ch) \<and>
     (\<forall>n \<in> set (recv_waiters ch). in_wait_list (node w n) \<and> cc__chan_waiter_ticket_valid w n) \<and>
     has_recv_waiters ch = in_state w NOTIFY_NONE (recv_waiters ch) \<and>
     recv_wake_inflight ch = in_state w NOTIFY_SIGNAL (recv_waiters ch) \<and>
     hint_ok (recv_signal_hint ch) (recv_waiters ch))"

lemma in_state_nonneg: "0 \<le> in_state w k ns"
  by (simp add: in_state_def)

lemma in_state_Nil [simp]: "in_state w k [] = 0"
  by (simp add: in_state_def)

lemma in_state_Cons [simp]:
  "in_state w k (n # ns) = (if notified (node w n) = k then 1 else 0) + in_state w k ns"
  by (simp add: in_state_def)

lemma in_state_append [simp]: "in_state w k (ms @ ns) = in_state w k ms + in_state w k ns"
  by (simp add: in_state_def)

lemma in_state_cong:
  "(\<And>m. m \<in> set ns \<Longrightarrow> notified (node w' m) = notified (node w m)) \<Longrightarrow> in_state w' k ns = in_state w k ns"
  by (induction ns) auto

lemma in_state_remove1:
  "n \<in> set ns \<Longrightarrow> in_state w k (remove1 n ns) = in_state w k ns - (if notified (node w n) = k then 1 else 0)"
  by (induction ns) auto

lemma in_state_notify:
  assumes "distinct ns" "n \<in> set ns" "notified (node w n) = NOTIFY_NONE" "j \<noteq> NOTIFY_NONE"
    and w': "\<And>m. notified (node w' m) = (if m = n then j else notified (node w m))"
  shows "in_state w' NOTIFY_NONE ns = in_state w NOTIFY_NONE ns - 1"
    and "in_state w' NOTIFY_SIGNAL ns = in_state w NOTIFY_SIGNAL ns + (if j = NOTIFY_SIGNAL then 1 else 0)"
proof -
  obtain as bs where ns: "ns = as @ n # bs" using assms(2) by (meson split_list)
  have "in_state w' k as = in_state w k as" "in_state w' k bs = in_state w k bs" for k
    using assms(1) w' by (auto simp: ns intro!: in_state_cong)
  then show "in_state w' NOTIFY_NONE ns = in_state w NOTIFY_NONE ns - 1"
    "in_state w' NOTIFY_SIGNAL ns = in_state w NOTIFY_SIGNAL ns + (if j = NOTIFY_SIGNAL then 1 else 0)"
    using assms(3,4) w' by (auto simp: ns)
qed

lemma counter_dec_pos [simp]: "1 \<le> x \<Longrightarrow> counter_dec x = x - 1"
  by (simp add: counter_dec_def)

lemma first_of_in: "ns \<noteq> [] \<Longrightarrow> hint_ok (first_of ns) ns"
  by (cases ns) (auto simp: first_of_def hint_ok_def)

lemma next_of_in: "next_of ns n = Some x \<Longrightarrow> x \<in> set ns"
  by (induction ns n rule: next_of.induct) (auto split: if_splits)

lemma next_of_neq: "distinct ns \<Longrightarrow> next_of ns n = Some x \<Longrightarrow> x \<noteq> n"
  by (induction ns n rule: next_of.induct) (auto split: if_splits dest: next_of_in)

lemma hint_advance_simps [simp]:
  "recv_waiters (cc__chan_recv_signal_hint_advance ch n nxt) = recv_waiters ch"
  "has_recv_waiters (cc__chan_recv_signal_hint_advance ch n nxt) = has_recv_waiters ch"
  "recv_wake_inflight (cc__chan_recv_signal_hint_advance ch n nxt) = recv_wake_inflight ch"
  by (simp_all add: cc__chan_recv_signal_hint_advance_def Let_def)

lemma hint_advance_ok:
  assumes "\<And>x. nxt = Some x \<Longrightarrow> x \<in> set (recv_waiters ch)"
    and "\<And>x. recv_signal_hint ch = Some x \<Longrightarrow> x \<noteq> n \<Longrightarrow> x \<in> set (recv_waiters ch)"
  shows "hint_ok (recv_signal_hint (cc__chan_recv_signal_hint_advance ch n nxt)) (recv_waiters ch)"
proof (cases "recv_waiters ch")
  case Nil
  then show ?thesis by (simp add: cc__chan_recv_signal_hint_advance_def Let_def hint_ok_def)
next
  case (Cons y ys)
  then show ?thesis using assms
    by (auto simp: cc__chan_recv_signal_hint_advance_def Let_def hint_ok_def first_of_def
        split: option.splits)
qed

text \<open>Taking the head of the receive queue off, with the decrement its state calls for.\<close>

definition head_dec :: "notify \<Rightarrow> chan \<Rightarrow> chan" where
  "head_dec k ch = (if k = NOTIFY_NONE then recv_count_dec ch
                    else if k = NOTIFY_SIGNAL then recv_inflight_dec ch else ch)"

lemma head_dec_simps [simp]:
  "recv_waiters (head_dec k ch) = recv_waiters ch" "recv_signal_hint (head_dec k ch) = recv_signal_hint ch"
  by (simp_all add: head_dec_def recv_count_dec_def recv_inflight_dec_def)

lemma drop_head_ok:
  assumes ok: "recv_queue_ok ch w" and L: "recv_waiters ch = n # ns"
    and same: "\<And>m. m \<in> set ns \<Longrightarrow> notified (node w' m) = notified (node w m) \<and>
      in_wait_list (node w' m) = in_wait_list (node w m) \<and>
      cc__chan_waiter_ticket_valid w' m = cc__chan_waiter_ticket_valid w m"
  shows "recv_queue_ok (drop_recv_head (head_dec (notified (node w n)) ch) n ns) w'"
proof -
  let ?ch = "drop_recv_head (head_dec (notified (node w n)) ch) n ns"
  have st: "in_state w' k ns = in_state w k ns" for k
    using same by (intro in_state_cong) auto
  have cnt: "has_recv_waiters ?ch = in_state w NOTIFY_NONE ns"
    "recv_wake_inflight ?ch = in_state w NOTIFY_SIGNAL ns"
    using ok in_state_nonneg [of w _ ns]
    by (auto simp: recv_queue_ok_def L drop_recv_head_def head_dec_def recv_count_dec_def
        recv_inflight_dec_def)
  have "hint_ok (recv_signal_hint ?ch) (recv_waiters ((head_dec (notified (node w n)) ch)\<lparr>recv_waiters := ns\<rparr>))"
    unfolding drop_recv_head_def
  proof (rule hint_advance_ok)
    fix x assume "first_of ns = Some x"
    then show "x \<in> set (recv_waiters ((head_dec (notified (node w n)) ch)\<lparr>recv_waiters := ns\<rparr>))"
      by (cases ns) (auto simp: first_of_def)
  next
    fix x assume "recv_signal_hint ((head_dec (notified (node w n)) ch)\<lparr>recv_waiters := ns\<rparr>) = Some x" "x \<noteq> n"
    then show "x \<in> set (recv_waiters ((head_dec (notified (node w n)) ch)\<lparr>recv_waiters := ns\<rparr>))"
      using ok by (auto simp: recv_queue_ok_def hint_ok_def L)
  qed
  then show ?thesis
    using ok cnt st same by (auto simp: recv_queue_ok_def L)
qed

lemma pop_recv_list_ok:
  "recv_queue_ok ch w \<Longrightarrow> recv_waiters ch = L \<Longrightarrow> pop_recv_list L ch w = (ch', w', r) \<Longrightarrow> recv_queue_ok ch' w'"
proof (induction L arbitrary: ch w)
  case (Cons n ns)
  note ok = Cons.prems(1) and L = Cons.prems(2)
  obtain w1 b where win: "cc__chan_select_try_win w n = (w1, b)" by fastforce
  note W = try_win_simps [OF win] try_win_valid [OF win]
  have n: "n \<notin> set ns" using ok L by (auto simp: recv_queue_ok_def)
  have drop: "recv_queue_ok (drop_recv_head (head_dec (notified (node w n)) ch) n ns) w2"
    if "\<And>m. m \<noteq> n \<Longrightarrow> node w2 m = node w m" "ticket w2 = ticket w" for w2
  proof (rule drop_head_ok [OF ok L])
    fix m assume "m \<in> set ns"
    then have "node w2 m = node w m" using n that by metis
    then show "notified (node w2 m) = notified (node w m) \<and> in_wait_list (node w2 m) = in_wait_list (node w m) \<and>
        cc__chan_waiter_ticket_valid w2 m = cc__chan_waiter_ticket_valid w m"
      using that(2) ticket_valid_cong [of w2 m w] by simp
  qed
  show ?case
  proof (cases "notified (node w n) = NOTIFY_NONE")
    case False
    have hd: "(if notified (node w n) = NOTIFY_SIGNAL then recv_inflight_dec ch else ch) =
        head_dec (notified (node w n)) ch"
      using False by (simp add: head_dec_def)
    show ?thesis
      using Cons.IH [OF drop [of "set_linked w n False"]] Cons.prems(3) False by (simp add: hd)
  next
    case True
    have hd: "recv_count_dec ch = head_dec (notified (node w n)) ch"
      using True by (simp add: head_dec_def)
    have ok2: "recv_queue_ok (drop_recv_head (recv_count_dec ch) n ns)
        (cc__chan_select_cancel_node (set_linked w1 n False) n)"
      unfolding hd by (rule drop) (simp_all add: W cc__chan_select_cancel_node_def)
    have ok1: "recv_queue_ok (drop_recv_head (recv_count_dec ch) n ns) (set_linked w1 n False)"
      unfolding hd by (rule drop) (simp_all add: W)
    show ?thesis
      using Cons.IH [OF ok1] Cons.IH [OF ok2] ok1 Cons.prems(3) True win
      by (auto split: if_splits bool.splits)
  qed
qed simp

lemma remove_recv_ok:
  assumes ok: "recv_queue_ok ch w" and n: "in_wait_list (node w n) \<Longrightarrow> n \<in> set (recv_waiters ch)"
    and rm: "cc__chan_remove_recv_waiter ch w n = (ch', w')"
  shows "recv_queue_ok ch' w'"
proof (cases "in_wait_list (node w n)")
  case False
  then show ?thesis using ok rm
    by (auto simp: cc__chan_remove_recv_waiter_def recv_queue_ok_def hint_ok_def split: if_splits)
next
  case True
  let ?L = "recv_waiters ch" and ?M = "remove1 n (recv_waiters ch)"
  let ?c = "head_dec (notified (node w n)) (ch\<lparr>recv_waiters := ?M\<rparr>)"
  have nL: "n \<in> set ?L" and d: "distinct ?L" using n True ok by (auto simp: recv_queue_ok_def)
  have ch': "ch' = cc__chan_recv_signal_hint_advance ?c n (next_of ?L n)" and w': "w' = set_linked w n False"
    using rm True by (auto simp: cc__chan_remove_recv_waiter_def Let_def head_dec_def
        recv_count_dec_def recv_inflight_dec_def)
  have w1: "in_state w' k ?M = in_state w k ?M" for k
    by (rule in_state_cong) (simp add: w')
  have pos: "notified (node w n) = k \<Longrightarrow> 1 \<le> in_state w k ?L" for k
    using in_state_remove1 [OF nL, of w k] in_state_nonneg [of w k ?M] by simp
  have cnt: "has_recv_waiters ch' = in_state w NOTIFY_NONE ?M"
    "recv_wake_inflight ch' = in_state w NOTIFY_SIGNAL ?M"
    using ok pos in_state_remove1 [OF nL, of w]
    by (auto simp: ch' recv_queue_ok_def head_dec_def recv_count_dec_def recv_inflight_dec_def)
  have "hint_ok (recv_signal_hint ch') (recv_waiters ?c)"
    unfolding ch'
  proof (rule hint_advance_ok)
    fix x assume "next_of ?L n = Some x"
    then show "x \<in> set (recv_waiters ?c)"
      using d next_of_in [of ?L n x] next_of_neq [of ?L n x] by simp
  next
    fix x assume "recv_signal_hint ?c = Some x" "x \<noteq> n"
    then show "x \<in> set (recv_waiters ?c)"
      using ok d by (auto simp: recv_queue_ok_def hint_ok_def)
  qed
  then show ?thesis
    using ok cnt d w1 by (auto simp: recv_queue_ok_def ch' w')
qed

lemma notify_ok:
  assumes ok: "recv_queue_ok ch w" and n: "n \<in> set (recv_waiters ch)" and none: "notified (node w n) = NOTIFY_NONE"
    and j: "j \<noteq> NOTIFY_NONE" and W: "node w1 = node w" "ticket w1 = ticket w"
    and ch': "recv_waiters ch' = recv_waiters ch" "recv_signal_hint ch' = recv_signal_hint ch"
      "has_recv_waiters ch' = counter_dec (has_recv_waiters ch)"
      "recv_wake_inflight ch' = recv_wake_inflight ch + (if j = NOTIFY_SIGNAL then 1 else 0)"
  shows "recv_queue_ok ch' (notify_node w1 n j)"
proof -
  have v: "cc__chan_waiter_ticket_valid w1 m = cc__chan_waiter_ticket_valid w m" for m
    by (rule ticket_valid_cong) (simp_all add: W)
  have d: "distinct (recv_waiters ch)" using ok by (simp add: recv_queue_ok_def)
  have "notified (node (notify_node w1 n j) m) = (if m = n then j else notified (node w m))" for m
    by (simp add: W)
  note st = in_state_notify [OF d n none j this]
  have "1 \<le> in_state w NOTIFY_NONE (recv_waiters ch)"
    using in_state_remove1 [OF n, of w NOTIFY_NONE] none in_state_nonneg [of w NOTIFY_NONE] by (metis diff_ge_0_iff_ge)
  then show ?thesis
    using ok by (auto simp: recv_queue_ok_def ch' st v W)
qed

lemma signal_pass_ok:
  "recv_queue_ok ch w \<Longrightarrow> set ns \<subseteq> set (recv_waiters ch) \<Longrightarrow> signal_pass ns b ch w = (ch', w', b', r) \<Longrightarrow>
    recv_queue_ok ch' w' \<and> recv_waiters ch' = recv_waiters ch \<and> (\<forall>n. r = Some n \<longrightarrow> n \<in> set ns)"
proof (induction ns arbitrary: b ch w)
  case (Cons n ns)
  note ok = Cons.prems(1)
  obtain w1 x where win: "cc__chan_select_try_win w n = (w1, x)" by fastforce
  note W = try_win_simps [OF win] try_win_valid [OF win]
  show ?case
  proof (cases "notified (node w n) = NOTIFY_NONE")
    case False
    then show ?thesis using Cons.IH [OF ok] Cons.prems(2,3) by auto
  next
    case True
    have n: "n \<in> set (recv_waiters ch)" using Cons.prems(2) by simp
    then have v: "cc__chan_waiter_ticket_valid w1 n"
      using ok W by (auto simp: recv_queue_ok_def)
    show ?thesis
    proof (cases x)
      case False
      have "recv_queue_ok (recv_count_dec ch) (notify_node w1 n NOTIFY_CANCEL)"
        by (rule notify_ok [OF ok n True _ W(1,2)]) (simp_all add: recv_count_dec_def)
      then show ?thesis using Cons.IH [of "recv_count_dec ch"] Cons.prems(2,3) True False win v
        by (auto simp: recv_count_dec_def cc__chan_select_cancel_node_def)
    next
      case x: True
      let ?ch = "(recv_count_dec ch)\<lparr>recv_wake_inflight := recv_wake_inflight ch + 1\<rparr>"
      have "recv_queue_ok ?ch (notify_node w1 n NOTIFY_SIGNAL)"
        by (rule notify_ok [OF ok n True _ W(1,2)]) (simp_all add: recv_count_dec_def)
      then show ?thesis
        using Cons.IH [of ?ch] Cons.prems(2,3) True x win v
        by (cases "b \<le> 1") (auto simp: recv_count_dec_def Let_def)
    qed
  qed
qed auto

lemma set_hint_ok:
  "recv_queue_ok ch w \<Longrightarrow> hint_ok h (recv_waiters ch) \<Longrightarrow> recv_queue_ok (ch\<lparr>recv_signal_hint := h\<rparr>) w"
  by (simp add: recv_queue_ok_def)

lemma signal_recv_ok:
  assumes ok: "recv_queue_ok ch w" and sg: "cc__chan_signal_recv_waiters ch w k = (ch', w')"
  shows "recv_queue_ok ch' w'"
proof (cases "k = 0 \<or> recv_waiters ch = []")
  case True
  then show ?thesis using ok sg by (auto simp: cc__chan_signal_recv_waiters_def)
next
  case False
  let ?L = "recv_waiters ch"
  define start where "start = (case recv_signal_hint ch of Some h \<Rightarrow> h | None \<Rightarrow> hd ?L)"
  have fin: "hint_ok (case next_of ?L n of Some x \<Rightarrow> Some x | None \<Rightarrow> first_of ?L) ?L" for n
    using False first_of_in [of ?L] by (auto simp: hint_ok_def dest: next_of_in split: option.splits)
  have fin0: "hint_ok (first_of ?L) ?L" using False first_of_in by blast
  obtain ch1 w1 b r where p1: "signal_pass (dropWhile (\<lambda>x. x \<noteq> start) ?L) k ch w = (ch1, w1, b, r)"
    by (metis prod_cases4)
  have ok1: "recv_queue_ok ch1 w1" "recv_waiters ch1 = ?L"
    using signal_pass_ok [OF ok _ p1] by (auto dest: set_dropWhileD)
  obtain ch2 w2 b2 r2 where p2: "signal_pass (takeWhile (\<lambda>x. x \<noteq> start) ?L) b ch1 w1 = (ch2, w2, b2, r2)"
    by (metis prod_cases4)
  have ok2: "recv_queue_ok ch2 w2" "recv_waiters ch2 = ?L"
    using signal_pass_ok [OF ok1(1) _ p2] ok1(2) by (auto dest: set_takeWhileD)
  have eq: "cc__chan_signal_recv_waiters ch w k =
      (case r of
         Some n \<Rightarrow> (ch1\<lparr>recv_signal_hint := (case next_of ?L n of Some x \<Rightarrow> Some x | None \<Rightarrow> first_of ?L)\<rparr>, w1)
       | None \<Rightarrow> (if start = hd ?L then (ch1\<lparr>recv_signal_hint := first_of ?L\<rparr>, w1)
           else (ch2\<lparr>recv_signal_hint := (case r2 of
               Some n \<Rightarrow> (case next_of ?L n of Some x \<Rightarrow> Some x | None \<Rightarrow> first_of ?L)
             | None \<Rightarrow> first_of ?L)\<rparr>, w2)))"
    unfolding cc__chan_signal_recv_waiters_def Let_def start_def [symmetric]
    using False by (cases r) (simp_all add: p1 p2)
  have h1: "recv_queue_ok (ch1\<lparr>recv_signal_hint := h\<rparr>) w1" if "hint_ok h ?L" for h
    using set_hint_ok [OF ok1(1)] that ok1(2) by simp
  have h2: "recv_queue_ok (ch2\<lparr>recv_signal_hint := h\<rparr>) w2" if "hint_ok h ?L" for h
    using set_hint_ok [OF ok2(1)] that ok2(2) by simp
  show ?thesis
    using sg h1 [OF fin0] h1 [OF fin] h2 [OF fin0] h2 [OF fin] unfolding eq
    by (cases r; cases r2) (auto split: if_splits)
qed

lemma wake_close_ok:
  assumes ok: "recv_queue_ok ch w" and cl: "cc__chan_wake_one_recv_waiter_close ch w = (ch', w')"
  shows "recv_queue_ok ch' w'"
proof (cases "recv_waiters ch")
  case Nil
  then show ?thesis using ok cl by (simp add: cc__chan_wake_one_recv_waiter_close_def)
next
  case (Cons n ns)
  have n: "n \<notin> set ns" using ok by (auto simp: recv_queue_ok_def Cons)
  obtain w1 x where win: "cc__chan_select_try_win (set_linked w n False) n = (w1, x)" by fastforce
  note W = try_win_simps [OF win]
  have ch': "ch' = drop_recv_head (head_dec (notified (node w n)) ch) n ns"
    and w': "\<And>m. m \<noteq> n \<Longrightarrow> node w' m = node w m" "ticket w' = ticket w"
    using cl win W by (auto simp: cc__chan_wake_one_recv_waiter_close_def Cons Let_def head_dec_def
        cc__chan_select_cancel_node_def split: bool.splits if_splits)
  show ?thesis unfolding ch'
  proof (rule drop_head_ok [OF ok Cons])
    fix m assume "m \<in> set ns"
    then have "node w' m = node w m" using n w'(1) by metis
    then show "notified (node w' m) = notified (node w m) \<and> in_wait_list (node w' m) = in_wait_list (node w m) \<and>
        cc__chan_waiter_ticket_valid w' m = cc__chan_waiter_ticket_valid w m"
      using w'(2) ticket_valid_cong [of w' m w] by simp
  qed
qed

text \<open>A waiter that may be added: unlinked, not notified, and the only one of its fiber unless it
  already carries a current ticket (the nodes of a select share one).\<close>

definition fresh_waiter :: "world \<Rightarrow> nat list \<Rightarrow> nat \<Rightarrow> bool" where
  "fresh_waiter w ns n =
    (n \<notin> set ns \<and> notified (node w n) = NOTIFY_NONE \<and> cc__chan_waiter_ticket_valid w n \<and>
     (nfiber (node w n) = None \<or> nticket (node w n) \<noteq> 0 \<or>
      (\<forall>m \<in> set ns. nfiber (node w m) \<noteq> nfiber (node w n))))"

lemma publish_waiter_simps:
  "m \<noteq> n \<Longrightarrow> node (publish_waiter w n) m = node w m"
  "notified (node (publish_waiter w n) n) = notified (node w n)"
  "in_wait_list (node (publish_waiter w n) n)"
  "sel_index (publish_waiter w n) = sel_index w"
  "select_group (node (publish_waiter w n) n) = select_group (node w n)"
  "select_index (node (publish_waiter w n) n) = select_index (node w n)"
  "is_select (node (publish_waiter w n) n) = is_select (node w n)"
  "nfiber (node (publish_waiter w n) n) = nfiber (node w n)"
  "ndata (node (publish_waiter w n) n) = ndata (node w n)"
  by (auto simp: publish_waiter_def Let_def split: option.splits)

lemma publish_waiter_valid:
  assumes "fresh_waiter w ns n"
  shows "cc__chan_waiter_ticket_valid (publish_waiter w n) n"
    and "m \<in> set ns \<Longrightarrow> cc__chan_waiter_ticket_valid w m \<Longrightarrow> cc__chan_waiter_ticket_valid (publish_waiter w n) m"
  using assms
  by (auto simp: fresh_waiter_def publish_waiter_def cc__chan_waiter_ticket_valid_def Let_def
      split: option.splits)

lemma add_recv_ok:
  assumes ok: "recv_queue_ok ch w" and fr: "fresh_waiter w (recv_waiters ch) n"
    and ad: "cc__chan_add_recv_waiter ch w n = (ch', w')"
  shows "recv_queue_ok ch' w'"
proof -
  have w': "w' = publish_waiter w n" using ad by (simp add: cc__chan_add_recv_waiter_def)
  have st: "in_state w' k (recv_waiters ch) = in_state w k (recv_waiters ch)" for k
  proof (rule in_state_cong)
    fix m assume "m \<in> set (recv_waiters ch)"
    then have "m \<noteq> n" using fr by (auto simp: fresh_waiter_def)
    then show "notified (node w' m) = notified (node w m)" by (simp add: w' publish_waiter_simps)
  qed
  have nn: "notified (node w' n) = NOTIFY_NONE" "in_wait_list (node w' n)" "n \<notin> set (recv_waiters ch)"
    using fr by (auto simp: w' fresh_waiter_def publish_waiter_simps)
  have old: "in_wait_list (node w' m) \<and> cc__chan_waiter_ticket_valid w' m" if "m \<in> set (recv_waiters ch)" for m
  proof -
    have "m \<noteq> n" using that nn(3) by auto
    then show ?thesis
      using that ok publish_waiter_valid(2) [OF fr that] by (auto simp: recv_queue_ok_def w' publish_waiter_simps)
  qed
  have vn: "cc__chan_waiter_ticket_valid w' n" using publish_waiter_valid(1) [OF fr] by (simp add: w')
  show ?thesis
    using ok ad st nn old vn
    by (auto simp: recv_queue_ok_def cc__chan_add_recv_waiter_def hint_ok_def split: option.splits)
qed

section \<open>Select groups\<close>

definition select_of :: "world \<Rightarrow> nat \<Rightarrow> nat option" where
  "select_of w n = (if is_select (node w n) then select_group (node w n) else None)"

text \<open>How channel activity may change select groups: a decided group stays decided, and the
  nodes keep their place in a group.\<close>

definition sel_ext :: "world \<Rightarrow> world \<Rightarrow> bool" where
  "sel_ext w w' =
    ((\<forall>g. sel_index w g \<noteq> - 1 \<longrightarrow> sel_index w' g = sel_index w g) \<and>
     (\<forall>n. select_of w' n = select_of w n \<and> select_index (node w' n) = select_index (node w n)))"

lemma sel_ext_refl [simp]: "sel_ext w w"
  by (simp add: sel_ext_def)

lemma sel_ext_trans [trans]: "sel_ext w w' \<Longrightarrow> sel_ext w' w'' \<Longrightarrow> sel_ext w w''"
  by (auto simp: sel_ext_def)

lemma sel_ext_publish: "sel_ext w (publish_waiter w n)"
proof -
  have "select_of (publish_waiter w n) m = select_of w m \<and>
      select_index (node (publish_waiter w n) m) = select_index (node w m)" for m
    by (cases "m = n") (simp_all add: select_of_def publish_waiter_simps)
  then show ?thesis by (simp add: sel_ext_def publish_waiter_simps)
qed

lemma sel_ext_basic [simp]:
  "sel_ext w (set_linked w n b)" "sel_ext w (notify_node w n k)" "sel_ext w (cc__chan_select_cancel_node w n)"
  "sel_ext w (publish_waiter w n)"
  by (simp_all add: sel_ext_publish) (auto simp: sel_ext_def select_of_def cc__chan_select_cancel_node_def)

lemma try_win_ext:
  assumes "cc__chan_select_try_win w n = (w', b)"
  shows "sel_ext w w'" "b \<Longrightarrow> select_of w n = Some g \<Longrightarrow> sel_index w' g = int (select_index (node w n))"
  using assms
  by (auto simp: sel_ext_def select_of_def cc__chan_select_try_win_def cc__wait_select_try_win_def Let_def
      split: option.splits bool.splits if_splits)

lemma pop_send_list_ext:
  "pop_send_list L w = (L', w', r) \<Longrightarrow> sel_ext w w' \<and>
    (\<forall>n g. r = Some n \<longrightarrow> select_of w n = Some g \<longrightarrow> sel_index w' g = int (select_index (node w n)))"
proof (induction L arbitrary: w)
  case (Cons n ns)
  obtain w1 b where win: "cc__chan_select_try_win w n = (w1, b)" by fastforce
  note E = try_win_ext [OF win]
  have step: ?case if "sel_ext w w2" "pop_send_list ns w2 = (L', w', r)" for w2
    using Cons.IH [OF that(2)] that(1) sel_ext_trans [OF that(1)] by (auto simp: sel_ext_def)
  have "sel_ext w (set_linked w1 n False)"
    "sel_ext w (cc__chan_select_cancel_node (set_linked w1 n False) n)"
    using E(1) by (blast intro: sel_ext_trans sel_ext_basic)+
  then show ?case
    using Cons.prems win step [of "set_linked w n False"] step E
    by (auto split: if_splits bool.splits)
qed simp

lemma pop_recv_list_ext:
  "pop_recv_list L ch w = (ch', w', r) \<Longrightarrow> sel_ext w w' \<and>
    (\<forall>n g. r = Some n \<longrightarrow> select_of w n = Some g \<longrightarrow> sel_index w' g = int (select_index (node w n)))"
proof (induction L arbitrary: ch w)
  case (Cons n ns)
  obtain w1 b where win: "cc__chan_select_try_win w n = (w1, b)" by fastforce
  note E = try_win_ext [OF win]
  have step: ?case if "sel_ext w w2" "pop_recv_list ns ch2 w2 = (ch', w', r)" for w2 ch2
    using Cons.IH [OF that(2)] that(1) sel_ext_trans [OF that(1)] by (auto simp: sel_ext_def)
  have "sel_ext w (set_linked w1 n False)"
    "sel_ext w (cc__chan_select_cancel_node (set_linked w1 n False) n)"
    using E(1) by (blast intro: sel_ext_trans sel_ext_basic)+
  then show ?case
    using Cons.prems win step [of "set_linked w n False"] step E
    by (auto split: if_splits bool.splits)
qed simp

lemma wake_one_send_list_ext: "wake_one_send_list L w = (L', w') \<Longrightarrow> sel_ext w w'"
proof (induction L arbitrary: w)
  case (Cons n ns)
  obtain w1 b where win: "cc__chan_select_try_win (set_linked w n False) n = (w1, b)" by fastforce
  have 1: "sel_ext w w1" using try_win_ext(1) [OF win] sel_ext_basic(1) sel_ext_trans by blast
  then have "sel_ext w (notify_node w1 n NOTIFY_SIGNAL)" "sel_ext w (cc__chan_select_cancel_node w1 n)"
    by (blast intro: sel_ext_trans sel_ext_basic)+
  then show ?case using Cons.IH Cons.prems win 1
    by (auto split: if_splits bool.splits intro: sel_ext_trans)
qed simp

lemma signal_pass_ext: "signal_pass L b ch w = (ch', w', b', r) \<Longrightarrow> sel_ext w w'"
proof (induction L arbitrary: b ch w)
  case (Cons n ns)
  obtain w1 x where win: "cc__chan_select_try_win w n = (w1, x)" by fastforce
  have 1: "sel_ext w w1" using try_win_ext(1) [OF win] .
  then have 2: "sel_ext w (notify_node w1 n NOTIFY_SIGNAL)" "sel_ext w (cc__chan_select_cancel_node w1 n)"
    by (blast intro: sel_ext_trans sel_ext_basic)+
  show ?case using Cons.IH Cons.prems win 1 2
    by (auto simp: Let_def split: if_splits bool.splits intro: sel_ext_trans)
qed simp

lemma signal_recv_ext: "cc__chan_signal_recv_waiters ch w k = (ch', w') \<Longrightarrow> sel_ext w w'"
  by (auto simp: cc__chan_signal_recv_waiters_def Let_def split: if_splits prod.splits option.splits
      dest!: signal_pass_ext intro: sel_ext_trans)

lemma wake_close_ext:
  "cc__chan_wake_one_send_waiter_close ch w = (ch', w') \<Longrightarrow> sel_ext w w'"
  "cc__chan_wake_one_recv_waiter_close ch w = (ch', w') \<Longrightarrow> sel_ext w w'"
proof -
  have aux: "sel_ext w w2" if "cc__chan_select_try_win (set_linked w n False) n = (w1, b)"
    "w2 \<in> {w1, cc__chan_select_cancel_node w1 n, notify_node w1 n NOTIFY_CLOSE}" for n w1 w2 b
    using try_win_ext(1) [OF that(1)] that(2) by (blast intro: sel_ext_trans sel_ext_basic)
  show "cc__chan_wake_one_send_waiter_close ch w = (ch', w') \<Longrightarrow> sel_ext w w'"
    "cc__chan_wake_one_recv_waiter_close ch w = (ch', w') \<Longrightarrow> sel_ext w w'"
    using aux
    by (auto simp: cc__chan_wake_one_send_waiter_close_def cc__chan_wake_one_recv_waiter_close_def Let_def
        split: list.splits prod.splits bool.splits if_splits)
qed

lemma wake_all_send_ext: "wake_all_send ch w = (ch', w') \<Longrightarrow> sel_ext w w'"
proof (induction ch w rule: wake_all_send.induct)
  case (1 ch w)
  then show ?case
    by (subst (asm) (2) wake_all_send.simps)
      (auto split: if_splits prod.splits dest: wake_close_ext(1) intro: sel_ext_trans)
qed

lemma wake_all_recv_ext: "wake_all_recv ch w = (ch', w') \<Longrightarrow> sel_ext w w'"
proof (induction ch w rule: wake_all_recv.induct)
  case (1 ch w)
  then show ?case
    by (subst (asm) (2) wake_all_recv.simps)
      (auto split: if_splits prod.splits dest: wake_close_ext(2) intro: sel_ext_trans)
qed

lemma wake_all_waiters_ext: "cc__chan_wake_all_waiters ch w = (ch', w') \<Longrightarrow> sel_ext w w'"
  by (auto simp: cc__chan_wake_all_waiters_def split: prod.splits
      dest!: wake_all_send_ext wake_all_recv_ext intro: sel_ext_trans)

section \<open>Waking every waiter on close\<close>

definition released :: "world \<Rightarrow> nat \<Rightarrow> bool" where
  "released w n =
    (notified (node w n) \<in> {NOTIFY_CLOSE, NOTIFY_CANCEL} \<and> \<not> in_wait_list (node w n) \<and>
     (case nfiber (node w n) of Some f \<Rightarrow> f \<in> set (woken w) | None \<Rightarrow> True))"

text \<open>The effect of waking one waiter for close.\<close>

definition close_eff :: "world \<Rightarrow> nat \<Rightarrow> world \<Rightarrow> bool" where
  "close_eff w n w' =
    (ticket w' = ticket w \<and> (\<forall>m. m \<noteq> n \<longrightarrow> node w' m = node w m) \<and>
     nfiber (node w' n) = nfiber (node w n) \<and> nticket (node w' n) = nticket (node w n) \<and>
     \<not> in_wait_list (node w' n) \<and> set (woken w) \<subseteq> set (woken w') \<and>
     (if cc__chan_waiter_ticket_valid w n then released w' n
      else notified (node w' n) = notified (node w n)))"

lemma close_one_eff:
  assumes "cc__chan_select_try_win (set_linked w n False) n = (w1, b)"
    and "w' = (if b then (if cc__chan_waiter_ticket_valid w1 n then notify_node w1 n NOTIFY_CLOSE else w1)
               else cc__chan_select_cancel_node w1 n)"
  shows "close_eff w n w'"
  using try_win_simps [OF assms(1)] try_win_valid [OF assms(1)] assms(2)
  by (auto simp: close_eff_def released_def cc__chan_select_cancel_node_def split: option.splits)

lemma wake_send_close_eff:
  assumes "cc__chan_wake_one_send_waiter_close ch w = (ch', w')" "send_waiters ch = n # ns"
  shows "ch' = ch\<lparr>send_waiters := ns\<rparr>" "close_eff w n w'"
proof -
  obtain w1 b where win: "cc__chan_select_try_win (set_linked w n False) n = (w1, b)" by fastforce
  show "ch' = ch\<lparr>send_waiters := ns\<rparr>" "close_eff w n w'"
    using assms win close_one_eff [OF win]
    by (auto simp: cc__chan_wake_one_send_waiter_close_def Let_def split: bool.splits)
qed

lemma wake_recv_close_eff:
  assumes "cc__chan_wake_one_recv_waiter_close ch w = (ch', w')" "recv_waiters ch = n # ns"
  shows "recv_waiters ch' = ns" "send_waiters ch' = send_waiters ch" "close_eff w n w'"
proof -
  obtain w1 b where win: "cc__chan_select_try_win (set_linked w n False) n = (w1, b)" by fastforce
  show "recv_waiters ch' = ns" "send_waiters ch' = send_waiters ch" "close_eff w n w'"
    using assms win close_one_eff [OF win]
    by (auto simp: cc__chan_wake_one_recv_waiter_close_def Let_def drop_recv_head_def recv_count_dec_def
        recv_inflight_dec_def cc__chan_recv_signal_hint_advance_def split: bool.splits)
qed

lemma close_eff_released: "close_eff w n w' \<Longrightarrow> released w m \<Longrightarrow> released w' m"
  by (cases "m = n") (auto simp: close_eff_def released_def split: if_splits option.splits)

lemma close_eff_valid: "close_eff w n w' \<Longrightarrow> cc__chan_waiter_ticket_valid w' m = cc__chan_waiter_ticket_valid w m"
  by (rule ticket_valid_cong; cases "m = n") (auto simp: close_eff_def)

lemma wake_all_send_releases:
  "wake_all_send ch w = (ch', w') \<Longrightarrow> send_waiters ch' = [] \<and> recv_waiters ch' = recv_waiters ch \<and>
    (\<forall>n. cc__chan_waiter_ticket_valid w' n = cc__chan_waiter_ticket_valid w n) \<and>
    (\<forall>n. released w n \<longrightarrow> released w' n) \<and> (\<forall>n. n \<notin> set (send_waiters ch) \<longrightarrow> node w' n = node w n) \<and>
    (\<forall>n \<in> set (send_waiters ch). cc__chan_waiter_ticket_valid w n \<longrightarrow> released w' n)"
proof (induction "send_waiters ch" arbitrary: ch w)
  case Nil
  then show ?case by (simp add: wake_all_send.simps)
next
  case (Cons n ns)
  obtain c1 w1 where one: "cc__chan_wake_one_send_waiter_close ch w = (c1, w1)" by fastforce
  note e = wake_send_close_eff [OF one Cons.hyps(2) [symmetric]]
  have "wake_all_send c1 w1 = (ch', w')"
    using Cons.prems Cons.hyps(2) [symmetric] one by (subst (asm) wake_all_send.simps) simp
  from Cons.hyps(1) [OF _ this] show ?case
    using e close_eff_released [OF e(2)] close_eff_valid [OF e(2)]
    by (auto simp: Cons.hyps(2) [symmetric] close_eff_def)
qed

lemma wake_all_recv_releases:
  "wake_all_recv ch w = (ch', w') \<Longrightarrow> recv_waiters ch' = [] \<and> send_waiters ch' = send_waiters ch \<and>
    (\<forall>n. released w n \<longrightarrow> released w' n) \<and>
    (\<forall>n \<in> set (recv_waiters ch). cc__chan_waiter_ticket_valid w n \<longrightarrow> released w' n)"
proof (induction "recv_waiters ch" arbitrary: ch w)
  case Nil
  then show ?case by (simp add: wake_all_recv.simps)
next
  case (Cons n ns)
  obtain c1 w1 where one: "cc__chan_wake_one_recv_waiter_close ch w = (c1, w1)" by fastforce
  note e = wake_recv_close_eff [OF one Cons.hyps(2) [symmetric]]
  have "wake_all_recv c1 w1 = (ch', w')"
    using Cons.prems Cons.hyps(2) [symmetric] one by (subst (asm) wake_all_recv.simps) simp
  from Cons.hyps(1) [OF _ this] show ?case
    using e close_eff_released [OF e(3)] close_eff_valid [OF e(3)]
    by (auto simp: Cons.hyps(2) [symmetric] close_eff_def)
qed

lemma sig_updates [simp]:
  "cc__chan_waiter_ticket_valid (w\<lparr>sig_not_full := x\<rparr>) n = cc__chan_waiter_ticket_valid w n"
  "cc__chan_waiter_ticket_valid (w\<lparr>sig_not_empty := x\<rparr>) n = cc__chan_waiter_ticket_valid w n"
  "released (cc__chan_signal_recv_ready ch w) n = released w n"
  "node (cc__chan_signal_recv_ready ch w) = node w"
  by (simp_all add: cc__chan_waiter_ticket_valid_def released_def cc__chan_signal_recv_ready_def split: option.splits)

text \<open>The channel fields the close family sets, before the waiters are woken.\<close>

definition close_fields :: "chan \<Rightarrow> bool \<Rightarrow> bool \<Rightarrow> errno \<Rightarrow> errno \<Rightarrow> io_error option \<Rightarrow> chan" where
  "close_fields ch tx rx te re io =
    ch\<lparr>fast_path_ok := False, closed := closed ch \<or> tx,
       tx_error_code := (if tx \<and> te \<noteq> 0 then te else tx_error_code ch),
       tx_io_error := (if tx \<and> io \<noteq> None then io else tx_io_error ch),
       rx_error_closed := rx_error_closed ch \<or> rx,
       rx_error_code := (if rx \<and> re \<noteq> 0 then re else rx_error_code ch),
       rx_io_error := (if rx \<and> io \<noteq> None then io else rx_io_error ch)\<rparr>"

lemma close_common_alt:
  "cc__chan_close_common ch w tx rx te re io =
    (let c = close_fields ch tx rx te re io;
         w = (if tx then w\<lparr>sig_not_empty := sig_not_empty w + 1, sig_not_full := sig_not_full w + 1\<rparr>
              else w\<lparr>sig_not_full := sig_not_full w + 1\<rparr>);
         (c, w) = (if tx then cc__chan_wake_all_waiters c w else wake_all_send c w)
     in (c, cc__chan_signal_recv_ready c w))"
  by (cases ch; cases tx; cases rx; cases io)
    (simp_all add: cc__chan_close_common_def close_fields_def Let_def)

text \<open>C5: Closing the sending side empties both waiter queues and wakes every waiter whose ticket is
  current: it is unlinked, marked closed (or cancelled, if its select already
  chose another case) and its fiber is woken.  Closing only the receiving side
  does this for the senders and leaves the receivers alone.\<close>
theorem close_wakes_all_waiters:
  assumes "cc__chan_close_common ch w tx rx te re io = (ch', w')" "tx \<or> rx"
  shows "send_waiters ch' = [] \<and>
    (\<forall>n \<in> set (send_waiters ch). cc__chan_waiter_ticket_valid w n \<longrightarrow> released w' n) \<and>
    (if tx then recv_waiters ch' = [] \<and>
       (\<forall>n \<in> set (recv_waiters ch). cc__chan_waiter_ticket_valid w n \<longrightarrow> released w' n)
     else recv_waiters ch' = recv_waiters ch \<and>
       (\<forall>n. n \<notin> set (send_waiters ch) \<longrightarrow> node w' n = node w n))"
proof -
  let ?c = "close_fields ch tx rx te re io"
  let ?w = "if tx then w\<lparr>sig_not_empty := sig_not_empty w + 1, sig_not_full := sig_not_full w + 1\<rparr>
              else w\<lparr>sig_not_full := sig_not_full w + 1\<rparr>"
  obtain c1 w1 where s: "wake_all_send ?c ?w = (c1, w1)" by fastforce
  obtain c2 w2 where r: "wake_all_recv c1 w1 = (c2, w2)" by fastforce
  have c: "send_waiters ?c = send_waiters ch" "recv_waiters ?c = recv_waiters ch"
    by (simp_all add: close_fields_def)
  have v: "cc__chan_waiter_ticket_valid ?w n = cc__chan_waiter_ticket_valid w n" "node ?w = node w" for n
    by simp_all
  note S = wake_all_send_releases [OF s, unfolded c v] and R = wake_all_recv_releases [OF r]
  show ?thesis
    using assms(1) s r S R
    by (cases tx) (auto simp: close_common_alt cc__chan_wake_all_waiters_def Let_def)
qed

text \<open>A small system for the examples: fibers 0 to 3, node n belongs to fiber n.\<close>

definition demo_world :: world where
  "demo_world = \<lparr>node = (\<lambda>n. \<lparr>nfiber = Some n, nticket = 0, ndata = [], notified = NOTIFY_NONE,
       select_group = None, select_index = 0, is_select = False, in_wait_list = False\<rparr>),
     ticket = (\<lambda>_. 0), sel_signaled = (\<lambda>_. 0), sel_index = (\<lambda>_. - 1), woken = [],
     sig_not_empty = 0, sig_not_full = 0, recv_pokes = 0\<rparr>"

definition demo_queue :: "chan \<times> world" where
  "demo_queue =
    (let (c, w) = cc__chan_add_recv_waiter (cc_chan_create 0 False) demo_world 1;
         (c, w) = cc__chan_add_recv_waiter c w 2
     in cc__chan_add_send_waiter c w 3)"

theorem close_wakes_all_waiters_witness:
  "released (snd (cc__chan_close_common (fst demo_queue) (snd demo_queue) True False 0 0 None)) 1"
proof -
  have v: "1 \<in> set (recv_waiters (fst demo_queue)) \<and> cc__chan_waiter_ticket_valid (snd demo_queue) 1"
    by code_simp
  obtain c w where cw: "cc__chan_close_common (fst demo_queue) (snd demo_queue) True False 0 0 None = (c, w)"
    by fastforce
  show ?thesis using close_wakes_all_waiters [OF cw] v by (simp add: cw)
qed


lemma recv_queue_ok_create: "recv_queue_ok (cc_chan_create_internal c l m t s p) w"
  by (simp add: recv_queue_ok_def cc_chan_create_internal_def Let_def hint_ok_def)


section \<open>One winner per select\<close>

text \<open>Any activity of channels that may run between two claims.\<close>

inductive chan_activity :: "world \<Rightarrow> world \<Rightarrow> bool" where
  act_none: "chan_activity w w"
| act_add_send: "chan_activity w w1 \<Longrightarrow> cc__chan_add_send_waiter ch w1 n = (ch', w') \<Longrightarrow> chan_activity w w'"
| act_add_recv: "chan_activity w w1 \<Longrightarrow> cc__chan_add_recv_waiter ch w1 n = (ch', w') \<Longrightarrow> chan_activity w w'"
| act_pop_send: "chan_activity w w1 \<Longrightarrow> cc__chan_pop_send_waiter ch w1 = (ch', w', r) \<Longrightarrow> chan_activity w w'"
| act_pop_recv: "chan_activity w w1 \<Longrightarrow> cc__chan_pop_recv_waiter ch w1 = (ch', w', r) \<Longrightarrow> chan_activity w w'"
| act_wake_send: "chan_activity w w1 \<Longrightarrow> cc__chan_wake_one_send_waiter ch w1 = (ch', w') \<Longrightarrow> chan_activity w w'"
| act_signal: "chan_activity w w1 \<Longrightarrow> cc__chan_signal_recv_waiters ch w1 k = (ch', w') \<Longrightarrow> chan_activity w w'"
| act_notify: "chan_activity w w1 \<Longrightarrow> chan_activity w (notify_node w1 n k)"
| act_close: "chan_activity w w1 \<Longrightarrow> cc__chan_close_common ch w1 tx rx te re io = (ch', w') \<Longrightarrow> chan_activity w w'"

lemma sel_ext_fields: "node w' = node w \<Longrightarrow> sel_index w' = sel_index w \<Longrightarrow> sel_ext w w'"
  by (simp add: sel_ext_def select_of_def)

lemma close_common_ext: "cc__chan_close_common ch w tx rx te re io = (ch', w') \<Longrightarrow> sel_ext w w'"
proof -
  assume a: "cc__chan_close_common ch w tx rx te re io = (ch', w')"
  define v where "v = (if tx then w\<lparr>sig_not_empty := sig_not_empty w + 1, sig_not_full := sig_not_full w + 1\<rparr>
      else w\<lparr>sig_not_full := sig_not_full w + 1\<rparr>)"
  obtain c1 w1 where s: "(if tx then cc__chan_wake_all_waiters (close_fields ch tx rx te re io) v
      else wake_all_send (close_fields ch tx rx te re io) v) = (c1, w1)" by fastforce
  have "w' = cc__chan_signal_recv_ready c1 w1"
    using a s by (auto simp: close_common_alt Let_def v_def split: if_splits)
  moreover have "sel_ext w v" by (rule sel_ext_fields) (simp_all add: v_def)
  moreover have "sel_ext v w1"
    using s by (auto split: if_splits dest: wake_all_waiters_ext wake_all_send_ext)
  moreover have "sel_ext w1 (cc__chan_signal_recv_ready c1 w1)"
    by (rule sel_ext_fields) (simp_all add: cc__chan_signal_recv_ready_def)
  ultimately show ?thesis by (blast intro: sel_ext_trans)
qed

lemma chan_activity_ext: "chan_activity w w' \<Longrightarrow> sel_ext w w'"
proof (induction rule: chan_activity.induct)
  case (act_wake_send w w1 ch ch' w')
  then show ?case
    by (auto simp: cc__chan_wake_one_send_waiter_def split: if_splits prod.splits
        dest: wake_one_send_list_ext intro: sel_ext_trans)
next
  case (act_close w w1 ch tx rx te re io ch' w')
  then show ?case by (blast dest: close_common_ext intro: sel_ext_trans)
qed (auto simp: cc__chan_add_send_waiter_def cc__chan_add_recv_waiter_def cc__chan_pop_send_waiter_def
      cc__chan_pop_recv_waiter_def split: prod.splits
      dest!: pop_send_list_ext pop_recv_list_ext signal_recv_ext intro: sel_ext_trans)

text \<open>The receive or send queue of a channel hands out a node, to be completed by the caller.\<close>

definition claim :: "bool \<Rightarrow> chan \<Rightarrow> world \<Rightarrow> world \<times> nat option" where
  "claim recv ch w =
    (if recv then (case cc__chan_pop_recv_waiter ch w of (_, w', r) \<Rightarrow> (w', r))
     else (case cc__chan_pop_send_waiter ch w of (_, w', r) \<Rightarrow> (w', r)))"

lemma claim_win:
  assumes "claim b ch w = (w', r)"
  shows "sel_ext w w'" "r = Some n \<Longrightarrow> select_of w n = Some g \<Longrightarrow> sel_index w' g = int (select_index (node w n))"
proof -
  obtain c1 w1 r1 where 1: "pop_recv_list (recv_waiters ch) ch w = (c1, w1, r1)" by (metis prod_cases3)
  obtain c2 w2 r2 where 2: "pop_send_list (send_waiters ch) w = (c2, w2, r2)" by (metis prod_cases3)
  show "sel_ext w w'" "r = Some n \<Longrightarrow> select_of w n = Some g \<Longrightarrow> sel_index w' g = int (select_index (node w n))"
    using assms 1 2 pop_recv_list_ext [OF 1] pop_send_list_ext [OF 2]
    by (auto simp: claim_def cc__chan_pop_recv_waiter_def cc__chan_pop_send_waiter_def split: if_splits)
qed


text \<open>Two cases of one select wait in two channels; case 1 is taken first.\<close>

definition demo_select :: world where
  "demo_select = demo_world\<lparr>ticket := (\<lambda>_. 5), node := (\<lambda>n. (node demo_world n)\<lparr>nfiber := Some 0,
     nticket := 5, select_group := Some 7, select_index := n, is_select := True\<rparr>)\<rparr>"

definition demo_two :: "chan \<times> chan \<times> world" where
  "demo_two =
    (let (c, w) = cc__chan_add_recv_waiter (cc_chan_create 0 False) demo_select 1;
         (d, w) = cc__chan_add_recv_waiter (cc_chan_create 0 False) w 2
     in (c, d, w))"


end
