(* ===== verification/Chan_Ops.thy ===== *)
theory Chan_Ops
  imports Channel
begin

text \<open>
  Channel operations (channel.c): the mutex-protected buffer, the lock-free
  wrappers, the drain-on-close resolver, the non-blocking send and receive, the
  rendezvous of unbuffered channels as start and resume steps, publication of
  a select waiter, and the non-blocking match over several channels.  A call that never
  returns by itself (it waits for another thread) has the outcome Blocks.
\<close>

section \<open>Outcomes and notification\<close>

datatype 'a outcome = Returns 'a | Blocks

definition topo_1_1 :: "chan \<Rightarrow> bool" where
  "topo_1_1 ch = (topology ch = TOPO_1_1)"

definition cc__chan_post_enqueue_notify :: "chan \<Rightarrow> world \<Rightarrow> chan \<times> world" where
  "cc__chan_post_enqueue_notify ch w =
    (case cc__chan_signal_recv_waiter ch w of (ch, w) \<Rightarrow>
       (ch, cc__chan_signal_recv_ready ch (w\<lparr>sig_not_empty := sig_not_empty w + 1\<rparr>)))"

definition cc__chan_post_dequeue_notify :: "chan \<Rightarrow> world \<Rightarrow> chan \<times> world" where
  "cc__chan_post_dequeue_notify ch w =
    (case cc__chan_wake_one_send_waiter ch w of (ch, w) \<Rightarrow>
       (ch, w\<lparr>sig_not_full := sig_not_full w + 1\<rparr>))"

definition cc__chan_dekker_wake_recv_before_park :: "chan \<Rightarrow> world \<Rightarrow> chan \<times> world" where
  "cc__chan_dekker_wake_recv_before_park ch w =
    (case cc__chan_signal_recv_waiter ch w of (ch, w) \<Rightarrow>
       (ch, w\<lparr>sig_not_empty := sig_not_empty w + 1\<rparr>))"

definition cc__chan_dekker_wake_send_before_park :: "chan \<Rightarrow> world \<Rightarrow> chan \<times> world" where
  "cc__chan_dekker_wake_send_before_park ch w =
    (case cc__chan_wake_one_send_waiter ch w of (ch, w) \<Rightarrow>
       (ch, w\<lparr>sig_not_full := sig_not_full w + 1\<rparr>))"

section \<open>The mutex-protected buffer\<close>

definition cc_chan_enqueue :: "chan \<Rightarrow> world \<Rightarrow> bytes \<Rightarrow> chan \<times> world" where
  "cc_chan_enqueue ch w v =
    (if cap ch = 0
     then (case cc__chan_signal_recv_waiter ((channel_store_slot ch 0 v)\<lparr>rv_has_value := True\<rparr>)
                 (w\<lparr>sig_not_empty := sig_not_empty w + 1\<rparr>) of
             (ch, w) \<Rightarrow> (ch, cc__chan_signal_recv_ready ch w))
     else ((channel_store_slot ch (tail ch) v)\<lparr>tail := (tail ch + 1) mod cap ch, count := count ch + 1\<rparr>, w))"

definition cc_chan_dequeue :: "chan \<Rightarrow> world \<Rightarrow> chan \<times> world \<times> bytes" where
  "cc_chan_dequeue ch w =
    (if cap ch = 0
     then (let v = channel_load_slot ch 0; ch = ch\<lparr>rv_has_value := False\<rparr>;
               (ch, w) = (if send_waiters ch \<noteq> [] then cc__chan_wake_one_send_waiter ch w else (ch, w))
           in (ch, w\<lparr>sig_not_full := sig_not_full w + 1\<rparr>, v))
     else (ch\<lparr>head := (head ch + 1) mod cap ch, count := count ch - 1\<rparr>, w,
           channel_load_slot ch (head ch)))"

text \<open>None: the code waits for space (\<^verbatim>\<open>cc_chan_wait_full\<close> without a deadline).\<close>

definition cc_chan_handle_full_send :: "chan \<Rightarrow> (chan \<times> errno) option" where
  "cc_chan_handle_full_send ch =
    (case mode ch of
       MODE_BLOCK \<Rightarrow> None
     | MODE_DROP_NEW \<Rightarrow> Some (ch, EAGAIN)
     | MODE_DROP_OLD \<Rightarrow> Some (ch\<lparr>head := (head ch + 1) mod cap ch, count := count ch - 1\<rparr>, 0))"

definition cc__chan_enqueue_mutex_minimal :: "chan \<Rightarrow> world \<Rightarrow> bytes \<Rightarrow> chan \<times> world \<times> errno" where
  "cc__chan_enqueue_mutex_minimal ch w v =
    (if closed ch then (ch, w, cc__chan_send_close_errno ch)
     else if rx_error_closed ch then (ch, w, rx_error_code ch)
     else if cap ch \<le> count ch then (ch, w, EAGAIN)
     else (let ch = (channel_store_slot ch (tail ch) v)\<lparr>tail := (tail ch + 1) mod cap ch, count := count ch + 1\<rparr>;
               w = w\<lparr>sig_not_empty := sig_not_empty w + 1\<rparr>;
               (ch, w) = (if has_recv_waiters ch \<noteq> 0 then cc__chan_signal_recv_waiter ch w else (ch, w))
           in (ch, cc__chan_signal_recv_ready ch w, 0)))"

definition cc__chan_dequeue_mutex_minimal :: "chan \<Rightarrow> world \<Rightarrow> chan \<times> world \<times> errno \<times> bytes option" where
  "cc__chan_dequeue_mutex_minimal ch w =
    (if count ch = 0 then (ch, w, EAGAIN, None)
     else (let v = channel_load_slot ch (head ch);
               ch = ch\<lparr>head := (head ch + 1) mod cap ch, count := count ch - 1\<rparr>;
               w = w\<lparr>sig_not_full := sig_not_full w + 1\<rparr>;
               (ch, w) = (if has_send_waiters ch then cc__chan_wake_one_send_waiter ch w else (ch, w))
           in (ch, w, 0, Some v)))"

section \<open>Lock-free access\<close>

definition cc__chan_try_enqueue_lockfree_impl :: "chan \<Rightarrow> bytes \<Rightarrow> (chan \<times> errno) option" where
  "cc__chan_try_enqueue_lockfree_impl ch v =
    (if \<not> use_lockfree ch \<or> cap ch = 0 \<or> \<not> buf_ready ch then Some (ch, EAGAIN)
     else case cc__queue_enqueue_value (topo_1_1 ch) ch v of
       None \<Rightarrow> None
     | Some (ch, ok) \<Rightarrow> Some (ch, if ok then 0 else EAGAIN))"

definition cc_chan_try_dequeue_lockfree :: "chan \<Rightarrow> (chan \<times> bytes option) option" where
  "cc_chan_try_dequeue_lockfree ch =
    (if \<not> use_lockfree ch \<or> cap ch = 0 \<or> \<not> buf_ready ch then Some (ch, None)
     else cc__queue_dequeue_value (topo_1_1 ch) ch)"

definition cc__chan_post_lockfree_dequeue_signal_senders :: "chan \<Rightarrow> world \<Rightarrow> chan \<times> world" where
  "cc__chan_post_lockfree_dequeue_signal_senders ch w =
    (if \<not> has_send_waiters ch then (ch, w)
     else case cc__chan_wake_one_send_waiter ch w of (ch, w) \<Rightarrow>
       (ch, w\<lparr>sig_not_full := sig_not_full w + 1\<rparr>))"

definition cc__chan_recv_wake_budget :: "int \<Rightarrow> chan \<Rightarrow> nat" where
  "cc__chan_recv_wake_budget target ch = nat (target - recv_wake_inflight ch)"

text \<open>The target is the value of \<^verbatim>\<open>cc__chan_recv_wake_target\<close>, one unless configured.\<close>

definition cc__chan_post_lockfree_enqueue_signal_receivers ::
  "int \<Rightarrow> chan \<Rightarrow> world \<Rightarrow> chan \<times> world" where
  "cc__chan_post_lockfree_enqueue_signal_receivers target ch w =
    (let fiber_waiters = has_recv_waiters ch; thread_waiters = thread_recv_waiters ch;
         poke = (if recv_signal ch then w\<lparr>recv_pokes := recv_pokes w + 1\<rparr> else w) in
     if fiber_waiters = 0 \<and> thread_waiters = 0 then (ch, poke)
     else if fiber_waiters \<noteq> 0 \<and> thread_waiters = 0 \<and> target \<le> recv_wake_inflight ch then (ch, poke)
     else
      (let (ch, w) =
             (if fiber_waiters \<noteq> 0 \<and> 0 < cc__chan_recv_wake_budget target ch
              then cc__chan_signal_recv_waiters ch w (cc__chan_recv_wake_budget target ch)
              else (ch, w));
           w = (if thread_waiters \<noteq> 0 then w\<lparr>sig_not_empty := sig_not_empty w + 1\<rparr> else w)
       in (ch, cc__chan_signal_recv_ready ch w)))"

section \<open>Receiving from a closed channel\<close>

datatype resolve = Resolved chan errno "bytes option" | Retry chan | Stuck

definition resolve_empty :: "chan \<Rightarrow> resolve" where
  "resolve_empty ch =
    (case cc_chan_try_dequeue_lockfree ch of
       None \<Rightarrow> Stuck
     | Some (ch, Some v) \<Rightarrow> Resolved ch 0 (Some v)
     | Some (ch, None) \<Rightarrow>
         (if ring_tail ch \<noteq> ring_head ch then Retry ch else Resolved ch (recv_close_errno ch) None))"

primrec resolve_pause :: "nat \<Rightarrow> chan \<Rightarrow> resolve" where
  "resolve_pause 0 ch = Retry ch"
| "resolve_pause (Suc budget) ch =
    (case cc_chan_try_dequeue_lockfree ch of
       None \<Rightarrow> Stuck
     | Some (ch, Some v) \<Rightarrow> Resolved ch 0 (Some v)
     | Some (ch, None) \<Rightarrow>
         (if ring_tail ch = ring_head ch then resolve_empty ch else resolve_pause budget ch))"

text \<open>The last argument tells whether the deadline, if any, has expired.\<close>

partial_function (option) resolve_loop ::
  "bool \<Rightarrow> bool \<Rightarrow> chan \<Rightarrow> (chan \<times> errno \<times> bytes option) option" where
  "resolve_loop try_only expired ch =
    (case cc_chan_try_dequeue_lockfree ch of
       None \<Rightarrow> None
     | Some (ch, Some v) \<Rightarrow> Some (ch, 0, Some v)
     | Some (ch, None) \<Rightarrow>
         (if ring_tail ch = ring_head ch
          then (case resolve_empty ch of
                  Resolved ch rc v \<Rightarrow> Some (ch, rc, v)
                | Retry ch \<Rightarrow> resolve_loop try_only expired ch
                | Stuck \<Rightarrow> None)
          else (case resolve_pause 1024 ch of
                  Resolved ch rc v \<Rightarrow> Some (ch, rc, v)
                | Retry ch \<Rightarrow>
                    (if try_only then Some (ch, EAGAIN, None)
                     else if expired then Some (ch, ETIMEDOUT, None)
                     else resolve_loop try_only expired ch)
                | Stuck \<Rightarrow> None)))"

definition cc__chan_recv_resolve_closed ::
  "chan \<Rightarrow> bool \<Rightarrow> bool \<Rightarrow> (chan \<times> errno \<times> bytes option) option" where
  "cc__chan_recv_resolve_closed ch try_only expired =
    (if \<not> use_lockfree ch \<or> cap ch = 0 then Some (ch, recv_close_errno ch, None)
     else resolve_loop try_only expired ch)"

section \<open>Rendezvous helpers\<close>

definition store_node_data :: "world \<Rightarrow> nat \<Rightarrow> bytes \<Rightarrow> world" where
  "store_node_data w n v = w\<lparr>node := (node w)(n := (node w n)\<lparr>ndata := v\<rparr>)\<rparr>"

definition cc__chan_finish_send_to_recv_waiter :: "chan \<Rightarrow> world \<Rightarrow> nat \<Rightarrow> bytes \<Rightarrow> chan \<times> world" where
  "cc__chan_finish_send_to_recv_waiter ch w n v =
    (let w = notify_node (store_node_data w n (take (elem_size ch) v)) n NOTIFY_DATA
     in (ch\<lparr>rv_recv_waiters := (if 0 < rv_recv_waiters ch then rv_recv_waiters ch - 1 else rv_recv_waiters ch)\<rparr>,
         if nfiber (node w n) = None then w\<lparr>sig_not_empty := sig_not_empty w + 1\<rparr> else w))"

definition cc__chan_finish_recv_from_send_waiter :: "chan \<Rightarrow> world \<Rightarrow> nat \<Rightarrow> world \<times> bytes" where
  "cc__chan_finish_recv_from_send_waiter ch w n =
    (let v = take (elem_size ch) (ndata (node w n)); w = notify_node w n NOTIFY_DATA
     in (if nfiber (node w n) = None then w\<lparr>sig_not_full := sig_not_full w + 1\<rparr> else w, v))"

text \<open>Result: an error, or whether the value was handed to a parked receiver.\<close>

definition cc__chan_try_direct_handoff_recv_waiter_buffered ::
  "chan \<Rightarrow> world \<Rightarrow> bytes \<Rightarrow> chan \<times> world \<times> (errno + bool)" where
  "cc__chan_try_direct_handoff_recv_waiter_buffered ch w v =
    (if closed ch then (ch, w, Inl EPIPE)
     else if rx_error_closed ch then (ch, w, Inl (rx_error_code ch))
     else case cc__chan_pop_recv_waiter ch w of
       (ch, w, None) \<Rightarrow> (ch, w, Inr False)
     | (ch, w, Some n) \<Rightarrow>
         (case cc__chan_finish_send_to_recv_waiter ch w n v of (ch, w) \<Rightarrow>
            (ch, cc__chan_signal_recv_ready ch w, Inr True)))"

section \<open>Non-blocking send and receive\<close>

definition try_send_notify :: "chan \<Rightarrow> world \<Rightarrow> chan \<times> world" where
  "try_send_notify ch w =
    (if has_recv_waiters ch \<noteq> 0 \<or> thread_recv_waiters ch \<noteq> 0
     then (case cc__chan_signal_recv_waiter ch w of (ch', w) \<Rightarrow>
             (ch', cc__chan_signal_recv_ready ch'
                (if thread_recv_waiters ch \<noteq> 0 then w\<lparr>sig_not_empty := sig_not_empty w + 1\<rparr> else w)))
     else (ch, if recv_signal ch then w\<lparr>recv_pokes := recv_pokes w + 1\<rparr> else w))"

definition try_send_lockfree :: "chan \<Rightarrow> world \<Rightarrow> bytes \<Rightarrow> (chan \<times> world \<times> errno) outcome" where
  "try_send_lockfree ch w v =
    (case cc__chan_try_enqueue_lockfree_impl ch v of
       None \<Rightarrow> Blocks
     | Some (ch, rc) \<Rightarrow>
         (if rc = 0 then (case try_send_notify ch w of (ch, w) \<Rightarrow> Returns (ch, w, 0))
          else Returns (ch, w, EAGAIN)))"

definition try_send_mutex :: "chan \<Rightarrow> world \<Rightarrow> bytes \<Rightarrow> (chan \<times> world \<times> errno) outcome" where
  "try_send_mutex ch w v =
    (let go = (\<lambda>ch. case cc_chan_enqueue ch w v of (ch, w) \<Rightarrow>
                 (case cc__chan_post_enqueue_notify ch w of (ch, w) \<Rightarrow> Returns (ch, w, 0)))
     in if count ch = cap ch
        then (case cc_chan_handle_full_send ch of
                None \<Rightarrow> Blocks
              | Some (ch, e) \<Rightarrow> (if e \<noteq> 0 then Returns (ch, w, e) else go ch))
        else go ch)"

definition try_send_rendezvous :: "chan \<Rightarrow> world \<Rightarrow> bytes \<Rightarrow> chan \<times> world \<times> errno" where
  "try_send_rendezvous ch w v =
    (case cc__chan_pop_recv_waiter ch w of
       (ch, w, None) \<Rightarrow>
         (ch, w, if rx_error_closed ch then rx_error_code ch
                 else if closed ch then cc__chan_send_close_errno ch else EAGAIN)
     | (ch, w, Some n) \<Rightarrow>
         (case cc__chan_finish_send_to_recv_waiter ch w n v of (ch, w) \<Rightarrow>
            (ch, cc__chan_signal_recv_ready ch w, 0)))"

definition cc_chan_try_send ::
  "bool \<Rightarrow> chan \<Rightarrow> world \<Rightarrow> bytes \<Rightarrow> nat \<Rightarrow> (chan \<times> world \<times> errno) outcome" where
  "cc_chan_try_send mem ch w v vs =
    (if vs = 0 then Returns (ch, w, EINVAL)
     else if use_lockfree ch \<and> 0 < cap ch \<and> elem_size ch = vs \<and> buf_ready ch
     then (if closed ch then Returns (ch, w, cc__chan_send_close_errno ch)
           else if rx_error_closed ch then Returns (ch, w, rx_error_code ch)
           else try_send_lockfree ch w v)
     else if cap ch = 0 \<and> closed ch then Returns (ch, w, cc__chan_send_close_errno ch)
     else if rx_error_closed ch then Returns (ch, w, rx_error_code ch)
     else case cc_chan_ensure_buf mem ch vs of (ch, e) \<Rightarrow>
       (if e \<noteq> 0 then Returns (ch, w, e)
        else if closed ch then Returns (ch, w, cc__chan_send_close_errno ch)
        else if rx_error_closed ch then Returns (ch, w, rx_error_code ch)
        else if cap ch = 0 then Returns (try_send_rendezvous ch w v)
        else if use_lockfree ch then try_send_lockfree ch w v
        else try_send_mutex ch w v))"

definition try_recv_rendezvous :: "chan \<Rightarrow> world \<Rightarrow> chan \<times> world \<times> errno \<times> bytes option" where
  "try_recv_rendezvous ch w =
    (case cc__chan_pop_send_waiter ch w of
       (ch, w, None) \<Rightarrow> (ch, w, if closed ch then recv_close_errno ch else EAGAIN, None)
     | (ch, w, Some n) \<Rightarrow>
         (case cc__chan_finish_recv_from_send_waiter ch w n of (w, v) \<Rightarrow> (ch, w, 0, Some v)))"

definition cc_chan_try_recv ::
  "bool \<Rightarrow> chan \<Rightarrow> world \<Rightarrow> nat \<Rightarrow> (chan \<times> world \<times> errno \<times> bytes option) outcome" where
  "cc_chan_try_recv mem ch w vs =
    (if vs = 0 then Returns (ch, w, EINVAL, None)
     else if use_lockfree ch \<and> 0 < cap ch \<and> elem_size ch = vs \<and> buf_ready ch
     then (case cc_chan_try_dequeue_lockfree ch of
             None \<Rightarrow> Blocks
           | Some (ch, Some v) \<Rightarrow>
               (case (if has_send_waiters ch then cc__chan_post_dequeue_notify ch w else (ch, w)) of
                  (ch, w) \<Rightarrow> Returns (ch, w, 0, Some v))
           | Some (ch, None) \<Rightarrow>
               (if closed ch
                then (case cc__chan_recv_resolve_closed ch True False of
                        None \<Rightarrow> Blocks
                      | Some (ch, rc, out) \<Rightarrow> Returns (ch, w, rc, out))
                else Returns (ch, w, EAGAIN, None)))
     else case cc_chan_ensure_buf mem ch vs of (ch, e) \<Rightarrow>
       (if e \<noteq> 0 then Returns (ch, w, e, None)
        else if cap ch = 0 then Returns (try_recv_rendezvous ch w)
        else if use_lockfree ch
        then (case cc_chan_try_dequeue_lockfree ch of
                None \<Rightarrow> Blocks
              | Some (ch, Some v) \<Rightarrow>
                  (case cc__chan_post_dequeue_notify ch w of (ch, w) \<Rightarrow> Returns (ch, w, 0, Some v))
              | Some (ch, None) \<Rightarrow>
                  Returns (ch, w, if closed ch then cc__chan_send_close_errno ch else EAGAIN, None))
        else if count ch = 0
        then Returns (ch, w, if closed ch then cc__chan_send_close_errno ch else EAGAIN, None)
        else (case cc_chan_dequeue ch w of (ch, w, v) \<Rightarrow>
                (case cc__chan_post_dequeue_notify ch w of (ch, w) \<Rightarrow> Returns (ch, w, 0, Some v)))))"

section \<open>Blocking rendezvous of fibers\<close>

text \<open>
  The blocking operations on an unbuffered channel without a deadline, called in a fiber:
  a start step runs up to the point where the fiber parks, a resume step runs
  after the fiber was woken.
\<close>

datatype 'a progress = Finished 'a | Parked

definition init_node :: "world \<Rightarrow> nat \<Rightarrow> nat \<Rightarrow> bytes \<Rightarrow> world" where
  "init_node w n f v = w\<lparr>node := (node w)(n :=
     \<lparr>nfiber = Some f, nticket = 0, ndata = v, notified = NOTIFY_NONE, select_group = None,
      select_index = 0, is_select = False, in_wait_list = False\<rparr>)\<rparr>"

definition pop_recv_if_any :: "chan \<Rightarrow> world \<Rightarrow> chan \<times> world \<times> nat option" where
  "pop_recv_if_any ch w = (if recv_waiters ch \<noteq> [] then cc__chan_pop_recv_waiter ch w else (ch, w, None))"

definition pop_send_if_any :: "chan \<Rightarrow> world \<Rightarrow> chan \<times> world \<times> nat option" where
  "pop_send_if_any ch w = (if send_waiters ch \<noteq> [] then cc__chan_pop_send_waiter ch w else (ch, w, None))"

definition handoff_send :: "chan \<Rightarrow> world \<Rightarrow> nat \<Rightarrow> bytes \<Rightarrow> chan \<times> world \<times> errno progress" where
  "handoff_send ch w r v =
    (case cc__chan_finish_send_to_recv_waiter ch w r v of (ch, w) \<Rightarrow>
       (ch, cc__chan_signal_recv_ready ch w, Finished 0))"

text \<open>One iteration of the inner wait loop of a sender, up to the park.\<close>

definition send_wait_step :: "chan \<Rightarrow> world \<Rightarrow> nat \<Rightarrow> bytes \<Rightarrow> chan \<times> world \<times> errno progress" where
  "send_wait_step ch w n v =
    (case pop_recv_if_any ch w of
       (ch, w, Some r) \<Rightarrow>
         (case cc__chan_remove_send_waiter ch w n of (ch, w) \<Rightarrow> handoff_send ch w r v)
     | (ch, w, None) \<Rightarrow> (ch, w, Parked))"

definition send_unbuffered_start ::
  "chan \<Rightarrow> world \<Rightarrow> nat \<Rightarrow> nat \<Rightarrow> bytes \<Rightarrow> chan \<times> world \<times> errno progress" where
  "send_unbuffered_start ch w f n v =
    (if closed ch \<or> rx_error_closed ch
     then (ch, w, Finished (if rx_error_closed ch then rx_error_code ch else EPIPE))
     else case pop_recv_if_any ch w of
       (ch, w, Some r) \<Rightarrow> handoff_send ch w r v
     | (ch, w, None) \<Rightarrow>
         (case cc__chan_add_send_waiter ch (init_node w n f v) n of (ch, w) \<Rightarrow>
            send_wait_step ch w n v))"

definition send_unbuffered_resume ::
  "chan \<Rightarrow> world \<Rightarrow> nat \<Rightarrow> nat \<Rightarrow> bytes \<Rightarrow> chan \<times> world \<times> errno progress" where
  "send_unbuffered_resume ch w f n v =
    (let k = notified (node w n) in
     if k = NOTIFY_DATA then (ch, w, Finished 0)
     else if \<not> closed ch \<and> \<not> rx_error_closed ch \<and> k = NOTIFY_NONE then send_wait_step ch w n v
     else if k = NOTIFY_SIGNAL
     then (case cc__chan_remove_send_waiter ch (set_notified w n NOTIFY_NONE) n of (ch, w) \<Rightarrow>
             send_unbuffered_start ch w f n v)
     else case cc__chan_remove_send_waiter ch w n of (ch, w) \<Rightarrow>
       (if k = NOTIFY_CLOSE
        then (ch, w, Finished (if rx_error_closed ch then rx_error_code ch else cc__chan_send_close_errno ch))
        else if rx_error_closed ch then (ch, w, Finished (rx_error_code ch))
        else if closed ch then (ch, w, Finished (cc__chan_send_close_errno ch))
        else send_unbuffered_start ch w f n v))"

definition recv_unbuffered_start ::
  "chan \<Rightarrow> world \<Rightarrow> nat \<Rightarrow> nat \<Rightarrow> chan \<times> world \<times> (errno \<times> bytes option) progress" where
  "recv_unbuffered_start ch w f n =
    (if closed ch then (ch, w, Finished (recv_close_errno ch, None))
     else case pop_send_if_any ch w of
       (ch, w, Some s) \<Rightarrow>
         (case cc__chan_finish_recv_from_send_waiter ch w s of (w, v) \<Rightarrow>
            (ch, cc__chan_signal_recv_ready ch w, Finished (0, Some v)))
     | (ch, w, None) \<Rightarrow>
         (case cc__chan_add_recv_waiter (ch\<lparr>rv_recv_waiters := rv_recv_waiters ch + 1\<rparr>) (init_node w n f []) n of
            (ch, w) \<Rightarrow> (ch, w, Parked)))"

definition rv_recv_dec :: "chan \<Rightarrow> chan" where
  "rv_recv_dec ch = (if 0 < rv_recv_waiters ch then ch\<lparr>rv_recv_waiters := rv_recv_waiters ch - 1\<rparr> else ch)"

definition recv_unbuffered_resume ::
  "chan \<Rightarrow> world \<Rightarrow> nat \<Rightarrow> nat \<Rightarrow> chan \<times> world \<times> (errno \<times> bytes option) progress" where
  "recv_unbuffered_resume ch w f n =
    (let k = notified (node w n) in
     if k = NOTIFY_DATA then (ch, w, Finished (0, Some (ndata (node w n))))
     else if \<not> closed ch \<and> k = NOTIFY_NONE then (ch, w, Parked)
     else case cc__chan_remove_recv_waiter ch w n of (ch, w) \<Rightarrow>
       (let ch = rv_recv_dec ch in
        if k = NOTIFY_SIGNAL then recv_unbuffered_start ch (set_notified w n NOTIFY_NONE) f n
        else if k = NOTIFY_CLOSE \<or> closed ch then (ch, w, Finished (recv_close_errno ch, None))
        else recv_unbuffered_start ch w f n))"

section \<open>Select and match\<close>

datatype wait_status = WAIT_CLOSE | WAIT_DATA "bytes" | WAIT_SIGNAL | WAIT_PUBLISHED

definition cc__chan_publish_recv_wait_select ::
  "chan \<Rightarrow> world \<Rightarrow> nat \<Rightarrow> nat option \<Rightarrow> u64 \<Rightarrow> nat \<Rightarrow> nat \<Rightarrow> chan \<times> world \<times> wait_status" where
  "cc__chan_publish_recv_wait_select ch w n f tick g i =
    (let publish = (\<lambda>ch w.
           (let (w, t) = (if tick \<noteq> 0 then (w, tick)
                          else case f of Some x \<Rightarrow> (w\<lparr>ticket := (ticket w)(x := ticket w x + 1)\<rparr>, ticket w x + 1)
                                       | None \<Rightarrow> (w, 0));
                w = w\<lparr>node := (node w)(n := \<lparr>nfiber = f, nticket = t, ndata = [], notified = NOTIFY_NONE,
                     select_group = Some g, select_index = i, is_select = True, in_wait_list = False\<rparr>)\<rparr>
            in case cc__chan_add_recv_waiter ch w n of (ch, w) \<Rightarrow> (ch, w, WAIT_PUBLISHED)))
     in if closed ch then (ch, w, WAIT_CLOSE)
        else if cap ch = 0
        then (case pop_send_if_any ch w of
                (ch, w, Some s) \<Rightarrow>
                  (case cc__chan_finish_recv_from_send_waiter ch w s of (w, v) \<Rightarrow>
                     (ch, cc__chan_signal_recv_ready ch w, WAIT_DATA v))
              | (ch, w, None) \<Rightarrow> publish ch w)
        else if (if use_lockfree ch then 0 < cc__chan_lf_count ch else 0 < count ch)
        then (ch, w, WAIT_SIGNAL)
        else publish ch w)"

definition cc__chan_finish_recv_wait_select :: "chan \<Rightarrow> world \<Rightarrow> nat \<Rightarrow> chan \<times> world \<times> notify" where
  "cc__chan_finish_recv_wait_select ch w n =
    (let k = notified (node w n) in
     if k = NOTIFY_DATA then (ch, w, k)
     else case cc__chan_remove_recv_waiter ch w n of (ch, w) \<Rightarrow> (ch, w, k))"

record match_case =
  mc_chan :: "nat option"
  mc_is_send :: bool
  mc_buf :: bytes
  mc_elem_size :: nat

text \<open>The channels are a store, since two cases may name the same channel.  A received value
  is written to the buffer of its case.\<close>

definition match_one ::
  "bool \<Rightarrow> (nat \<Rightarrow> chan) \<Rightarrow> world \<Rightarrow> match_case \<Rightarrow>
   ((nat \<Rightarrow> chan) \<times> world \<times> match_case \<times> errno option) outcome" where
  "match_one mem chs w c =
    (case mc_chan c of
       None \<Rightarrow> Returns (chs, w, c, None)
     | Some h \<Rightarrow>
         (if mc_elem_size c = 0 then Returns (chs, w, c, None)
          else if mc_is_send c
          then (case cc_chan_try_send mem (chs h) w (mc_buf c) (mc_elem_size c) of
                  Blocks \<Rightarrow> Blocks
                | Returns (ch, w, rc) \<Rightarrow> Returns (chs(h := ch), w, c, Some rc))
          else (case cc_chan_try_recv mem (chs h) w (mc_elem_size c) of
                  Blocks \<Rightarrow> Blocks
                | Returns (ch, w, rc, out) \<Rightarrow>
                    Returns (chs(h := ch), w,
                      (case out of Some v \<Rightarrow> c\<lparr>mc_buf := v\<rparr> | None \<Rightarrow> c), Some rc))))"

primrec match_scan ::
  "bool \<Rightarrow> nat list \<Rightarrow> (nat \<Rightarrow> chan) \<Rightarrow> world \<Rightarrow> match_case list \<Rightarrow>
   ((nat \<Rightarrow> chan) \<times> world \<times> match_case list \<times> errno \<times> nat option) outcome" where
  "match_scan mem [] chs w cases = Returns (chs, w, cases, EAGAIN, None)"
| "match_scan mem (i # is) chs w cases =
    (case match_one mem chs w (cases ! i) of
       Blocks \<Rightarrow> Blocks
     | Returns (chs, w, c, rc) \<Rightarrow>
         (let cases = cases[i := c] in
          if rc = Some 0 then Returns (chs, w, cases, 0, Some i)
          else if rc = Some EPIPE then Returns (chs, w, cases, EPIPE, Some i)
          else match_scan mem is chs w cases))"

definition cc__chan_match_try_from ::
  "bool \<Rightarrow> (nat \<Rightarrow> chan) \<Rightarrow> world \<Rightarrow> match_case list \<Rightarrow> nat \<Rightarrow>
   ((nat \<Rightarrow> chan) \<times> world \<times> match_case list \<times> errno \<times> nat option) outcome" where
  "cc__chan_match_try_from mem chs w cases start =
    (if cases = [] then Returns (chs, w, cases, EINVAL, None)
     else match_scan mem (map (\<lambda>k. (start + k) mod length cases) [0..<length cases]) chs w cases)"

definition cc_chan_match_try ::
  "bool \<Rightarrow> (nat \<Rightarrow> chan) \<Rightarrow> world \<Rightarrow> match_case list \<Rightarrow>
   ((nat \<Rightarrow> chan) \<times> world \<times> match_case list \<times> errno \<times> nat option) outcome" where
  "cc_chan_match_try mem chs w cases = cc__chan_match_try_from mem chs w cases 0"

definition cc__chan_match_resolve_close ::
  "(nat \<Rightarrow> chan) \<Rightarrow> match_case \<Rightarrow> (chan option \<times> errno \<times> bytes option) option" where
  "cc__chan_match_resolve_close chs c =
    (case mc_chan c of
       None \<Rightarrow> Some (None, EPIPE, None)
     | Some h \<Rightarrow>
         (if \<not> mc_is_send c \<and> 0 < mc_elem_size c
          then (case cc__chan_recv_resolve_closed (chs h) False False of
                  None \<Rightarrow> None | Some (ch, rc, out) \<Rightarrow> Some (Some ch, rc, out))
          else Some (Some (chs h), cc__chan_send_close_errno (chs h), None)))"

section \<open>What waking waiters leaves alone\<close>

text \<open>Wake-ups change the waiter queues, their counters and the hint, and nothing else of a channel.\<close>

definition chan_core :: "chan \<Rightarrow> chan" where
  "chan_core ch = ch\<lparr>has_recv_waiters := 0, recv_wake_inflight := 0, recv_signal_hint := None,
     send_waiters := [], has_send_waiters := False, recv_waiters := []\<rparr>"

definition quiet :: "chan \<Rightarrow> chan \<Rightarrow> bool" where
  "quiet ch ch' = (chan_core ch' = chan_core ch)"

lemma quiet_refl [simp]: "quiet ch ch"
  by (simp add: quiet_def)

lemma quiet_trans: "quiet a b \<Longrightarrow> quiet b c \<Longrightarrow> quiet a c"
  by (simp add: quiet_def)

lemma quiet_intros:
  "quiet ch (ch\<lparr>recv_signal_hint := h\<rparr>)" "quiet ch (recv_count_dec ch)"
  "quiet ch (ch\<lparr>recv_wake_inflight := x\<rparr>)" "quiet ch (ch\<lparr>send_waiters := ns\<rparr>)"
  "quiet ch (ch\<lparr>has_send_waiters := y\<rparr>)" "quiet ch (recv_inflight_dec ch)"
  "quiet ch (drop_recv_head ch n ns)"
  by (simp_all add: quiet_def chan_core_def recv_count_dec_def recv_inflight_dec_def drop_recv_head_def
      cc__chan_recv_signal_hint_advance_def Let_def)

lemma chan_core_simps:
  "cap (chan_core ch) = cap ch" "elem_size (chan_core ch) = elem_size ch" "buf (chan_core ch) = buf ch"
  "lfqueue_cap (chan_core ch) = lfqueue_cap ch" "ring_head (chan_core ch) = ring_head ch"
  "ring_tail (chan_core ch) = ring_tail ch" "cell_seq (chan_core ch) = cell_seq ch"
  "cell_value (chan_core ch) = cell_value ch" "buf_ready (chan_core ch) = buf_ready ch"
  "count (chan_core ch) = count ch" "head (chan_core ch) = head ch" "tail (chan_core ch) = tail ch"
  "closed (chan_core ch) = closed ch" "rx_error_closed (chan_core ch) = rx_error_closed ch"
  "tx_error_code (chan_core ch) = tx_error_code ch" "rx_error_code (chan_core ch) = rx_error_code ch"
  "mode (chan_core ch) = mode ch" "topology (chan_core ch) = topology ch"
  "use_lockfree (chan_core ch) = use_lockfree ch" "recv_signal (chan_core ch) = recv_signal ch"
  by (simp_all add: chan_core_def)

lemma quietD:
  assumes "quiet ch ch'"
  shows "cap ch' = cap ch" "elem_size ch' = elem_size ch" "buf ch' = buf ch" "lfqueue_cap ch' = lfqueue_cap ch"
    "ring_head ch' = ring_head ch" "ring_tail ch' = ring_tail ch" "cell_seq ch' = cell_seq ch"
    "cell_value ch' = cell_value ch" "buf_ready ch' = buf_ready ch" "count ch' = count ch" "head ch' = head ch"
    "tail ch' = tail ch" "closed ch' = closed ch" "rx_error_closed ch' = rx_error_closed ch"
    "tx_error_code ch' = tx_error_code ch" "rx_error_code ch' = rx_error_code ch" "mode ch' = mode ch"
    "topology ch' = topology ch" "use_lockfree ch' = use_lockfree ch" "recv_signal ch' = recv_signal ch"
  using assms unfolding quiet_def by (metis chan_core_simps)+

lemma signal_pass_quiet: "signal_pass L b ch w = (ch', w', b', r) \<Longrightarrow> quiet ch ch'"
proof (induction L arbitrary: b ch w)
  case (Cons n ns)
  obtain w1 x where win: "cc__chan_select_try_win w n = (w1, x)" by fastforce
  have 1: "quiet ch (recv_count_dec ch)" by (rule quiet_intros)
  have 2: "quiet ch ((recv_count_dec ch)\<lparr>recv_wake_inflight := recv_wake_inflight ch + 1\<rparr>)"
    by (rule quiet_trans [OF 1 quiet_intros(3)])
  show ?case
    using Cons.prems win 2 Cons.IH quiet_trans [OF 1] quiet_trans [OF 2]
    by (auto simp: Let_def split: if_splits bool.splits)
qed simp

lemma signal_quiet: "cc__chan_signal_recv_waiters ch w k = (ch', w') \<Longrightarrow> quiet ch ch'"
  by (auto simp: cc__chan_signal_recv_waiters_def Let_def split: if_splits prod.splits option.splits
      dest!: signal_pass_quiet intro: quiet_trans quiet_intros(1))

lemma wake_send_quiet: "cc__chan_wake_one_send_waiter ch w = (ch', w') \<Longrightarrow> quiet ch ch'"
  by (auto simp: cc__chan_wake_one_send_waiter_def cc__chan_refresh_has_send_waiters_def
      split: if_splits prod.splits intro: quiet_trans [OF quiet_intros(4) quiet_intros(5)])

lemma pop_recv_quiet: "pop_recv_list L ch w = (ch', w', r) \<Longrightarrow> quiet ch ch'"
proof (induction L arbitrary: ch w)
  case (Cons n ns)
  obtain w1 x where win: "cc__chan_select_try_win w n = (w1, x)" by fastforce
  have 1: "quiet ch (drop_recv_head ch n ns)" "quiet ch (drop_recv_head (recv_count_dec ch) n ns)"
    "quiet ch (drop_recv_head (recv_inflight_dec ch) n ns)"
    by (blast intro: quiet_intros quiet_trans)+
  show ?case
    using Cons.prems win 1 Cons.IH quiet_trans [OF 1(1)] quiet_trans [OF 1(2)] quiet_trans [OF 1(3)]
    by (auto split: if_splits bool.splits)
qed simp

lemma notify_quiet:
  "cc__chan_post_enqueue_notify ch w = (ch', w') \<Longrightarrow> quiet ch ch'"
  "cc__chan_post_dequeue_notify ch w = (ch', w') \<Longrightarrow> quiet ch ch'"
  "try_send_notify ch w = (ch', w') \<Longrightarrow> quiet ch ch'"
  by (auto simp: cc__chan_post_enqueue_notify_def cc__chan_post_dequeue_notify_def try_send_notify_def
      cc__chan_signal_recv_waiter_def split: prod.splits if_splits dest: signal_quiet wake_send_quiet)

section \<open>The mutex-protected buffer is a bounded list\<close>

definition chan_items :: "chan \<Rightarrow> bytes list" where
  "chan_items ch = map (\<lambda>i. channel_load_slot ch ((head ch + i) mod cap ch)) [0..<count ch]"

definition mutex_ok :: "chan \<Rightarrow> bool" where
  "mutex_ok ch =
    (0 < cap ch \<and> \<not> use_lockfree ch \<and> 0 < elem_size ch \<and> buf_ready ch \<and> count ch \<le> cap ch \<and>
     head ch < cap ch \<and> tail ch = (head ch + count ch) mod cap ch)"

definition is_open :: "chan \<Rightarrow> bool" where
  "is_open ch = (\<not> closed ch \<and> \<not> rx_error_closed ch)"

lemma quiet_items:
  assumes "quiet ch ch'"
  shows "chan_items ch' = chan_items ch" "mutex_ok ch' = mutex_ok ch" "is_open ch' = is_open ch"
  using quietD [OF assms] by (simp_all add: chan_items_def mutex_ok_def is_open_def channel_load_slot_def)

lemma length_chan_items [simp]: "length (chan_items ch) = count ch"
  by (simp add: chan_items_def)

lemma enqueue_items:
  assumes ok: "mutex_ok ch" and room: "count ch < cap ch" and v: "length v = elem_size ch"
  shows "\<exists>ch'. cc_chan_enqueue ch w v = (ch', w) \<and> mutex_ok ch' \<and> chan_items ch' = chan_items ch @ [v] \<and>
    is_open ch' = is_open ch \<and> cap ch' = cap ch \<and> mode ch' = mode ch \<and> elem_size ch' = elem_size ch \<and>
    recv_signal ch' = recv_signal ch"
proof -
  define ch' where "ch' = (channel_store_slot ch (tail ch) v)\<lparr>tail := (tail ch + 1) mod cap ch, count := count ch + 1\<rparr>"
  have F: "cap ch' = cap ch" "use_lockfree ch' = use_lockfree ch" "elem_size ch' = elem_size ch"
    "buf_ready ch' = buf_ready ch" "head ch' = head ch" "count ch' = count ch + 1"
    "tail ch' = (tail ch + 1) mod cap ch" "buf ch' = (buf ch)(tail ch := take (elem_size ch) v)"
    "closed ch' = closed ch" "rx_error_closed ch' = rx_error_closed ch" "mode ch' = mode ch"
    "recv_signal ch' = recv_signal ch"
    by (simp_all add: ch'_def channel_store_slot_def)
  have t: "tail ch = (head ch + count ch) mod cap ch" using ok by (simp add: mutex_ok_def)
  have ne: "(head ch + i) mod cap ch \<noteq> tail ch" if "i < count ch" for i
    using mod_shift_inj [of "head ch" i "cap ch" "count ch"] that room by (auto simp: t)
  have "chan_items ch' = chan_items ch @ [v]"
    using ne v by (simp add: chan_items_def F channel_load_slot_def t [symmetric])
  moreover have "mutex_ok ch'"
    using ok room by (simp add: mutex_ok_def F mod_Suc_eq)
  moreover have "cc_chan_enqueue ch w v = (ch', w)"
    using ok unfolding cc_chan_enqueue_def ch'_def by (simp add: mutex_ok_def)
  ultimately show ?thesis by (intro exI [of _ ch']) (simp add: F is_open_def)
qed

lemma advance_items:
  assumes ok: "mutex_ok ch" and it: "chan_items ch = x # xs"
    and ch': "ch' = ch\<lparr>head := (head ch + 1) mod cap ch, count := count ch - 1\<rparr>"
  shows "mutex_ok ch'" "chan_items ch' = xs" "channel_load_slot ch (head ch) = x" "is_open ch' = is_open ch"
    "count ch' < cap ch'" "cap ch' = cap ch" "mode ch' = mode ch" "elem_size ch' = elem_size ch"
proof -
  obtain n where n: "count ch = Suc n" using it length_chan_items [of ch] by (cases "count ch") auto
  have h: "head ch < cap ch" using ok by (simp add: mutex_ok_def)
  have e: "chan_items ch = channel_load_slot ch (head ch) #
      map (\<lambda>i. channel_load_slot ch ((head ch + Suc i) mod cap ch)) [0..<n]"
    unfolding chan_items_def n by (simp add: upt_conv_Cons map_Suc_upt [symmetric] h o_def del: upt_Suc)
  then show "channel_load_slot ch (head ch) = x" using it by simp
  have "((head ch + 1) mod cap ch + i) mod cap ch = (head ch + Suc i) mod cap ch" for i
    using mod_add_left_eq [of "head ch + 1" "cap ch" i] by simp
  then show "chan_items ch' = xs"
    using e it n by (simp add: ch' chan_items_def channel_load_slot_def)
  show "mutex_ok ch'"
    using ok n by (auto simp: mutex_ok_def ch' mod_simps)
  show "is_open ch' = is_open ch" "count ch' < cap ch'" "cap ch' = cap ch" "mode ch' = mode ch"
    "elem_size ch' = elem_size ch"
    using ok n by (auto simp: is_open_def ch' mutex_ok_def)
qed

lemma ensure_buf_ready: "0 < elem_size ch \<Longrightarrow> cc_chan_ensure_buf mem ch (elem_size ch) = (ch, 0)"
  by (simp add: cc_chan_ensure_buf_def)

text \<open>The abstract channel: a list with a capacity and an overflow policy.\<close>

definition bounded_send :: "chan_mode \<Rightarrow> nat \<Rightarrow> bytes list \<Rightarrow> bytes \<Rightarrow> (bytes list \<times> errno) outcome" where
  "bounded_send md n xs v =
    (if length xs < n then Returns (xs @ [v], 0)
     else case md of
       MODE_BLOCK \<Rightarrow> Blocks
     | MODE_DROP_NEW \<Rightarrow> Returns (xs, EAGAIN)
     | MODE_DROP_OLD \<Rightarrow> Returns (tl xs @ [v], 0))"

definition bounded_recv :: "bytes list \<Rightarrow> bytes list \<times> errno \<times> bytes option" where
  "bounded_recv xs = (case xs of [] \<Rightarrow> ([], EAGAIN, None) | x # ys \<Rightarrow> (ys, 0, Some x))"

lemma enqueue_notify:
  assumes "mutex_ok ch" "count ch < cap ch" "length v = elem_size ch" "is_open ch"
    and "cc_chan_enqueue ch w v = (c1, w1)" "cc__chan_post_enqueue_notify c1 w1 = (c2, w2)"
  shows "mutex_ok c2 \<and> is_open c2 \<and> chan_items c2 = chan_items ch @ [v]"
  using enqueue_items [OF assms(1-3), of w] assms(4-6) quiet_items [OF notify_quiet(1) [OF assms(6)]] by auto

lemma EAGAIN_neq_0 [simp]: "EAGAIN \<noteq> 0" "EPIPE \<noteq> 0" "EPIPE \<noteq> EAGAIN"
  by (simp_all add: EAGAIN_def EPIPE_def)

lemma try_send_mutex_refines:
  assumes ok: "mutex_ok ch" and op: "is_open ch" and v: "length v = elem_size ch"
  shows "case try_send_mutex ch w v of
      Blocks \<Rightarrow> bounded_send (mode ch) (cap ch) (chan_items ch) v = Blocks
    | Returns (ch', w', rc) \<Rightarrow>
        bounded_send (mode ch) (cap ch) (chan_items ch) v = Returns (chan_items ch', rc) \<and>
        mutex_ok ch' \<and> is_open ch'"
proof (cases "count ch = cap ch")
  case False
  then have room: "count ch < cap ch" using ok by (simp add: mutex_ok_def)
  obtain c1 w1 where e: "cc_chan_enqueue ch w v = (c1, w1)" by fastforce
  obtain c2 w2 where n: "cc__chan_post_enqueue_notify c1 w1 = (c2, w2)" by fastforce
  show ?thesis
    using False room enqueue_notify [OF ok room v op e n] by (simp add: try_send_mutex_def e n bounded_send_def)
next
  case True
  then obtain x xs where xs: "chan_items ch = x # xs"
    using ok length_chan_items [of ch] by (cases "chan_items ch") (auto simp: mutex_ok_def)
  show ?thesis
  proof (cases "mode ch")
    case MODE_DROP_OLD
    define c where "c = ch\<lparr>head := (head ch + 1) mod cap ch, count := count ch - 1\<rparr>"
    note A = advance_items [OF ok xs c_def]
    obtain c1 w1 where e: "cc_chan_enqueue c w v = (c1, w1)" by fastforce
    obtain c2 w2 where n: "cc__chan_post_enqueue_notify c1 w1 = (c2, w2)" by fastforce
    have "mutex_ok c2 \<and> is_open c2 \<and> chan_items c2 = chan_items c @ [v]"
      using enqueue_notify [OF A(1,5) _ _ e n] A v op by simp
    moreover have "cc_chan_handle_full_send ch = Some (c, 0)"
      using MODE_DROP_OLD by (simp add: cc_chan_handle_full_send_def c_def)
    ultimately show ?thesis
      using True A(2) e n xs length_chan_items [of ch] MODE_DROP_OLD
      by (simp add: try_send_mutex_def bounded_send_def)
  qed (use True ok op length_chan_items [of ch] in
      \<open>simp_all add: try_send_mutex_def cc_chan_handle_full_send_def bounded_send_def\<close>)
qed

lemma try_recv_mutex:
  assumes ok: "mutex_ok ch"
  shows "\<exists>ch' w'. cc_chan_try_recv mem ch w (elem_size ch) = Returns (ch', w',
      (case chan_items ch of [] \<Rightarrow> (if closed ch then cc__chan_send_close_errno ch else EAGAIN) | x # _ \<Rightarrow> 0),
      (case chan_items ch of [] \<Rightarrow> None | x # _ \<Rightarrow> Some x)) \<and>
    mutex_ok ch' \<and> chan_items ch' = tl (chan_items ch) \<and> is_open ch' = is_open ch \<and> closed ch' = closed ch \<and>
    elem_size ch' = elem_size ch \<and> cc__chan_send_close_errno ch' = cc__chan_send_close_errno ch \<and>
    (chan_items ch = [] \<longrightarrow> ch' = ch \<and> w' = w)"
proof (cases "chan_items ch")
  case Nil
  then have "count ch = 0" using length_chan_items [of ch] by simp
  then show ?thesis
    using ok Nil by (auto simp: cc_chan_try_recv_def mutex_ok_def ensure_buf_ready)
next
  case (Cons x xs)
  define c where "c = ch\<lparr>head := (head ch + 1) mod cap ch, count := count ch - 1\<rparr>"
  note A = advance_items [OF ok Cons c_def]
  obtain c2 w2 where n: "cc__chan_post_dequeue_notify c w = (c2, w2)" by fastforce
  note Q = notify_quiet(2) [OF n]
  have "count ch \<noteq> 0" using Cons length_chan_items [of ch] by auto
  moreover have "cc_chan_dequeue ch w = (c, w, x)"
    using ok A(3) by (simp add: cc_chan_dequeue_def c_def mutex_ok_def)
  ultimately have "cc_chan_try_recv mem ch w (elem_size ch) = Returns (c2, w2, 0, Some x)"
    using ok n by (simp add: cc_chan_try_recv_def mutex_ok_def ensure_buf_ready)
  moreover have "closed c2 = closed ch" "cc__chan_send_close_errno c2 = cc__chan_send_close_errno ch"
    using quietD [OF Q] by (simp_all add: c_def cc__chan_send_close_errno_def)
  ultimately show ?thesis
    using Cons A quiet_items [OF Q] quietD(2) [OF Q] by simp
qed


definition demo_mutex :: chan where
  "demo_mutex = fst (cc_chan_init_elem True (cc_chan_create_mode 2 True MODE_DROP_OLD) 1)"


section \<open>The lock-free buffer inside a channel\<close>

lemma write_cell_more [simp]: "ring.more (write_cell r pos v) = ring.more r"
  by (simp add: write_cell_def channel_store_slot_def Let_def)

lemma read_cell_more [simp]: "ring.more (fst (read_cell r pos)) = ring.more r"
  by (simp add: read_cell_def Let_def)

definition ring_frame :: "'a ring_scheme \<Rightarrow> 'a ring_scheme \<Rightarrow> bool" where
  "ring_frame r r' = (ring.more r' = ring.more r \<and> cap r' = cap r \<and> elem_size r' = elem_size r)"

lemma mpmc_enqueue_frame:
  assumes "mpmc_enqueue_loop r v pos = Some y"
  shows "ring_frame r (fst y)"
proof (rule mpmc_enqueue_loop.raw_induct [where P = "\<lambda>r v pos y. ring_frame r (fst y)", OF _ assms], goal_cases)
  case (1 loop r v pos y)
  show ?case
  proof (cases "\<exists>p. loop r v p = Some y")
    case True
    then show ?thesis using 1(1) by blast
  next
    case False
    then show ?thesis using 1(2) by (auto simp: Let_def ring_frame_def split: if_splits)
  qed
qed

lemma mpmc_dequeue_frame:
  assumes "mpmc_dequeue_loop r pos = Some y"
  shows "ring_frame r (fst y)"
proof (rule mpmc_dequeue_loop.raw_induct [where P = "\<lambda>r pos y. ring_frame r (fst y)", OF _ assms], goal_cases)
  case (1 loop r pos y)
  have "read_cell (r\<lparr>ring_head := pos + 1\<rparr>) pos = (a, b) \<Longrightarrow> ring_frame r a" for a b
    using read_cell_more [of "r\<lparr>ring_head := pos + 1\<rparr>" pos] read_cell_fields [of "r\<lparr>ring_head := pos + 1\<rparr>" pos]
    by (simp add: ring_frame_def)
  then show ?case
  proof (cases "\<exists>p. loop r p = Some y")
    case True
    then show ?thesis using 1(1) by blast
  next
    case False
    then show ?thesis using 1(2) \<open>\<And>a b. read_cell _ _ = (a, b) \<Longrightarrow> ring_frame r a\<close>
      by (auto simp: Let_def ring_frame_def split: if_splits prod.splits)
  qed
qed

lemma queue_frame:
  "cc__queue_enqueue_value b r v = Some (r', x) \<Longrightarrow> ring_frame r r'"
  "cc__queue_dequeue_value b r = Some (r', z) \<Longrightarrow> ring_frame r r'"
  using mpmc_enqueue_frame [of r v "ring_tail r"] mpmc_dequeue_frame [of r "ring_head r"]
  by (auto simp: cc__queue_enqueue_value_def cc__queue_dequeue_value_def cc__ring_enqueue_spsc_value_def
      cc__ring_dequeue_spsc_value_def Let_def ring_frame_def channel_store_slot_def split: if_splits)

lemma frameD:
  fixes ch ch' :: chan
  assumes "ring_frame ch ch'"
  shows "cap ch' = cap ch" "elem_size ch' = elem_size ch" "buf_ready ch' = buf_ready ch"
    "closed ch' = closed ch" "rx_error_closed ch' = rx_error_closed ch" "tx_error_code ch' = tx_error_code ch"
    "rx_error_code ch' = rx_error_code ch" "topology ch' = topology ch" "use_lockfree ch' = use_lockfree ch"
  using assms unfolding ring_frame_def by (cases ch; cases ch'; simp)+

definition lf_room :: "chan \<Rightarrow> nat" where
  "lf_room ch = (if topo_1_1 ch then cap ch else ring_room ch)"

definition lf_ok :: "nat \<Rightarrow> chan \<Rightarrow> bool" where
  "lf_ok n ch = (use_lockfree ch \<and> buf_ready ch \<and> 0 < cap ch \<and> 0 < elem_size ch \<and>
     (if topo_1_1 ch then spsc_ok n ch else mpmc_ok n ch))"

lemma quiet_ring:
  assumes "quiet ch ch'"
  shows "ring_items ch' = ring_items ch" "spsc_ok n ch' = spsc_ok n ch" "mpmc_ok n ch' = mpmc_ok n ch"
    "ring_room ch' = ring_room ch" "topo_1_1 ch' = topo_1_1 ch" "lf_ok n ch' = lf_ok n ch" "lf_room ch' = lf_room ch"
    "cc__chan_send_close_errno ch' = cc__chan_send_close_errno ch" "recv_close_errno ch' = recv_close_errno ch"
  using quietD [OF assms]
  by (simp_all add: ring_items_def elem_at_def channel_load_slot_def ring_slot_def spsc_ok_def mpmc_ok_def
      mpmc_state_def ring_room_def topo_1_1_def lf_ok_def lf_room_def cc__chan_send_close_errno_def
      recv_close_errno_def)

lemma lf_enqueue:
  assumes ok: "lf_ok (Suc n) ch" and v: "length v = elem_size ch"
  shows "\<exists>ch'. cc__chan_try_enqueue_lockfree_impl ch v =
      Some (ch', if length (ring_items ch) < lf_room ch then 0 else EAGAIN) \<and> lf_ok n ch' \<and> ring_frame ch ch' \<and>
      ring_items ch' = (if length (ring_items ch) < lf_room ch then ring_items ch @ [v] else ring_items ch)"
proof -
  have fit: "ring_fits ch v" using v by (simp add: ring_fits_def)
  have D: "use_lockfree ch" "buf_ready ch" "0 < cap ch" "0 < elem_size ch"
    "topo_1_1 ch \<Longrightarrow> spsc_ok (Suc n) ch" "\<not> topo_1_1 ch \<Longrightarrow> mpmc_ok (Suc n) ch"
    using ok by (auto simp: lf_ok_def split: if_splits)
  obtain c b where cb: "cc__queue_enqueue_value (topo_1_1 ch) ch v = Some (c, b)"
    "b = (length (ring_items ch) < lf_room ch)"
    "ring_items c = (if b then ring_items ch @ [v] else ring_items ch)"
    "if topo_1_1 ch then spsc_ok n c else mpmc_ok n c"
  proof (cases "length (ring_items ch) < lf_room ch")
    case True
    then obtain c where "cc__queue_enqueue_value (topo_1_1 ch) ch v = Some (c, True)"
      "ring_items c = ring_items ch @ [v]" "if topo_1_1 ch then spsc_ok n c else mpmc_ok n c"
      using spsc.enq_room [OF D(5) fit] mpmc.enq_room [OF D(6) fit]
      by (cases "topo_1_1 ch") (auto simp: lf_room_def)
    then show ?thesis using that [of c True] True by simp
  next
    case False
    then have "cc__queue_enqueue_value (topo_1_1 ch) ch v = Some (ch, False)"
      using spsc.enq_full [OF D(5) fit] mpmc.enq_full [OF D(6) fit]
      by (cases "topo_1_1 ch") (auto simp: lf_room_def not_less)
    then show ?thesis using that [of ch False] False spsc.ok_mono [OF D(5)] mpmc.ok_mono [OF D(6)] by simp
  qed
  have f: "ring_frame ch c" using queue_frame(1) [OF cb(1)] .
  have "topo_1_1 c = topo_1_1 ch" using frameD [OF f] by (simp add: topo_1_1_def)
  then have "lf_ok n c" using cb(4) D frameD [OF f] by (simp add: lf_ok_def)
  then show ?thesis
    using cb D f by (intro exI [of _ c]) (simp add: cc__chan_try_enqueue_lockfree_impl_def)
qed

lemma lf_dequeue:
  assumes ok: "lf_ok n ch"
  shows "\<exists>ch'. cc_chan_try_dequeue_lockfree ch =
      Some (ch', case ring_items ch of [] \<Rightarrow> None | x # _ \<Rightarrow> Some x) \<and> lf_ok n ch' \<and> ring_frame ch ch' \<and>
      ring_items ch' = tl (ring_items ch) \<and> (ring_items ch = [] \<longrightarrow> ch' = ch)"
proof -
  have D: "use_lockfree ch" "buf_ready ch" "0 < cap ch" "0 < elem_size ch"
    "topo_1_1 ch \<Longrightarrow> spsc_ok n ch" "\<not> topo_1_1 ch \<Longrightarrow> mpmc_ok n ch"
    using ok by (auto simp: lf_ok_def split: if_splits)
  obtain c where c: "cc__queue_dequeue_value (topo_1_1 ch) ch =
      Some (c, case ring_items ch of [] \<Rightarrow> None | x # _ \<Rightarrow> Some x)"
    "ring_items c = tl (ring_items ch)" "if topo_1_1 ch then spsc_ok n c else mpmc_ok n c"
    "ring_items ch = [] \<Longrightarrow> c = ch"
  proof (cases "topo_1_1 ch")
    case True
    then show ?thesis
      using that spsc.deq_empty [OF D(5)] spsc.deq_item [OF D(5)] D(5)
      by (cases "ring_items ch") (force simp: True)+
  next
    case False
    then show ?thesis
      using that mpmc.deq_empty [OF D(6)] mpmc.deq_item [OF D(6)] D(6)
      by (cases "ring_items ch") (force simp: False)+
  qed
  have f: "ring_frame ch c" using queue_frame(2) [OF c(1)] .
  have "topo_1_1 c = topo_1_1 ch" using frameD [OF f] by (simp add: topo_1_1_def)
  then have "lf_ok n c" using c(3) D frameD [OF f] by (simp add: lf_ok_def)
  then show ?thesis
    using c D f by (intro exI [of _ c]) (simp add: cc_chan_try_dequeue_lockfree_def)
qed

lemma frame_open:
  assumes "ring_frame ch ch'"
  shows "is_open ch' = is_open ch" "cc__chan_send_close_errno ch' = cc__chan_send_close_errno ch"
    "recv_close_errno ch' = recv_close_errno ch"
  using frameD [OF assms] by (simp_all add: is_open_def cc__chan_send_close_errno_def recv_close_errno_def)


section \<open>Channels that are closed: drain, then report\<close>

primrec recv_n :: "('c \<Rightarrow> ('c \<times> errno \<times> 'v option) outcome) \<Rightarrow> nat \<Rightarrow> 'c \<Rightarrow> (errno \<times> 'v option) list option" where
  "recv_n recv 0 c = Some []"
| "recv_n recv (Suc n) c =
    (case recv c of
       Blocks \<Rightarrow> None
     | Returns (c', rc, out) \<Rightarrow>
         (case recv_n recv n c' of None \<Rightarrow> None | Some rs \<Rightarrow> Some ((rc, out) # rs)))"

text \<open>What a receiver may rely on once a channel is shut.\<close>

locale closing_channel =
  fixes recv :: "'c \<Rightarrow> ('c \<times> errno \<times> 'v option) outcome"
    and send :: "'c \<Rightarrow> 'v \<Rightarrow> ('c \<times> errno) outcome"
    and items :: "'c \<Rightarrow> 'v list" and ok :: "'c \<Rightarrow> bool" and shut :: "'c \<Rightarrow> bool"
    and code refusal :: "'c \<Rightarrow> errno"
  assumes recv_item: "ok c \<Longrightarrow> items c = x # xs \<Longrightarrow> \<exists>c'. recv c = Returns (c', 0, Some x) \<and> ok c' \<and>
      items c' = xs \<and> shut c' = shut c \<and> code c' = code c"
    and recv_end: "ok c \<Longrightarrow> items c = [] \<Longrightarrow> shut c \<Longrightarrow> recv c = Returns (c, code c, None)"
    and send_shut: "ok c \<Longrightarrow> shut c \<Longrightarrow> send c v = Returns (c, refusal c) \<and> refusal c \<noteq> 0"
begin

lemma drained: "ok c \<Longrightarrow> items c = [] \<Longrightarrow> shut c \<Longrightarrow> recv_n recv k c = Some (replicate k (code c, None))"
  by (induction k) (simp_all add: recv_end)

lemma drains:
  "ok c \<Longrightarrow> shut c \<Longrightarrow> recv_n recv (length (items c) + k) c =
    Some (map (\<lambda>x. (0, Some x)) (items c) @ replicate k (code c, None))"
proof (induction "items c" arbitrary: c)
  case Nil
  then show ?case using drained [of c k] by (metis append_Nil add_0 list.map_disc_iff list.size(3) self_append_conv2)
next
  case (Cons x xs)
  obtain c' where c': "recv c = Returns (c', 0, Some x)" "ok c'" "items c' = xs" "shut c'" "code c' = code c"
    using recv_item [OF Cons.prems(1) Cons.hyps(2) [symmetric]] Cons.prems(2) by auto
  have "recv_n recv (length xs + k) c' = Some (map (\<lambda>x. (0, Some x)) xs @ replicate k (code c, None))"
    using Cons.hyps(1) [OF _ c'(2,4)] c'(3,5) by simp
  then show ?case using c'(1) by (simp add: Cons.hyps(2) [symmetric])
qed

end

definition chan_recv :: "bool \<Rightarrow> chan \<times> world \<Rightarrow> ((chan \<times> world) \<times> errno \<times> bytes option) outcome" where
  "chan_recv mem c =
    (case cc_chan_try_recv mem (fst c) (snd c) (elem_size (fst c)) of
       Blocks \<Rightarrow> Blocks | Returns (ch, w, rc, out) \<Rightarrow> Returns ((ch, w), rc, out))"

definition chan_send :: "bool \<Rightarrow> chan \<times> world \<Rightarrow> bytes \<Rightarrow> ((chan \<times> world) \<times> errno) outcome" where
  "chan_send mem c v =
    (case cc_chan_try_send mem (fst c) (snd c) v (elem_size (fst c)) of
       Blocks \<Rightarrow> Blocks | Returns (ch, w, rc) \<Rightarrow> Returns ((ch, w), rc))"

definition buffered_ok :: "nat \<Rightarrow> chan \<Rightarrow> bool" where
  "buffered_ok n ch = ((lf_ok n ch \<or> mutex_ok ch) \<and> (rx_error_closed ch \<longrightarrow> rx_error_code ch \<noteq> 0))"

definition buffered_items :: "chan \<Rightarrow> bytes list" where
  "buffered_items ch = (if use_lockfree ch then ring_items ch else chan_items ch)"

definition drained_code :: "chan \<Rightarrow> errno" where
  "drained_code ch = (if use_lockfree ch then recv_close_errno ch else cc__chan_send_close_errno ch)"

definition refusal_code :: "chan \<Rightarrow> errno" where
  "refusal_code ch = cc__chan_send_close_errno ch"

lemma resolve_drained:
  assumes ok: "lf_ok n ch" and em: "ring_items ch = []"
  shows "cc__chan_recv_resolve_closed ch b e = Some (ch, recv_close_errno ch, None)"
proof -
  have dq: "cc_chan_try_dequeue_lockfree ch = Some (ch, None)" using lf_dequeue [OF ok] em by auto
  have "unat (ring_tail ch - ring_head ch) = 0" using em length_ring_items [of ch] by simp
  then have "ring_tail ch - ring_head ch = 0" by (simp only: unat_eq_0)
  then have th: "ring_tail ch = ring_head ch" by simp
  show ?thesis
    using ok dq th
    by (simp add: cc__chan_recv_resolve_closed_def lf_ok_def resolve_loop.simps resolve_empty_def)
qed

lemma lf_recv:
  assumes ok: "lf_ok n ch"
  shows "\<exists>ch' w'. cc_chan_try_recv mem ch w (elem_size ch) = Returns (ch', w',
      (case ring_items ch of [] \<Rightarrow> (if closed ch then recv_close_errno ch else EAGAIN) | x # _ \<Rightarrow> 0),
      (case ring_items ch of [] \<Rightarrow> None | x # _ \<Rightarrow> Some x)) \<and>
    lf_ok n ch' \<and> ring_items ch' = tl (ring_items ch) \<and> closed ch' = closed ch \<and>
    rx_error_closed ch' = rx_error_closed ch \<and> rx_error_code ch' = rx_error_code ch \<and>
    recv_close_errno ch' = recv_close_errno ch \<and> (ring_items ch = [] \<longrightarrow> ch' = ch \<and> w' = w)"
proof -
  obtain c where c: "cc_chan_try_dequeue_lockfree ch = Some (c, case ring_items ch of [] \<Rightarrow> None | x # _ \<Rightarrow> Some x)"
    "lf_ok n c" "ring_frame ch c" "ring_items c = tl (ring_items ch)" "ring_items ch = [] \<Longrightarrow> c = ch"
    using lf_dequeue [OF ok] by auto
  have D: "use_lockfree ch" "buf_ready ch" "0 < cap ch" "0 < elem_size ch" using ok by (auto simp: lf_ok_def)
  obtain c2 w2 where n: "(if has_send_waiters c then cc__chan_post_dequeue_notify c w else (c, w)) = (c2, w2)" by fastforce
  have Q: "quiet c c2" using n notify_quiet(2) by (auto split: if_splits)
  show ?thesis
  proof (cases "ring_items ch")
    case Nil
    then show ?thesis
      using c D resolve_drained [OF ok Nil] by (simp add: cc_chan_try_recv_def)
  next
    case (Cons x xs)
    then show ?thesis
      using c D n quiet_ring(1,6,9) [OF Q] quietD(13,14,16) [OF Q] frameD(4,5,7) [OF c(3)] frame_open(3) [OF c(3)]
      by (simp add: cc_chan_try_recv_def)
  qed
qed

interpretation buf_close: closing_channel "chan_recv mem" "chan_send mem" "\<lambda>c. buffered_items (fst c)"
  "\<lambda>c. buffered_ok n (fst c)" "\<lambda>c. closed (fst c)" "\<lambda>c. drained_code (fst c)" "\<lambda>c. refusal_code (fst c)" for mem n
proof (unfold_locales, goal_cases)
  case (1 c x xs)
  show ?case
  proof (cases "use_lockfree (fst c)")
    case True
    then have ok: "lf_ok n (fst c)" using 1(1) by (auto simp: buffered_ok_def mutex_ok_def)
    obtain ch' w' where r: "cc_chan_try_recv mem (fst c) (snd c) (elem_size (fst c)) = Returns (ch', w', 0, Some x)"
      "lf_ok n ch'" "ring_items ch' = xs" "closed ch' = closed (fst c)"
      "rx_error_closed ch' = rx_error_closed (fst c)" "rx_error_code ch' = rx_error_code (fst c)"
      "recv_close_errno ch' = recv_close_errno (fst c)"
      using lf_recv [OF ok, of mem "snd c"] 1(2) True by (auto simp: buffered_items_def)
    moreover have "use_lockfree ch'" using r(2) by (simp add: lf_ok_def)
    ultimately show ?thesis
      using 1(1) True
      by (intro exI [of _ "(ch', w')"]) (simp add: chan_recv_def buffered_items_def buffered_ok_def drained_code_def)
  next
    case False
    then have ok: "mutex_ok (fst c)" using 1(1) by (auto simp: buffered_ok_def lf_ok_def)
    obtain ch' w' where r: "cc_chan_try_recv mem (fst c) (snd c) (elem_size (fst c)) = Returns (ch', w', 0, Some x)"
      "mutex_ok ch'" "chan_items ch' = xs" "closed ch' = closed (fst c)"
      "cc__chan_send_close_errno ch' = cc__chan_send_close_errno (fst c)" "is_open ch' = is_open (fst c)"
      using try_recv_mutex [OF ok, of mem "snd c"] 1(2) False by (auto simp: buffered_items_def)
    have q: "rx_error_closed ch' = rx_error_closed (fst c) \<and> rx_error_code ch' = rx_error_code (fst c)"
    proof -
      have "count (fst c) \<noteq> 0" using 1(2) False length_chan_items [of "fst c"] by (auto simp: buffered_items_def)
      then have "\<exists>c1 w1. cc__chan_post_dequeue_notify (fst (cc_chan_dequeue (fst c) (snd c)))
          (fst (snd (cc_chan_dequeue (fst c) (snd c)))) = (c1, w1) \<and> c1 = ch'"
        using r(1) ok by (auto simp: cc_chan_try_recv_def mutex_ok_def ensure_buf_ready split: prod.splits)
      then have "quiet (fst (cc_chan_dequeue (fst c) (snd c))) ch'" using notify_quiet(2) by blast
      from quietD [OF this] show ?thesis using ok by (simp add: cc_chan_dequeue_def mutex_ok_def)
    qed
    moreover have "\<not> use_lockfree ch'" using r(2) by (simp add: mutex_ok_def)
    ultimately show ?thesis
      using r 1(1) False
      by (intro exI [of _ "(ch', w')"]) (simp add: chan_recv_def buffered_items_def buffered_ok_def drained_code_def)
  qed
next
  case (2 c)
  show ?case
  proof (cases "use_lockfree (fst c)")
    case True
    then have ok: "lf_ok n (fst c)" using 2(1) by (auto simp: buffered_ok_def mutex_ok_def)
    show ?thesis
      using lf_recv [OF ok, of mem "snd c"] 2 True
      by (auto simp: chan_recv_def buffered_items_def drained_code_def)
  next
    case False
    then have ok: "mutex_ok (fst c)" using 2(1) by (auto simp: buffered_ok_def lf_ok_def)
    have "count (fst c) = 0" using 2(2) False length_chan_items [of "fst c"] by (simp add: buffered_items_def)
    then show ?thesis
      using ok 2(3) False
      by (simp add: chan_recv_def cc_chan_try_recv_def mutex_ok_def ensure_buf_ready drained_code_def)
  qed
next
  case (3 c v)
  have d: "(lf_ok n (fst c) \<or> mutex_ok (fst c)) \<and> (rx_error_closed (fst c) \<longrightarrow> rx_error_code (fst c) \<noteq> 0)"
    using 3(1) by (simp add: buffered_ok_def)
  show ?case
    using d 3(2)
    by (auto simp: chan_send_def cc_chan_try_send_def lf_ok_def mutex_ok_def refusal_code_def
        cc__chan_send_close_errno_def ensure_buf_ready EPIPE_def)
qed

lemma wake_all_send_quiet: "wake_all_send ch w = (ch', w') \<Longrightarrow> quiet ch ch'"
proof (induction "send_waiters ch" arbitrary: ch w)
  case Nil
  then show ?case by (simp add: wake_all_send.simps)
next
  case (Cons n ns)
  obtain c1 w1 where one: "cc__chan_wake_one_send_waiter_close ch w = (c1, w1)" by fastforce
  have c1: "c1 = ch\<lparr>send_waiters := ns\<rparr>" using wake_send_close_eff(1) [OF one Cons.hyps(2) [symmetric]] .
  have "wake_all_send c1 w1 = (ch', w')"
    using Cons.prems Cons.hyps(2) [symmetric] one by (subst (asm) wake_all_send.simps) simp
  then have "quiet c1 ch'" using Cons.hyps(1) c1 by simp
  then show ?case using quiet_trans [OF quiet_intros(4)] c1 by simp
qed

lemma wake_recv_close_quiet: "cc__chan_wake_one_recv_waiter_close ch w = (ch', w') \<Longrightarrow> quiet ch ch'"
  by (auto simp: cc__chan_wake_one_recv_waiter_close_def Let_def split: list.splits prod.splits bool.splits if_splits
      intro: quiet_trans quiet_intros)

lemma wake_all_recv_quiet: "wake_all_recv ch w = (ch', w') \<Longrightarrow> quiet ch ch'"
proof (induction "recv_waiters ch" arbitrary: ch w)
  case Nil
  then show ?case by (simp add: wake_all_recv.simps)
next
  case (Cons n ns)
  obtain c1 w1 where one: "cc__chan_wake_one_recv_waiter_close ch w = (c1, w1)" by fastforce
  have "wake_all_recv c1 w1 = (ch', w')"
    using Cons.prems Cons.hyps(2) [symmetric] one by (subst (asm) wake_all_recv.simps) simp
  then have "quiet c1 ch'"
    using Cons.hyps(1) [of c1] wake_recv_close_eff(1) [OF one Cons.hyps(2) [symmetric]] by simp
  then show ?case using quiet_trans [OF wake_recv_close_quiet [OF one]] by simp
qed

lemma close_common_quiet:
  assumes "cc__chan_close_common ch w tx rx te re io = (ch', w')"
  shows "quiet (close_fields ch tx rx te re io) ch'"
proof -
  let ?c = "close_fields ch tx rx te re io"
  let ?w = "if tx then w\<lparr>sig_not_empty := sig_not_empty w + 1, sig_not_full := sig_not_full w + 1\<rparr>
              else w\<lparr>sig_not_full := sig_not_full w + 1\<rparr>"
  obtain c1 w1 where s: "wake_all_send ?c ?w = (c1, w1)" by fastforce
  obtain c2 w2 where r: "wake_all_recv c1 w1 = (c2, w2)" by fastforce
  show ?thesis
    using assms s r wake_all_send_quiet [OF s] wake_all_recv_quiet [OF r] quiet_trans
    by (cases tx) (auto simp: close_common_alt cc__chan_wake_all_waiters_def Let_def)
qed

lemma close_fields_buffer:
  "buffered_items (close_fields ch tx rx te re io) = buffered_items ch"
  "lf_ok n (close_fields ch tx rx te re io) = lf_ok n ch" "mutex_ok (close_fields ch tx rx te re io) = mutex_ok ch"
  "elem_size (close_fields ch tx rx te re io) = elem_size ch"
  by (simp_all add: close_fields_def buffered_items_def chan_items_def channel_load_slot_def ring_items_def
      elem_at_def ring_slot_def lf_ok_def mutex_ok_def spsc_ok_def mpmc_ok_def mpmc_state_def topo_1_1_def)

lemma quiet_buffered:
  assumes "quiet ch ch'"
  shows "buffered_items ch' = buffered_items ch" "buffered_ok n ch' = buffered_ok n ch"
    "drained_code ch' = drained_code ch" "refusal_code ch' = refusal_code ch"
  using quiet_ring [OF assms] quiet_items [OF assms] quietD [OF assms]
  by (simp_all add: buffered_items_def buffered_ok_def drained_code_def refusal_code_def)

lemma close_common_buffer:
  assumes "cc__chan_close_common ch w tx rx te re io = (ch', w')" "buffered_ok n ch" "rx \<longrightarrow> re \<noteq> 0"
  shows "buffered_ok n ch'" "buffered_items ch' = buffered_items ch" "closed ch' = (closed ch \<or> tx)"
    "rx_error_closed ch' = (rx_error_closed ch \<or> rx)"
    "rx_error_code ch' = (if rx \<and> re \<noteq> 0 then re else rx_error_code ch)"
proof -
  note Q = close_common_quiet [OF assms(1)]
  show "buffered_ok n ch'"
    unfolding quiet_buffered(2) [OF Q] using assms(2,3)
    by (simp add: buffered_ok_def close_fields_buffer) (auto simp: close_fields_def)
  show "buffered_items ch' = buffered_items ch"
    unfolding quiet_buffered(1) [OF Q] by (rule close_fields_buffer(1))
  show "closed ch' = (closed ch \<or> tx)" "rx_error_closed ch' = (rx_error_closed ch \<or> rx)"
    "rx_error_code ch' = (if rx \<and> re \<noteq> 0 then re else rx_error_code ch)"
    using quietD [OF Q] by (auto simp: close_fields_def)
qed


text \<open>A channel with two one-byte values in it.\<close>

definition demo_empty :: chan where
  "demo_empty = fst (cc_chan_init_elem True (cc_chan_create_internal 4 False MODE_BLOCK True False TOPO_1_1) 1)"

definition demo_put :: "chan \<Rightarrow> 8 word \<Rightarrow> chan" where
  "demo_put c v = (case cc_chan_try_send True c demo_world [v] 1 of Returns (c', _, _) \<Rightarrow> c' | Blocks \<Rightarrow> demo_empty)"

definition demo_buffer :: chan where
  "demo_buffer = demo_put (demo_put demo_empty 1) 2"

lemma demo_buffer_facts:
  "use_lockfree demo_buffer \<and> buf_ready demo_buffer \<and> elem_size demo_buffer = 1 \<and> topo_1_1 demo_buffer \<and>
   is_open demo_buffer \<and> lfqueue_cap demo_buffer = 4 \<and> cap demo_buffer = 4 \<and>
   ring_items demo_buffer = [[1], [2]]"
  by code_simp

lemma demo_buffer_ok: "lf_ok n demo_buffer" "buffered_ok n demo_buffer"
proof -
  have "unat (ring_tail demo_buffer - ring_head demo_buffer) = 2"
    using demo_buffer_facts length_ring_items [of demo_buffer] by simp
  then have "spsc_ok n demo_buffer"
    unfolding spsc_ok_def using demo_buffer_facts by (intro exI [of _ 2]) simp
  then show "lf_ok n demo_buffer" "buffered_ok n demo_buffer"
    using demo_buffer_facts by (simp_all add: lf_ok_def buffered_ok_def is_open_def)
qed



end
