(* ===== verification/Chan_Park.thy ===== *)
theory Chan_Park
  imports Chan_Ops
begin

text \<open>
  The blocking receive of a lock-free channel (\<^verbatim>\<open>cc_chan_recv\<close> of channel.c) against
  concurrent senders and a closer, interleaved in any order.  A step is one
  access to the ring, one load of a counter or of the notification, or one
  section under the channel mutex; the waiter queue and its counters are those of theory
  Channel.  The ring is the list of its elements, as justified by theory
  Ring_Threads.  Receivers are fibers; receiver r has fiber r and wait node r.
  A send to a full ring is refused, so no sender waits here.
\<close>

section \<open>The machine\<close>

datatype recv_pc =
    R_Idle | R_Loop | R_Lock | R_Check | R_EarlyA | R_EarlyB | R_Unlink | R_Pre | R_Probe
  | R_Relock | R_Recheck | R_Parked | R_Post | R_Drain

datatype send_pc =
    N_Idle | N_Handoff bytes | N_HandLock bytes | N_Enq bytes | N_Load | N_Inflight | N_Lock

record park_sys =
  pch :: chan
  pw :: world
  pitems :: "bytes list"
  rpc :: "nat \<Rightarrow> recv_pc"
  spc :: "nat \<Rightarrow> send_pc"
  plog :: "(nat \<times> bytes) list"

datatype park_ev = Recv nat | Step nat | Refuse nat | Spurious nat | Send nat bool bytes | SStep nat | Close

definition goto :: "park_sys \<Rightarrow> nat \<Rightarrow> recv_pc \<Rightarrow> park_sys" where
  "goto s r p = s\<lparr>rpc := (rpc s)(r := p)\<rparr>"

text \<open>The receive returns a value.\<close>

definition deliver :: "park_sys \<Rightarrow> nat \<Rightarrow> bytes \<Rightarrow> park_sys" where
  "deliver s r v = (goto s r R_Idle)\<lparr>plog := plog s @ [(r, v)]\<rparr>"

definition mark :: "park_sys \<Rightarrow> nat \<Rightarrow> notify" where
  "mark s r = notified (node (pw s) r)"

definition take_item :: "park_sys \<Rightarrow> nat \<Rightarrow> recv_pc \<Rightarrow> park_sys" where
  "take_item s r p = (case pitems s of [] \<Rightarrow> goto s r p | x # xs \<Rightarrow> deliver (s\<lparr>pitems := xs\<rparr>) r x)"

definition add_waiter :: "park_sys \<Rightarrow> nat \<Rightarrow> world \<Rightarrow> park_sys" where
  "add_waiter s r w = (case cc__chan_add_recv_waiter (pch s) w r of (c, w) \<Rightarrow> s\<lparr>pch := c, pw := w\<rparr>)"

definition drop_waiter :: "park_sys \<Rightarrow> nat \<Rightarrow> park_sys" where
  "drop_waiter s r = (case cc__chan_remove_recv_waiter (pch s) (pw s) r of (c, w) \<Rightarrow> s\<lparr>pch := c, pw := w\<rparr>)"

text \<open>The sections of the receive, in the order of the code: register as a waiter, look for an early
  handoff, unlink and retry, unlink for a last probe of the ring, register again, and what follows
  the wake-up.\<close>

definition recv_register :: "park_sys \<Rightarrow> nat \<Rightarrow> park_sys" where
  "recv_register s r =
    (if closed (pch s) then goto s r R_Drain
     else goto (add_waiter s r (init_node (pw s) r r [])) r R_Check)"

definition recv_early :: "park_sys \<Rightarrow> nat \<Rightarrow> recv_pc \<Rightarrow> park_sys" where
  "recv_early s r p = (if mark s r = NOTIFY_DATA then deliver s r (ndata (node (pw s) r)) else goto s r p)"

definition recv_unlink :: "park_sys \<Rightarrow> nat \<Rightarrow> park_sys" where
  "recv_unlink s r =
    (if mark s r = NOTIFY_DATA then deliver s r (ndata (node (pw s) r)) else goto (drop_waiter s r) r R_Loop)"

definition recv_pre :: "park_sys \<Rightarrow> nat \<Rightarrow> park_sys" where
  "recv_pre s r =
    (if mark s r = NOTIFY_DATA then deliver s r (ndata (node (pw s) r))
     else if mark s r \<noteq> NOTIFY_NONE \<or> closed (pch s) then goto (drop_waiter s r) r R_Loop
     else goto (drop_waiter s r) r R_Probe)"

definition recv_relock :: "park_sys \<Rightarrow> nat \<Rightarrow> park_sys" where
  "recv_relock s r =
    (if closed (pch s) then goto s r R_Drain
     else if mark s r = NOTIFY_DATA then deliver s r (ndata (node (pw s) r))
     else if mark s r \<noteq> NOTIFY_NONE then goto s r R_Loop
     else goto (add_waiter s r (pw s)) r R_Recheck)"

definition recv_post :: "park_sys \<Rightarrow> nat \<Rightarrow> park_sys" where
  "recv_post s r =
    (if mark s r = NOTIFY_SIGNAL
     then goto ((drop_waiter s r)\<lparr>pw := set_notified (pw (drop_waiter s r)) r NOTIFY_NONE\<rparr>) r R_Loop
     else if mark s r = NOTIFY_DATA then deliver s r (ndata (node (pw s) r))
     else if mark s r = NOTIFY_CLOSE \<or> closed (pch s) then goto (drop_waiter s r) r R_Drain
     else goto (drop_waiter s r) r R_Loop)"

definition recv_step :: "park_sys \<Rightarrow> nat \<Rightarrow> park_sys" where
  "recv_step s r =
    (case rpc s r of
       R_Idle \<Rightarrow> s
     | R_Loop \<Rightarrow> take_item s r R_Lock
     | R_Lock \<Rightarrow> recv_register s r
     | R_Check \<Rightarrow> goto s r (if pitems s \<noteq> [] then R_EarlyA else R_EarlyB)
     | R_EarlyA \<Rightarrow> recv_early s r R_Unlink
     | R_EarlyB \<Rightarrow> recv_early s r R_Pre
     | R_Unlink \<Rightarrow> recv_unlink s r
     | R_Pre \<Rightarrow> recv_pre s r
     | R_Probe \<Rightarrow> take_item s r R_Relock
     | R_Relock \<Rightarrow> recv_relock s r
     | R_Recheck \<Rightarrow> goto s r (if pitems s \<noteq> [] then R_EarlyA else R_Parked)
     | R_Parked \<Rightarrow> (if mark s r \<noteq> NOTIFY_NONE then goto s r R_Post else s)
     | R_Post \<Rightarrow> recv_post s r
     | R_Drain \<Rightarrow> take_item s r R_Idle)"

lemmas recv_step_defs = recv_step_def recv_register_def recv_early_def recv_unlink_def recv_pre_def
  recv_relock_def recv_post_def

definition sgoto :: "park_sys \<Rightarrow> nat \<Rightarrow> send_pc \<Rightarrow> park_sys" where
  "sgoto s i p = s\<lparr>spc := (spc s)(i := p)\<rparr>"

text \<open>\<^verbatim>\<open>cc_chan_send\<close>: the direct handoff, the enqueue and the notification of a parked receiver.
  The first two arguments are the capacity and the wake target.\<close>

definition send_step :: "nat \<Rightarrow> nat \<Rightarrow> park_sys \<Rightarrow> nat \<Rightarrow> park_sys" where
  "send_step room target s i =
    (case spc s i of
       N_Idle \<Rightarrow> s
     | N_Handoff v \<Rightarrow> sgoto s i (if has_recv_waiters (pch s) \<noteq> 0 then N_HandLock v else N_Enq v)
     | N_HandLock v \<Rightarrow>
         (if closed (pch s) \<or> rx_error_closed (pch s) then sgoto s i N_Idle
          else case cc__chan_pop_recv_waiter (pch s) (pw s) of
            (c, w, None) \<Rightarrow> sgoto (s\<lparr>pch := c, pw := w\<rparr>) i (N_Enq v)
          | (c, w, Some n) \<Rightarrow>
              (case cc__chan_finish_send_to_recv_waiter c w n v of (c, w) \<Rightarrow>
                 sgoto (s\<lparr>pch := c, pw := w\<rparr>) i N_Idle))
     | N_Enq v \<Rightarrow>
         (if length (pitems s) < room then sgoto (s\<lparr>pitems := pitems s @ [v]\<rparr>) i N_Load else sgoto s i N_Idle)
     | N_Load \<Rightarrow> sgoto s i (if has_recv_waiters (pch s) = 0 then N_Idle else N_Inflight)
     | N_Inflight \<Rightarrow> sgoto s i (if int target \<le> recv_wake_inflight (pch s) then N_Idle else N_Lock)
     | N_Lock \<Rightarrow>
         (case cc__chan_signal_recv_waiters (pch s) (pw s) (cc__chan_recv_wake_budget (int target) (pch s)) of
            (c, w) \<Rightarrow> sgoto (s\<lparr>pch := c, pw := w\<rparr>) i N_Idle))"

text \<open>The minimal path needs the flag of the channel; the full path, which tries the direct handoff
  first, is taken without the flag or when the ring is full, and refuses a closed channel.  At the lock a
  receive also returns with an error when its nursery is cancelled or the guard against a blocking
  receive in the closing nursery fires.\<close>

fun park_step :: "nat \<Rightarrow> nat \<Rightarrow> park_sys \<Rightarrow> park_ev \<Rightarrow> park_sys" where
  "park_step room target s (Recv r) = (if rpc s r = R_Idle then goto s r R_Loop else s)"
| "park_step room target s (Step r) = recv_step s r"
| "park_step room target s (Refuse r) =
    (if rpc s r = R_Lock \<and> \<not> closed (pch s) then goto s r R_Idle else s)"
| "park_step room target s (Spurious r) = (if rpc s r = R_Parked then goto s r R_Post else s)"
| "park_step room target s (Send i minimal v) =
    (if spc s i \<noteq> N_Idle then s
     else if minimal then (if fast_path_ok (pch s) then sgoto s i (N_Enq v) else s)
     else if (fast_path_ok (pch s) \<longrightarrow> room \<le> length (pitems s)) \<and> \<not> closed (pch s) \<and> \<not> rx_error_closed (pch s)
     then sgoto s i (N_Handoff v) else s)"
| "park_step room target s (SStep i) = send_step room target s i"
| "park_step room target s Close =
    (case cc_chan_close (pch s) (pw s) of (c, w) \<Rightarrow> s\<lparr>pch := c, pw := w\<rparr>)"

definition park_init :: "bool \<Rightarrow> nat \<Rightarrow> park_sys" where
  "park_init sync capacity =
    \<lparr>pch = fst (cc_chan_init_elem True (cc_chan_create_internal capacity False MODE_BLOCK True sync TOPO_DEFAULT) 1), pw = demo_world, pitems = [],
     rpc = (\<lambda>_. R_Idle), spc = (\<lambda>_. N_Idle), plog = []\<rparr>"

definition park_run :: "bool \<Rightarrow> nat \<Rightarrow> nat \<Rightarrow> park_ev list \<Rightarrow> park_sys" where
  "park_run sync room target evs = foldl (park_step room target) (park_init sync room) evs"

fun recv_ids :: "park_ev \<Rightarrow> nat set" where
  "recv_ids (Recv r) = {r}"
| "recv_ids _ = {}"

text \<open>Schedules: receiver r runs alone until it parks; sender i starts and takes k steps.\<close>

definition parking :: "nat \<Rightarrow> park_ev list" where
  "parking r = Recv r # replicate 8 (Step r)"

definition sending :: "nat \<Rightarrow> bool \<Rightarrow> bytes \<Rightarrow> nat \<Rightarrow> park_ev list" where
  "sending i minimal v k = Send i minimal v # replicate k (SStep i)"

section \<open>Invariant\<close>

text \<open>The program points at which the node of the receiver may be in the waiter queue, and those
  at which its ticket has been published.\<close>

definition may_link :: "recv_pc \<Rightarrow> bool" where
  "may_link p = (p \<in> {R_Check, R_EarlyA, R_EarlyB, R_Unlink, R_Pre, R_Recheck, R_Parked, R_Post})"

definition has_node :: "recv_pc \<Rightarrow> bool" where
  "has_node p = (may_link p \<or> p \<in> {R_Probe, R_Relock})"

definition plain_node :: "world \<Rightarrow> nat \<Rightarrow> bool" where
  "plain_node w r = (nfiber (node w r) = Some r \<and> select_of w r = None \<and> cc__chan_waiter_ticket_valid w r)"

text \<open>The part of the invariant about the waiter queue and the nodes, and the part that says that
  a parked receiver is about to be woken if the ring is not empty.\<close>

definition queue_inv :: "nat \<Rightarrow> park_sys \<Rightarrow> bool" where
  "queue_inv n s =
    (recv_queue_ok (pch s) (pw s) \<and> send_waiters (pch s) = [] \<and>
     (\<forall>r. n \<le> r \<longrightarrow> rpc s r = R_Idle) \<and>
     (\<forall>r \<in> set (recv_waiters (pch s)). may_link (rpc s r) \<and> mark s r \<in> {NOTIFY_NONE, NOTIFY_SIGNAL}) \<and>
     (\<forall>r. has_node (rpc s r) \<longrightarrow> plain_node (pw s) r) \<and>
     (\<forall>r. has_node (rpc s r) \<longrightarrow> in_wait_list (node (pw s) r) \<longrightarrow> r \<in> set (recv_waiters (pch s))) \<and>
     (\<forall>r. may_link (rpc s r) \<longrightarrow> mark s r = NOTIFY_NONE \<longrightarrow> r \<in> set (recv_waiters (pch s))) \<and>
     (\<forall>r. rpc s r \<in> {R_Probe, R_Relock} \<longrightarrow> mark s r = NOTIFY_NONE) \<and>
     (closed (pch s) \<longrightarrow> recv_waiters (pch s) = []))"

definition pending :: "park_sys \<Rightarrow> bool" where
  "pending s = (\<exists>i. spc s i \<in> {N_Load, N_Inflight, N_Lock})"

definition wake_inv :: "park_sys \<Rightarrow> bool" where
  "wake_inv s =
    (pitems s \<noteq> [] \<longrightarrow> (\<forall>r. rpc s r = R_Parked \<longrightarrow> mark s r = NOTIFY_NONE \<longrightarrow> pending s))"

lemma queue_invD:
  assumes "queue_inv n s"
  shows "recv_queue_ok (pch s) (pw s)" "send_waiters (pch s) = []" "n \<le> r \<Longrightarrow> rpc s r = R_Idle"
    "r \<in> set (recv_waiters (pch s)) \<Longrightarrow> may_link (rpc s r)" "has_node (rpc s r) \<Longrightarrow> plain_node (pw s) r"
    "has_node (rpc s r) \<Longrightarrow> in_wait_list (node (pw s) r) \<Longrightarrow> r \<in> set (recv_waiters (pch s))"
    "may_link (rpc s r) \<Longrightarrow> mark s r = NOTIFY_NONE \<Longrightarrow> r \<in> set (recv_waiters (pch s))"
    "rpc s r \<in> {R_Probe, R_Relock} \<Longrightarrow> mark s r = NOTIFY_NONE"
    "closed (pch s) \<Longrightarrow> recv_waiters (pch s) = []"
    "r \<in> set (recv_waiters (pch s)) \<Longrightarrow> mark s r \<in> {NOTIFY_NONE, NOTIFY_SIGNAL}"
  using assms by (auto simp: queue_inv_def)

lemma plain_node_cong:
  assumes "nfiber (node w' m) = nfiber (node w m)" "select_of w' m = select_of w m"
    "nticket (node w' m) = nticket (node w m)" "ticket w' m = ticket w m"
  shows "plain_node w m \<Longrightarrow> plain_node w' m"
  using assms by (auto simp: plain_node_def cc__chan_waiter_ticket_valid_def)

lemma recv_queue_ok_cong:
  assumes "recv_queue_ok ch w"
    and "\<And>m. m \<in> set (recv_waiters ch) \<Longrightarrow> node w' m = node w m \<and>
      cc__chan_waiter_ticket_valid w' m = cc__chan_waiter_ticket_valid w m"
  shows "recv_queue_ok ch w'"
proof -
  have "in_state w' k (recv_waiters ch) = in_state w k (recv_waiters ch)" for k
    by (rule in_state_cong) (simp add: assms(2))
  then show ?thesis using assms by (auto simp: recv_queue_ok_def)
qed

text \<open>A step of receiver r: its program point moves, and only its own node and its own membership
  in the queue may change.\<close>

lemma queue_inv_step:
  assumes inv: "queue_inv n s" and r: "r < n"
    and s': "rpc s' = (rpc s)(r := p)"
    and ok: "recv_queue_ok (pch s') (pw s')" "send_waiters (pch s') = []" "closed (pch s') = closed (pch s)"
    and L: "set (recv_waiters (pch s')) - {r} = set (recv_waiters (pch s)) - {r}"
    and nd: "\<And>m. m \<noteq> r \<Longrightarrow> node (pw s') m = node (pw s) m" "\<And>m. m \<noteq> r \<Longrightarrow> ticket (pw s') m = ticket (pw s) m"
    and lk: "r \<in> set (recv_waiters (pch s')) \<Longrightarrow> may_link p \<and> mark s' r \<in> {NOTIFY_NONE, NOTIFY_SIGNAL}"
    and pl: "has_node p \<Longrightarrow> plain_node (pw s') r"
    and wl: "has_node p \<Longrightarrow> in_wait_list (node (pw s') r) \<Longrightarrow> r \<in> set (recv_waiters (pch s'))"
    and ml: "may_link p \<Longrightarrow> mark s' r = NOTIFY_NONE \<Longrightarrow> r \<in> set (recv_waiters (pch s'))"
    and pr: "p \<in> {R_Probe, R_Relock} \<Longrightarrow> mark s' r = NOTIFY_NONE"
    and cl: "closed (pch s) \<Longrightarrow> recv_waiters (pch s') = []"
  shows "queue_inv n s'"
proof -
  note D = queue_invD [OF inv]
  have mem: "m \<in> set (recv_waiters (pch s')) \<longleftrightarrow> m \<in> set (recv_waiters (pch s))" if "m \<noteq> r" for m
    using L that by auto
  have pn: "plain_node (pw s') m" if "m \<noteq> r" "has_node (rpc s m)" for m
    by (rule plain_node_cong [OF _ _ _ _ D(5) [OF that(2)]]) (simp_all add: nd that(1) select_of_def)
  have mk: "mark s' m = mark s m" if "m \<noteq> r" for m by (simp add: mark_def nd(1) [OF that])
  show ?thesis
    unfolding queue_inv_def
  proof (intro conjI allI ballI impI)
    show "recv_queue_ok (pch s') (pw s')" "send_waiters (pch s') = []" by (rule ok)+
  next
    fix m assume "n \<le> m"
    then show "rpc s' m = R_Idle" using r D(3) by (simp add: s')
  next
    fix m assume "m \<in> set (recv_waiters (pch s'))"
    then show "may_link (rpc s' m)" "mark s' m \<in> {NOTIFY_NONE, NOTIFY_SIGNAL}"
      using lk mem mk D(4) D(10) by (cases "m = r"; simp add: s')+
  next
    fix m assume "has_node (rpc s' m)"
    then show "plain_node (pw s') m" using pl pn by (cases "m = r") (auto simp: s')
  next
    fix m assume "has_node (rpc s' m)" "in_wait_list (node (pw s') m)"
    then show "m \<in> set (recv_waiters (pch s'))"
      using wl mem D(6) nd(1) by (cases "m = r") (auto simp: s')
  next
    fix m assume "may_link (rpc s' m)" "mark s' m = NOTIFY_NONE"
    then show "m \<in> set (recv_waiters (pch s'))"
      using ml mem mk D(7) by (cases "m = r") (auto simp: s')
  next
    fix m assume "rpc s' m \<in> {R_Probe, R_Relock}"
    then show "mark s' m = NOTIFY_NONE" using pr mk D(8) by (cases "m = r") (auto simp: s')
  next
    assume "closed (pch s')"
    then show "recv_waiters (pch s') = []" using cl ok(3) by simp
  qed
qed

lemmas pc_defs = may_link_def has_node_def

lemma state_fields [simp]:
  "rpc (goto s r p) = (rpc s)(r := p)" "spc (goto s r p) = spc s" "pch (goto s r p) = pch s"
  "pw (goto s r p) = pw s" "pitems (goto s r p) = pitems s"
  "rpc (deliver s r v) = (rpc s)(r := R_Idle)" "spc (deliver s r v) = spc s" "pch (deliver s r v) = pch s"
  "pw (deliver s r v) = pw s" "pitems (deliver s r v) = pitems s"
  "rpc (sgoto s i q) = rpc s" "spc (sgoto s i q) = (spc s)(i := q)" "pch (sgoto s i q) = pch s"
  "pw (sgoto s i q) = pw s" "pitems (sgoto s i q) = pitems s"
  by (simp_all add: goto_def deliver_def sgoto_def)

lemma mark_simps [simp]:
  "mark (goto s r p) m = mark s m" "mark (deliver s r v) m = mark s m" "mark (sgoto s i q) m = mark s m"
  "mark (s\<lparr>pitems := xs\<rparr>) m = mark s m"
  by (simp_all add: mark_def)

text \<open>Moves that touch neither the queue nor a node.\<close>

lemma queue_inv_move:
  assumes inv: "queue_inv n s" and r: "r < n" and s': "rpc s' = (rpc s)(r := p)" "pch s' = pch s" "pw s' = pw s"
    and lk: "may_link (rpc s r) \<Longrightarrow> mark s r = NOTIFY_DATA \<or> may_link p"
    and hn: "has_node p \<Longrightarrow> has_node (rpc s r)" and ml: "may_link p \<Longrightarrow> may_link (rpc s r)"
    and pr: "p \<in> {R_Probe, R_Relock} \<Longrightarrow> rpc s r \<in> {R_Probe, R_Relock}"
  shows "queue_inv n s'"
proof -
  note D = queue_invD [OF inv]
  have mk: "mark s' r = mark s r" by (simp add: mark_def s')
  show ?thesis
  proof (rule queue_inv_step [OF inv r s'(1)])
    show "recv_queue_ok (pch s') (pw s')" "send_waiters (pch s') = []" using D(1,2) by (simp_all add: s')
    show "may_link p \<and> mark s' r \<in> {NOTIFY_NONE, NOTIFY_SIGNAL}" if "r \<in> set (recv_waiters (pch s'))"
      using that lk D(4) [of r] D(10) [of r] mk by (auto simp: s')
    show "plain_node (pw s') r" if "has_node p" using D(5) [OF hn [OF that]] by (simp add: s')
    show "r \<in> set (recv_waiters (pch s'))" if "has_node p" "in_wait_list (node (pw s') r)"
      using D(6) [OF hn [OF that(1)]] that(2) by (simp add: s')
    show "r \<in> set (recv_waiters (pch s'))" if "may_link p" "mark s' r = NOTIFY_NONE"
      using D(7) [OF ml [OF that(1)]] that(2) mk by (simp add: s')
    show "mark s' r = NOTIFY_NONE" if "p \<in> {R_Probe, R_Relock}" using D(8) [OF pr [OF that]] mk by simp
    show "recv_waiters (pch s') = []" if "closed (pch s)" using D(9) [OF that] by (simp add: s')
  qed (simp_all add: s')
qed

section \<open>Queues of plain nodes\<close>

lemma plain_win: "select_of w n = None \<Longrightarrow> cc__chan_select_try_win w n = (w, True)"
  by (auto simp: select_of_def cc__chan_select_try_win_def Let_def split: bool.splits option.splits)

lemma drop_recv_head_fields [simp]:
  "closed (drop_recv_head ch n ns) = closed ch" "send_waiters (drop_recv_head ch n ns) = send_waiters ch"
  "closed (recv_count_dec ch) = closed ch" "send_waiters (recv_count_dec ch) = send_waiters ch"
  "recv_waiters (recv_count_dec ch) = recv_waiters ch"
  "closed (recv_inflight_dec ch) = closed ch" "send_waiters (recv_inflight_dec ch) = send_waiters ch"
  by (simp_all add: drop_recv_head_def cc__chan_recv_signal_hint_advance_def recv_count_dec_def
      recv_inflight_dec_def Let_def)

text \<open>Popping unlinks a prefix of the queue that ends with the first waiting node.\<close>

definition popped :: "chan \<Rightarrow> world \<Rightarrow> nat list \<Rightarrow> nat option \<Rightarrow> chan \<Rightarrow> world \<Rightarrow> nat list \<Rightarrow> bool" where
  "popped ch w L r ch' w' ps =
    (L = ps @ recv_waiters ch' \<and> closed ch' = closed ch \<and> send_waiters ch' = send_waiters ch \<and>
     ticket w' = ticket w \<and>
     (\<forall>m. node w' m = (if m \<in> set ps then (node w m)\<lparr>in_wait_list := False\<rparr> else node w m)) \<and>
     (case r of None \<Rightarrow> recv_waiters ch' = [] | Some n \<Rightarrow> n \<in> set ps) \<and>
     (\<forall>m \<in> set ps. (notified (node w m) = NOTIFY_NONE) = (r = Some m)))"

lemma pop_plain:
  assumes "distinct L" "\<And>m. m \<in> set L \<Longrightarrow> select_of w m = None \<and> cc__chan_waiter_ticket_valid w m"
    and "recv_waiters ch = L" and "pop_recv_list L ch w = (ch', w', r)"
  shows "\<exists>ps. popped ch w L r ch' w' ps"
  using assms
proof (induction L arbitrary: ch w)
  case Nil
  then show ?case by (auto simp: popped_def)
next
  case (Cons n ns)
  have n: "n \<notin> set ns" using Cons.prems(1) by simp
  have win: "cc__chan_select_try_win w n = (w, True)" using Cons.prems(2) [of n] plain_win by simp
  show ?case
  proof (cases "notified (node w n) = NOTIFY_NONE")
    case True
    then have "ch' = drop_recv_head (recv_count_dec ch) n ns" "w' = set_linked w n False" "r = Some n"
      using Cons.prems(2) [of n] Cons.prems(4) win by auto
    then have "popped ch w (n # ns) r ch' w' [n]" using True by (auto simp: popped_def)
    then show ?thesis by blast
  next
    case False
    define c1 where "c1 = drop_recv_head (if notified (node w n) = NOTIFY_SIGNAL then recv_inflight_dec ch else ch) n ns"
    have "pop_recv_list ns c1 (set_linked w n False) = (ch', w', r)"
      using Cons.prems(4) False by (simp add: c1_def)
    moreover have "select_of (set_linked w n False) m = None \<and> cc__chan_waiter_ticket_valid (set_linked w n False) m"
      if "m \<in> set ns" for m
      using Cons.prems(2) [of m] that by (auto simp: select_of_def)
    moreover have "recv_waiters c1 = ns" by (simp add: c1_def)
    ultimately obtain ps where ps: "popped c1 (set_linked w n False) ns r ch' w' ps"
      using Cons.IH [of "set_linked w n False" c1] Cons.prems(1) by auto
    have "closed c1 = closed ch" "send_waiters c1 = send_waiters ch" by (simp_all add: c1_def)
    moreover have "r \<noteq> Some n" using ps n by (auto simp: popped_def)
    moreover have "n \<notin> set ps" using ps n by (auto simp: popped_def)
    moreover have "notified (node (set_linked w n False) m) = notified (node w m)" for m by simp
    moreover have "node w' m = (if m \<in> set (n # ps) then (node w m)\<lparr>in_wait_list := False\<rparr> else node w m)" for m
      using ps \<open>n \<notin> set ps\<close> by (simp add: popped_def)
    ultimately have "popped ch w (n # ns) r ch' w' (n # ps)"
      using ps False unfolding popped_def by (simp split: option.splits)
    then show ?thesis by blast
  qed
qed

text \<open>Signalling marks a set of waiting nodes and leaves the queue as it is.\<close>

definition signalled :: "chan \<Rightarrow> world \<Rightarrow> chan \<Rightarrow> world \<Rightarrow> bool" where
  "signalled ch w ch' w' =
    (recv_waiters ch' = recv_waiters ch \<and> closed ch' = closed ch \<and> send_waiters ch' = send_waiters ch \<and>
     ticket w' = ticket w \<and>
     (\<forall>m. node w' m = node w m \<or>
        m \<in> set (recv_waiters ch) \<and> notified (node w m) = NOTIFY_NONE \<and>
        node w' m = (node w m)\<lparr>notified := NOTIFY_SIGNAL\<rparr>))"

lemma signalled_refl [simp]: "signalled ch w ch w"
  by (simp add: signalled_def)

lemma signalled_trans:
  assumes "signalled a v b w" "signalled b w c x"
  shows "signalled a v c x"
proof -
  have "node x m = node v m \<or> m \<in> set (recv_waiters a) \<and> notified (node v m) = NOTIFY_NONE \<and>
      node x m = (node v m)\<lparr>notified := NOTIFY_SIGNAL\<rparr>" for m
  proof -
    have "node w m = node v m \<or> m \<in> set (recv_waiters a) \<and> notified (node v m) = NOTIFY_NONE \<and>
        node w m = (node v m)\<lparr>notified := NOTIFY_SIGNAL\<rparr>"
      and "node x m = node w m \<or> m \<in> set (recv_waiters a) \<and> notified (node w m) = NOTIFY_NONE \<and>
        node x m = (node w m)\<lparr>notified := NOTIFY_SIGNAL\<rparr>"
      using assms by (auto simp: signalled_def)
    then show ?thesis by (elim disjE) simp_all
  qed
  then show ?thesis using assms by (simp add: signalled_def)
qed

lemma signalled_hint: "signalled ch w ch' w' \<Longrightarrow> signalled ch w (ch'\<lparr>recv_signal_hint := h\<rparr>) w'"
  by (simp add: signalled_def)

lemma signalled_plain:
  assumes "signalled ch w ch' w'"
  shows "select_of w' m = select_of w m" "cc__chan_waiter_ticket_valid w' m = cc__chan_waiter_ticket_valid w m"
    "notified (node w m) \<noteq> NOTIFY_NONE \<Longrightarrow> notified (node w' m) \<noteq> NOTIFY_NONE"
proof -
  have "node w' m = node w m \<or> node w' m = (node w m)\<lparr>notified := NOTIFY_SIGNAL\<rparr>" "ticket w' = ticket w"
    using assms by (auto simp: signalled_def)
  then show "select_of w' m = select_of w m" "cc__chan_waiter_ticket_valid w' m = cc__chan_waiter_ticket_valid w m"
    "notified (node w m) \<noteq> NOTIFY_NONE \<Longrightarrow> notified (node w' m) \<noteq> NOTIFY_NONE"
    by (auto simp: select_of_def cc__chan_waiter_ticket_valid_def split: option.splits)
qed

definition plain_queue :: "chan \<Rightarrow> world \<Rightarrow> bool" where
  "plain_queue ch w = (recv_queue_ok ch w \<and> (\<forall>m \<in> set (recv_waiters ch). select_of w m = None))"

lemma plain_queueD:
  assumes "plain_queue ch w"
  shows "recv_queue_ok ch w" "distinct (recv_waiters ch)"
    "m \<in> set (recv_waiters ch) \<Longrightarrow> select_of w m = None \<and> cc__chan_waiter_ticket_valid w m"
    "has_recv_waiters ch = in_state w NOTIFY_NONE (recv_waiters ch)"
    "recv_wake_inflight ch = in_state w NOTIFY_SIGNAL (recv_waiters ch)"
  using assms by (auto simp: plain_queue_def recv_queue_ok_def)

lemma signalled_queue:
  "plain_queue ch w \<Longrightarrow> signalled ch w ch' w' \<Longrightarrow> recv_queue_ok ch' w' \<Longrightarrow> plain_queue ch' w'"
  using signalled_plain(1) by (auto simp: plain_queue_def signalled_def)

text \<open>A pass signals nodes while the budget lasts; it only leaves a waiting node behind when it has
  used the budget up.\<close>

lemma signal_pass_plain:
  assumes "plain_queue ch w" "set ns \<subseteq> set (recv_waiters ch)" "0 < b"
    and "signal_pass ns b ch w = (ch', w', b', r)"
  shows "plain_queue ch' w' \<and> signalled ch w ch' w' \<and> b' \<le> b \<and>
    has_recv_waiters ch' = has_recv_waiters ch - (int b - int b') \<and>
    (case r of None \<Rightarrow> 0 < b' \<and> (\<forall>m \<in> set ns. notified (node w' m) \<noteq> NOTIFY_NONE) | Some n \<Rightarrow> b' = 0)"
  using assms
proof (induction ns arbitrary: b ch w)
  case Nil
  then show ?case by auto
next
  case (Cons n ns)
  note D = plain_queueD [OF Cons.prems(1)]
  have n: "n \<in> set (recv_waiters ch)" using Cons.prems(2) by simp
  have win: "cc__chan_select_try_win w n = (w, True)" using D(3) [OF n] plain_win by simp
  show ?case
  proof (cases "notified (node w n) = NOTIFY_NONE")
    case False
    then have "signal_pass ns b ch w = (ch', w', b', r)" using Cons.prems(4) by simp
    from Cons.IH [OF Cons.prems(1) _ Cons.prems(3) this] show ?thesis
      using Cons.prems(2) False signalled_plain(3) [of ch w ch' w' n] by (auto split: option.splits)
  next
    case True
    let ?c = "(recv_count_dec ch)\<lparr>recv_wake_inflight := recv_wake_inflight ch + 1\<rparr>"
    let ?w = "notify_node w n NOTIFY_SIGNAL"
    have ok: "recv_queue_ok ?c ?w"
      by (rule notify_ok [OF D(1) n True]) (simp_all add: recv_count_dec_def)
    have sg: "signalled ch w ?c ?w" using n True by (auto simp: signalled_def recv_count_dec_def)
    have pq: "plain_queue ?c ?w" by (rule signalled_queue [OF Cons.prems(1) sg ok])
    have "1 \<le> in_state w NOTIFY_NONE (recv_waiters ch)"
      using in_state_remove1 [OF n, of w NOTIFY_NONE] True in_state_nonneg [of w NOTIFY_NONE]
      by (metis diff_ge_0_iff_ge)
    then have cnt: "has_recv_waiters ?c = has_recv_waiters ch - 1" using D(4) by (simp add: recv_count_dec_def)
    have run: "(if b \<le> 1 then (?c, ?w, 0, Some n) else signal_pass ns (b - 1) ?c ?w) = (ch', w', b', r)"
      using Cons.prems(4) True win D(3) [OF n] by (simp add: Let_def)
    show ?thesis
    proof (cases "b \<le> 1")
      case True
      then have "ch' = ?c" "w' = ?w" "b' = 0" "r = Some n" "b = 1" using run Cons.prems(3) by auto
      then show ?thesis using pq sg cnt by simp
    next
      case b: False
      have "set ns \<subseteq> set (recv_waiters ?c)" using Cons.prems(2) by (simp add: recv_count_dec_def)
      moreover have "signal_pass ns (b - 1) ?c ?w = (ch', w', b', r)" using run b by simp
      ultimately have ih: "plain_queue ch' w' \<and> signalled ?c ?w ch' w' \<and> b' \<le> b - 1 \<and>
          has_recv_waiters ch' = has_recv_waiters ?c - (int (b - 1) - int b') \<and>
          (case r of None \<Rightarrow> 0 < b' \<and> (\<forall>m \<in> set ns. notified (node w' m) \<noteq> NOTIFY_NONE) | Some n \<Rightarrow> b' = 0)"
        using Cons.IH [OF pq, of "b - 1"] b by auto
      then have "notified (node w' n) \<noteq> NOTIFY_NONE" using signalled_plain(3) [of ?c ?w ch' w' n] by simp
      then show ?thesis using ih cnt b signalled_trans [OF sg] by (auto split: option.splits)
    qed
  qed
qed


text \<open>The whole signalling step: a budget that covers all waiting nodes leaves none behind.\<close>

lemma no_waiting:
  assumes "plain_queue ch w" "has_recv_waiters ch \<le> 0" "m \<in> set (recv_waiters ch)"
  shows "notified (node w m) \<noteq> NOTIFY_NONE"
  using assms in_state_remove1 [of m "recv_waiters ch" w NOTIFY_NONE]
    in_state_nonneg [of w NOTIFY_NONE "remove1 m (recv_waiters ch)"] plain_queueD(4) [OF assms(1)] by auto

lemma signal_recv_plain:
  assumes pq: "plain_queue ch w" and sg: "cc__chan_signal_recv_waiters ch w k = (ch', w')"
  shows "plain_queue ch' w'" "signalled ch w ch' w'"
    "has_recv_waiters ch \<le> int k \<Longrightarrow> m \<in> set (recv_waiters ch) \<Longrightarrow> notified (node w' m) \<noteq> NOTIFY_NONE"
proof -
  have "plain_queue ch' w' \<and> signalled ch w ch' w' \<and>
    (has_recv_waiters ch \<le> int k \<longrightarrow> (\<forall>m \<in> set (recv_waiters ch). notified (node w' m) \<noteq> NOTIFY_NONE))"
  proof (cases "k = 0 \<or> recv_waiters ch = []")
    case True
    then have "ch' = ch" "w' = w" using sg by (auto simp: cc__chan_signal_recv_waiters_def)
    then show ?thesis using True pq no_waiting [OF pq] by auto
  next
    case False
    let ?L = "recv_waiters ch"
    define start where "start = (case recv_signal_hint ch of Some h \<Rightarrow> h | None \<Rightarrow> hd ?L)"
    let ?A = "takeWhile (\<lambda>x. x \<noteq> start) ?L" and ?B = "dropWhile (\<lambda>x. x \<noteq> start) ?L"
    have L: "set ?L = set ?A \<union> set ?B" by (metis set_append takeWhile_dropWhile_id)
    obtain ch1 w1 b r where p1: "signal_pass ?B k ch w = (ch1, w1, b, r)" by (metis prod_cases4)
    have k: "0 < k" using False by simp
    note s1 = signal_pass_plain [OF pq _ k p1]
    have s1: "plain_queue ch1 w1" "signalled ch w ch1 w1" "b \<le> k"
      "has_recv_waiters ch1 = has_recv_waiters ch - (int k - int b)"
      "case r of None \<Rightarrow> 0 < b \<and> (\<forall>m \<in> set ?B. notified (node w1 m) \<noteq> NOTIFY_NONE) | Some n \<Rightarrow> b = 0"
      using s1 L by auto
    have L1: "recv_waiters ch1 = ?L" using s1(2) by (simp add: signalled_def)
    have hint: "plain_queue (c\<lparr>recv_signal_hint := h\<rparr>) v"
      if "plain_queue c v" "recv_waiters c = ?L" "h = first_of ?L \<or> (\<exists>n. h = (case next_of ?L n of Some x \<Rightarrow> Some x | None \<Rightarrow> first_of ?L))"
      for c v h
    proof -
      have "hint_ok h ?L" using that(3) False first_of_in [of ?L]
        by (auto simp: hint_ok_def dest: next_of_in split: option.splits)
      then show ?thesis using that(1,2) set_hint_ok [of c v h] by (simp add: plain_queue_def)
    qed
    have whole: ?thesis
      if "ch' = c\<lparr>recv_signal_hint := h\<rparr>" "w' = v" "plain_queue c v" "signalled ch w c v"
        "h = first_of ?L \<or> (\<exists>n. h = (case next_of ?L n of Some x \<Rightarrow> Some x | None \<Rightarrow> first_of ?L))"
        "has_recv_waiters ch \<le> int k \<longrightarrow> (\<forall>m \<in> set ?L. notified (node v m) \<noteq> NOTIFY_NONE)" for c h v
      using that hint [of c v h] signalled_hint [of ch w c v h] by (auto simp: signalled_def)
    have eq: "cc__chan_signal_recv_waiters ch w k =
        (case r of
           Some n \<Rightarrow> (ch1\<lparr>recv_signal_hint := (case next_of ?L n of Some x \<Rightarrow> Some x | None \<Rightarrow> first_of ?L)\<rparr>, w1)
         | None \<Rightarrow> (if start = hd ?L then (ch1\<lparr>recv_signal_hint := first_of ?L\<rparr>, w1)
             else (case signal_pass ?A b ch1 w1 of (ch2, w2, _, r2) \<Rightarrow>
               (ch2\<lparr>recv_signal_hint := (case r2 of
                 Some n \<Rightarrow> (case next_of ?L n of Some x \<Rightarrow> Some x | None \<Rightarrow> first_of ?L)
               | None \<Rightarrow> first_of ?L)\<rparr>, w2))))"
      unfolding cc__chan_signal_recv_waiters_def Let_def start_def [symmetric]
      using False by (cases r) (simp_all add: p1)
    show ?thesis
    proof (cases r)
      case (Some n)
      have "has_recv_waiters ch \<le> int k \<longrightarrow> (\<forall>m \<in> set ?L. notified (node w1 m) \<noteq> NOTIFY_NONE)"
        using no_waiting [OF s1(1)] s1(4,5) L1 Some by auto
      then show ?thesis
        using Some sg eq by (intro whole [OF _ _ s1(1,2)]) auto
    next
      case None
      then have B: "0 < b" "\<forall>m \<in> set ?B. notified (node w1 m) \<noteq> NOTIFY_NONE" using s1(5) by auto
      show ?thesis
      proof (cases "start = hd ?L")
        case True
        then have "?B = ?L" using False by (cases ?L) auto
        then show ?thesis using None sg eq B True by (intro whole [OF _ _ s1(1,2)]) auto
      next
        case start: False
        obtain ch2 w2 b2 r2 where p2: "signal_pass ?A b ch1 w1 = (ch2, w2, b2, r2)" by (metis prod_cases4)
        have s2: "plain_queue ch2 w2" "signalled ch1 w1 ch2 w2"
          "has_recv_waiters ch2 = has_recv_waiters ch1 - (int b - int b2)"
          "case r2 of None \<Rightarrow> 0 < b2 \<and> (\<forall>m \<in> set ?A. notified (node w2 m) \<noteq> NOTIFY_NONE) | Some n \<Rightarrow> b2 = 0"
          using signal_pass_plain [OF s1(1) _ B(1) p2] L L1 by auto
        have all: "has_recv_waiters ch \<le> int k \<longrightarrow> (\<forall>m \<in> set ?L. notified (node w2 m) \<noteq> NOTIFY_NONE)"
        proof (cases r2)
          case None
          then show ?thesis using s2(4) B(2) L signalled_plain(3) [OF s2(2)] by auto
        next
          case (Some n)
          then show ?thesis using s2(2-4) s1(4) no_waiting [OF s2(1)] L1 by (auto simp: signalled_def)
        qed
        show ?thesis
          using None start sg eq p2 all
          by (cases r2; intro whole [OF _ _ s2(1) signalled_trans [OF s1(2) s2(2)]]) auto
      qed
    qed
  qed
  then show "plain_queue ch' w'" "signalled ch w ch' w'"
    "has_recv_waiters ch \<le> int k \<Longrightarrow> m \<in> set (recv_waiters ch) \<Longrightarrow> notified (node w' m) \<noteq> NOTIFY_NONE"
    by auto
qed

text \<open>Closing marks and unlinks every node of the queue.\<close>

lemma wake_all_recv_plain:
  assumes "plain_queue ch w" "wake_all_recv ch w = (ch', w')"
  shows "recv_waiters ch' = [] \<and> recv_queue_ok ch' w' \<and> closed ch' = closed ch \<and>
    send_waiters ch' = send_waiters ch \<and> ticket w' = ticket w \<and>
    (\<forall>m. node w' m = (if m \<in> set (recv_waiters ch)
       then (node w m)\<lparr>in_wait_list := False, notified := NOTIFY_CLOSE\<rparr> else node w m))"
  using assms
proof (induction "recv_waiters ch" arbitrary: ch w)
  case Nil
  then show ?case by (simp add: wake_all_recv.simps plain_queue_def)
next
  case (Cons n ns)
  note D = plain_queueD [OF Cons.prems(1)]
  have L: "recv_waiters ch = n # ns" using Cons.hyps(2) by simp
  have n: "n \<in> set (recv_waiters ch)" "n \<notin> set ns" using D(2) L by auto
  obtain c1 w1 where one: "cc__chan_wake_one_recv_waiter_close ch w = (c1, w1)" by fastforce
  have win: "cc__chan_select_try_win (set_linked w n False) n = (set_linked w n False, True)"
    using D(3) [OF n(1)] by (intro plain_win) (simp add: select_of_def split: if_splits)
  have w1: "node w1 = (node w)(n := (node w n)\<lparr>in_wait_list := False, notified := NOTIFY_CLOSE\<rparr>)" "ticket w1 = ticket w"
    and c1: "recv_waiters c1 = ns" "closed c1 = closed ch" "send_waiters c1 = send_waiters ch"
    using one win D(3) [OF n(1)] by (auto simp: cc__chan_wake_one_recv_waiter_close_def L Let_def split: if_splits)
  have "select_of w1 m = None" if m: "m \<in> set ns" for m
  proof -
    have "m \<noteq> n" using m n(2) by auto
    then have "select_of w1 m = select_of w m" by (simp add: select_of_def w1)
    then show ?thesis using D(3) [of m] m L by simp
  qed
  then have "plain_queue c1 w1"
    using wake_close_ok [OF D(1) one] c1(1) by (simp add: plain_queue_def)
  moreover have "wake_all_recv c1 w1 = (ch', w')"
    using Cons.prems(2) L one by (subst (asm) wake_all_recv.simps) simp
  ultimately have "recv_waiters ch' = [] \<and> recv_queue_ok ch' w' \<and> closed ch' = closed c1 \<and>
      send_waiters ch' = send_waiters c1 \<and> ticket w' = ticket w1 \<and>
      (\<forall>m. node w' m = (if m \<in> set (recv_waiters c1)
         then (node w1 m)\<lparr>in_wait_list := False, notified := NOTIFY_CLOSE\<rparr> else node w1 m))"
    using Cons.hyps(1) [of c1 w1] c1(1) by simp
  then show ?case using c1 w1 L n by auto
qed


section \<open>Preservation\<close>

text \<open>A section under the mutex of a sender or of a closer: nodes leave the queue only with a
  notification, and the nodes that stay are waiting or signalled.\<close>

definition shared :: "chan \<Rightarrow> world \<Rightarrow> chan \<Rightarrow> world \<Rightarrow> bool" where
  "shared ch w ch' w' =
    (recv_queue_ok ch' w' \<and> send_waiters ch' = send_waiters ch \<and> ticket w' = ticket w \<and>
     set (recv_waiters ch') \<subseteq> set (recv_waiters ch) \<and> (closed ch' \<longrightarrow> recv_waiters ch' = []) \<and>
     (\<forall>m. nfiber (node w' m) = nfiber (node w m) \<and> nticket (node w' m) = nticket (node w m) \<and>
        select_of w' m = select_of w m) \<and>
     (\<forall>m. m \<notin> set (recv_waiters ch) \<longrightarrow> node w' m = node w m) \<and>
     (\<forall>m \<in> set (recv_waiters ch). if m \<in> set (recv_waiters ch')
        then notified (node w' m) \<in> {notified (node w m), NOTIFY_SIGNAL}
        else notified (node w' m) \<noteq> NOTIFY_NONE \<and> \<not> in_wait_list (node w' m)))"

lemma sharedD:
  assumes "shared ch w ch' w'"
  shows "recv_queue_ok ch' w'" "send_waiters ch' = send_waiters ch" "ticket w' = ticket w"
    "m \<in> set (recv_waiters ch') \<Longrightarrow> m \<in> set (recv_waiters ch)" "closed ch' \<Longrightarrow> recv_waiters ch' = []"
    "nfiber (node w' m) = nfiber (node w m)" "nticket (node w' m) = nticket (node w m)"
    "select_of w' m = select_of w m" "m \<notin> set (recv_waiters ch) \<Longrightarrow> node w' m = node w m"
    "m \<in> set (recv_waiters ch') \<Longrightarrow> notified (node w' m) \<in> {notified (node w m), NOTIFY_SIGNAL}"
    "m \<in> set (recv_waiters ch) \<Longrightarrow> m \<notin> set (recv_waiters ch') \<Longrightarrow>
      notified (node w' m) \<noteq> NOTIFY_NONE \<and> \<not> in_wait_list (node w' m)"
  using assms unfolding shared_def by (auto split: if_splits)

lemma queue_inv_shared:
  assumes inv: "queue_inv n s" and sh: "shared (pch s) (pw s) (pch s') (pw s')" and rpc: "rpc s' = rpc s"
  shows "queue_inv n s'"
proof -
  note D = queue_invD [OF inv] and S = sharedD [OF sh]
  have mk: "mark s' m = mark s m" if "m \<notin> set (recv_waiters (pch s))" for m
    using S(9) [OF that] by (simp add: mark_def)
  show ?thesis
    unfolding queue_inv_def rpc
  proof (intro conjI allI ballI impI)
    show "recv_queue_ok (pch s') (pw s')" "send_waiters (pch s') = []" using S(1,2) D(2) by auto
  next
    fix m assume "n \<le> m"
    then show "rpc s m = R_Idle" by (rule D(3))
  next
    fix m assume m: "m \<in> set (recv_waiters (pch s'))"
    show "may_link (rpc s m)" by (rule D(4) [OF S(4) [OF m]])
    show "mark s' m \<in> {NOTIFY_NONE, NOTIFY_SIGNAL}"
      using S(10) [OF m] D(10) [OF S(4) [OF m]] by (auto simp: mark_def)
  next
    fix m assume "has_node (rpc s m)"
    then show "plain_node (pw s') m"
      by (rule plain_node_cong [OF S(6) S(8) S(7) fun_cong [OF S(3)] D(5)])
  next
    fix m assume m: "has_node (rpc s m)" "in_wait_list (node (pw s') m)"
    show "m \<in> set (recv_waiters (pch s'))"
    proof (cases "m \<in> set (recv_waiters (pch s))")
      case True
      then show ?thesis using S(11) m(2) by blast
    next
      case False
      then show ?thesis using S(9) [OF False] D(6) [OF m(1)] m(2) by simp
    qed
  next
    fix m assume m: "may_link (rpc s m)" "mark s' m = NOTIFY_NONE"
    show "m \<in> set (recv_waiters (pch s'))"
    proof (cases "m \<in> set (recv_waiters (pch s))")
      case True
      then show ?thesis using S(11) m(2) by (auto simp: mark_def)
    next
      case False
      then show ?thesis using mk [OF False] D(7) [OF m(1)] m(2) by simp
    qed
  next
    fix m assume m: "rpc s m \<in> {R_Probe, R_Relock}"
    then have "m \<notin> set (recv_waiters (pch s))" using D(4) [of m] by (auto simp: may_link_def)
    then show "mark s' m = NOTIFY_NONE" using mk D(8) [OF m] by simp
  next
    assume "closed (pch s')"
    then show "recv_waiters (pch s') = []" by (rule S(5))
  qed
qed

lemma shared_mark:
  "shared (pch s) (pw s) (pch s') (pw s') \<Longrightarrow> mark s' m = NOTIFY_NONE \<Longrightarrow> mark s m = NOTIFY_NONE"
  using sharedD(4,9,10,11) [of "pch s" "pw s" "pch s'" "pw s'" m] unfolding mark_def
  by (cases "m \<in> set (recv_waiters (pch s))"; cases "m \<in> set (recv_waiters (pch s'))") auto

lemma plain_queue_inv: "queue_inv n s \<Longrightarrow> plain_queue (pch s) (pw s)"
  using queue_invD(1,4,5) [of n s] by (fastforce simp: plain_queue_def plain_node_def has_node_def)

lemma shared_signal:
  assumes inv: "queue_inv n s" and sg: "cc__chan_signal_recv_waiters (pch s) (pw s) k = (c, w)"
  shows "shared (pch s) (pw s) c w"
proof -
  note P = signal_recv_plain [OF plain_queue_inv [OF inv] sg]
  have S: "recv_waiters c = recv_waiters (pch s)" "closed c = closed (pch s)" "send_waiters c = send_waiters (pch s)"
    "ticket w = ticket (pw s)"
    and nd: "\<And>m. node w m = node (pw s) m \<or> m \<in> set (recv_waiters (pch s)) \<and>
      notified (node (pw s) m) = NOTIFY_NONE \<and> node w m = (node (pw s) m)\<lparr>notified := NOTIFY_SIGNAL\<rparr>"
    using P(2) by (auto simp: signalled_def)
  have eq: "nfiber (node w m) = nfiber (node (pw s) m) \<and> nticket (node w m) = nticket (node (pw s) m) \<and>
      select_of w m = select_of (pw s) m \<and> notified (node w m) \<in> {notified (node (pw s) m), NOTIFY_SIGNAL}" for m
    using nd [of m] by (auto simp: select_of_def)
  show ?thesis
    unfolding shared_def using P(1) S eq nd queue_invD(9) [OF inv] by (auto simp: plain_queue_def)
qed

lemma shared_close:
  assumes inv: "queue_inv n s" and cl: "cc_chan_close (pch s) (pw s) = (c, w)"
  shows "shared (pch s) (pw s) c w" "closed c"
proof -
  let ?c = "close_fields (pch s) True False 0 0 None"
  let ?w = "(pw s)\<lparr>sig_not_empty := sig_not_empty (pw s) + 1, sig_not_full := sig_not_full (pw s) + 1\<rparr>"
  have c0: "recv_waiters ?c = recv_waiters (pch s)" "send_waiters ?c = []" "closed ?c"
    using queue_invD(2) [OF inv] by (simp_all add: close_fields_def)
  have pq: "plain_queue ?c ?w"
    using plain_queue_inv [OF inv]
    by (simp add: plain_queue_def recv_queue_ok_def close_fields_def in_state_def select_of_def split: if_splits)
  have ws: "wake_all_send ?c ?w = (?c, ?w)" using c0(2) by (simp add: wake_all_send.simps)
  obtain c1 w1 where wr: "wake_all_recv ?c ?w = (c1, w1)" by fastforce
  have c: "c = c1" and w: "node w = node w1" "ticket w = ticket w1"
    using cl ws wr by (auto simp: cc_chan_close_def close_common_alt Let_def cc__chan_wake_all_waiters_def
        cc__chan_signal_recv_ready_def)
  note R = wake_all_recv_plain [OF pq wr]
  have "recv_queue_ok c1 w"
    using R w by (intro recv_queue_ok_cong [of c1 w1 w]) auto
  then show "shared (pch s) (pw s) c w" "closed c"
    using R c0 w queue_invD(2) [OF inv] by (auto simp: c shared_def select_of_def)
qed


lemma shared_handoff:
  assumes inv: "queue_inv n s" and pop: "cc__chan_pop_recv_waiter (pch s) (pw s) = (c, w, x)"
    and open_: "\<not> closed (pch s)"
  shows "x = None \<Longrightarrow> shared (pch s) (pw s) c w"
    "x = Some m \<Longrightarrow> cc__chan_finish_send_to_recv_waiter c w m v = (c', w') \<Longrightarrow> shared (pch s) (pw s) c' w'"
proof -
  note P = plain_queueD [OF plain_queue_inv [OF inv]]
  have ok: "recv_queue_ok c w" using pop_recv_list_ok [OF P(1) refl] pop by (simp add: cc__chan_pop_recv_waiter_def)
  obtain ps where ps: "popped (pch s) (pw s) (recv_waiters (pch s)) x c w ps"
    using pop_plain [OF P(2,3) refl] pop unfolding cc__chan_pop_recv_waiter_def by blast
  have L: "recv_waiters (pch s) = ps @ recv_waiters c" and cl: "\<not> closed c" "send_waiters c = send_waiters (pch s)"
    and tk: "ticket w = ticket (pw s)"
    and nd: "\<And>k. node w k = (if k \<in> set ps then (node (pw s) k)\<lparr>in_wait_list := False\<rparr> else node (pw s) k)"
    and nt: "\<And>k. k \<in> set ps \<Longrightarrow> (notified (node (pw s) k) = NOTIFY_NONE) = (x = Some k)"
    and xp: "\<And>k. x = Some k \<Longrightarrow> k \<in> set ps"
    using ps open_ by (auto simp: popped_def)
  have dj: "set ps \<inter> set (recv_waiters c) = {}" using P(2) by (simp add: L)
  have so: "select_of w k = select_of (pw s) k" for k by (simp add: select_of_def nd)
  show "shared (pch s) (pw s) c w" if "x = None"
    using ok cl tk nd nt so that dj by (auto simp: shared_def L)
  show "shared (pch s) (pw s) c' w'"
    if x: "x = Some m" and fin: "cc__chan_finish_send_to_recv_waiter c w m v = (c', w')"
  proof -
    have m: "m \<in> set ps" by (rule xp [OF x])
    have c': "recv_waiters c' = recv_waiters c" "closed c' = closed c" "send_waiters c' = send_waiters c"
      "has_recv_waiters c' = has_recv_waiters c" "recv_wake_inflight c' = recv_wake_inflight c"
      "recv_signal_hint c' = recv_signal_hint c"
      using fin by (auto simp: cc__chan_finish_send_to_recv_waiter_def Let_def)
    have w': "node w' k = (if k = m then (node w k)\<lparr>ndata := take (elem_size c) v, notified := NOTIFY_DATA\<rparr> else node w k)"
      "ticket w' = ticket w" for k
      using fin by (auto simp: cc__chan_finish_send_to_recv_waiter_def Let_def store_node_data_def)
    have "recv_queue_ok c w'"
    proof (rule recv_queue_ok_cong [OF ok])
      fix k assume "k \<in> set (recv_waiters c)"
      then have "k \<noteq> m" using dj m by auto
      then have "node w' k = node w k" by (simp add: w')
      then show "node w' k = node w k \<and> cc__chan_waiter_ticket_valid w' k = cc__chan_waiter_ticket_valid w k"
        using ticket_valid_cong [of w' k w] w'(2) by simp
    qed
    then have "recv_queue_ok c' w'" by (simp add: recv_queue_ok_def c')
    moreover have "select_of w' k = select_of (pw s) k" for k by (simp add: select_of_def w' nd)
    ultimately show ?thesis
      using cl tk nd nt dj x m by (auto simp: shared_def L c' w')
  qed
qed

text \<open>The sections under the mutex of receiver r.\<close>

lemma drop_waiter_fields:
  assumes inv: "queue_inv n s" and hn: "has_node (rpc s r)"
  shows "rpc (drop_waiter s r) = rpc s" "spc (drop_waiter s r) = spc s" "pitems (drop_waiter s r) = pitems s"
    "plog (drop_waiter s r) = plog s"
    "recv_queue_ok (pch (drop_waiter s r)) (pw (drop_waiter s r))" "send_waiters (pch (drop_waiter s r)) = []"
    "closed (pch (drop_waiter s r)) = closed (pch s)"
    "recv_waiters (pch (drop_waiter s r)) = remove1 r (recv_waiters (pch s))"
    "node (pw (drop_waiter s r)) = (node (pw s))(r := (node (pw s) r)\<lparr>in_wait_list := False\<rparr>)"
    "ticket (pw (drop_waiter s r)) = ticket (pw s)"
    "r \<notin> set (recv_waiters (pch (drop_waiter s r)))"
proof -
  note D = queue_invD [OF inv]
  obtain c w where rm: "cc__chan_remove_recv_waiter (pch s) (pw s) r = (c, w)" by fastforce
  have s1: "drop_waiter s r = s\<lparr>pch := c, pw := w\<rparr>" by (simp add: drop_waiter_def rm)
  have ok: "recv_queue_ok c w" by (rule remove_recv_ok [OF D(1) D(6) [OF hn] rm])
  have nin: "r \<notin> set (recv_waiters (pch s))" if "\<not> in_wait_list (node (pw s) r)"
    using that D(1) by (auto simp: recv_queue_ok_def)
  have id: "(node (pw s))(r := (node (pw s) r)\<lparr>in_wait_list := False\<rparr>) = node (pw s)" if "\<not> in_wait_list (node (pw s) r)"
    using that by (cases "node (pw s) r") auto
  have "send_waiters c = [] \<and> closed c = closed (pch s) \<and> recv_waiters c = remove1 r (recv_waiters (pch s)) \<and>
    node w = (node (pw s))(r := (node (pw s) r)\<lparr>in_wait_list := False\<rparr>) \<and> ticket w = ticket (pw s)"
    using rm D(2) nin id
    by (cases "in_wait_list (node (pw s) r)")
      (auto simp: cc__chan_remove_recv_waiter_def Let_def cc__chan_recv_signal_hint_advance_def remove1_idem
        split: if_splits)
  then show "rpc (drop_waiter s r) = rpc s" "spc (drop_waiter s r) = spc s" "pitems (drop_waiter s r) = pitems s"
    "plog (drop_waiter s r) = plog s"
    "recv_queue_ok (pch (drop_waiter s r)) (pw (drop_waiter s r))" "send_waiters (pch (drop_waiter s r)) = []"
    "closed (pch (drop_waiter s r)) = closed (pch s)"
    "recv_waiters (pch (drop_waiter s r)) = remove1 r (recv_waiters (pch s))"
    "node (pw (drop_waiter s r)) = (node (pw s))(r := (node (pw s) r)\<lparr>in_wait_list := False\<rparr>)"
    "ticket (pw (drop_waiter s r)) = ticket (pw s)"
    "r \<notin> set (recv_waiters (pch (drop_waiter s r)))"
    using ok D(1) by (simp_all add: s1 recv_queue_ok_def)
qed

text \<open>After the removal the receiver leaves the linked points, or probes with its node unmarked.\<close>

lemma queue_inv_drop:
  assumes inv: "queue_inv n s" and r: "r < n" and ml: "may_link (rpc s r)"
    and p: "p \<notin> {R_Check, R_EarlyA, R_EarlyB, R_Unlink, R_Pre, R_Recheck, R_Parked, R_Post, R_Relock}"
    and pr: "p = R_Probe \<Longrightarrow> mark s r = NOTIFY_NONE"
    and s': "pch s' = pch (drop_waiter s r)" "node (pw s') = (node (pw (drop_waiter s r)))(r := x)"
      "ticket (pw s') = ticket (pw s)" "rpc s' = (rpc s)(r := p)"
    and x: "x = node (pw (drop_waiter s r)) r \<or> p = R_Loop"
  shows "queue_inv n s'"
proof -
  note D = queue_invD [OF inv]
  have hn: "has_node (rpc s r)" using ml by (simp add: has_node_def)
  note F = drop_waiter_fields [OF inv hn]
  have nr: "r \<notin> set (recv_waiters (pch s'))" using F(11) by (simp add: s')
  have nodes: "node (pw s') m = node (pw s) m" if "m \<noteq> r" for m using that by (simp add: s' F(9))
  have xx: "x = (node (pw s) r)\<lparr>in_wait_list := False\<rparr>" if "p = R_Probe" using x that by (simp add: F(9))
  show ?thesis
  proof (rule queue_inv_step [OF inv r s'(4)])
    show "recv_queue_ok (pch s') (pw s')"
    proof -
      have "recv_queue_ok (pch (drop_waiter s r)) (pw s')"
      proof (rule recv_queue_ok_cong [OF F(5)])
        fix m assume "m \<in> set (recv_waiters (pch (drop_waiter s r)))"
        then have "m \<noteq> r" using F(11) by auto
        then have "node (pw s') m = node (pw (drop_waiter s r)) m" by (simp add: s')
        then show "node (pw s') m = node (pw (drop_waiter s r)) m \<and>
            cc__chan_waiter_ticket_valid (pw s') m = cc__chan_waiter_ticket_valid (pw (drop_waiter s r)) m"
          using ticket_valid_cong [of "pw s'" m "pw (drop_waiter s r)"] by (simp add: s' F(10))
      qed
      then show ?thesis by (simp add: s')
    qed
    show "plain_node (pw s') r" if "has_node p"
    proof -
      have "p = R_Probe" using that p by (cases p) (auto simp: pc_defs)
      then show ?thesis using D(5) [OF hn] xx
        by (intro plain_node_cong [OF _ _ _ _ D(5) [OF hn]]) (simp_all add: s' select_of_def)
    qed
    show "r \<in> set (recv_waiters (pch s'))" if "has_node p" "in_wait_list (node (pw s') r)"
    proof -
      have "p = R_Probe" using that p by (cases p) (auto simp: pc_defs)
      then show ?thesis using that(2) xx by (simp add: s')
    qed
    show "mark s' r = NOTIFY_NONE" if "p \<in> {R_Probe, R_Relock}"
    proof -
      have "p = R_Probe" using that p by auto
      then show ?thesis using pr xx by (simp add: mark_def s')
    qed
    show "recv_waiters (pch s') = []" if "closed (pch s)" using D(9) [OF that] by (simp add: s' F(8))
    show "set (recv_waiters (pch s')) - {r} = set (recv_waiters (pch s)) - {r}"
      using D(1) by (auto simp: s' F(8) recv_queue_ok_def)
    show "r \<in> set (recv_waiters (pch s'))" if "may_link p" using that p by (auto simp: pc_defs)
    show "may_link p \<and> mark s' r \<in> {NOTIFY_NONE, NOTIFY_SIGNAL}" if "r \<in> set (recv_waiters (pch s'))"
      using that nr by blast
  qed (simp_all add: s' F(6,7) nodes, simp add: F(9))
qed


text \<open>Linking the node of receiver r, freshly initialised or still unmarked after the probe.\<close>

lemma queue_inv_add:
  assumes inv: "queue_inv n s" and r: "r < n" and nl: "\<not> may_link (rpc s r)" and open_: "\<not> closed (pch s)"
    and w: "w = init_node (pw s) r r [] \<or> w = pw s \<and> rpc s r = R_Relock" and p: "may_link p"
    and s': "s' = goto (add_waiter s r w) r p"
  shows "queue_inv n s'" "m \<noteq> r \<Longrightarrow> mark s' m = mark s m" "pitems s' = pitems s" "spc s' = spc s"
    "rpc s' = (rpc s)(r := p)"
proof -
  note D = queue_invD [OF inv]
  have rL: "r \<notin> set (recv_waiters (pch s))" using D(4) nl by blast
  have other: "node w m = node (pw s) m" if "m \<noteq> r" for m using w that by (auto simp: init_node_def)
  have tkt: "ticket w = ticket (pw s)" using w by (auto simp: init_node_def)
  have self: "nfiber (node w r) = Some r \<and> select_of w r = None \<and> notified (node w r) = NOTIFY_NONE \<and>
      cc__chan_waiter_ticket_valid w r"
  proof (cases "w = init_node (pw s) r r []")
    case True
    then show ?thesis by (simp add: init_node_def select_of_def cc__chan_waiter_ticket_valid_def)
  next
    case False
    then have "w = pw s" "rpc s r = R_Relock" using w by auto
    then show ?thesis using D(5) [of r] D(8) [of r] by (simp add: plain_node_def has_node_def mark_def)
  qed
  have fib: "nfiber (node (pw s) m) = Some m" if "m \<in> set (recv_waiters (pch s))" for m
    using D(5) [of m] D(4) [OF that] by (simp add: has_node_def plain_node_def)
  have okw: "recv_queue_ok (pch s) w"
  proof (rule recv_queue_ok_cong [OF D(1)])
    fix m assume "m \<in> set (recv_waiters (pch s))"
    then have "m \<noteq> r" using rL by auto
    then show "node w m = node (pw s) m \<and> cc__chan_waiter_ticket_valid w m = cc__chan_waiter_ticket_valid (pw s) m"
      using other [of m] tkt ticket_valid_cong [of w m "pw s"] by simp
  qed
  have "nfiber (node w m) \<noteq> nfiber (node w r)" if "m \<in> set (recv_waiters (pch s))" for m
  proof -
    have "m \<noteq> r" using that rL by auto
    then show ?thesis using fib [OF that] self other [of m] by simp
  qed
  then have fr: "fresh_waiter w (recv_waiters (pch s)) r" using self rL by (simp add: fresh_waiter_def)
  obtain c v where ad: "cc__chan_add_recv_waiter (pch s) w r = (c, v)" by fastforce
  have v: "v = publish_waiter w r" and c: "recv_waiters c = recv_waiters (pch s) @ [r]"
    "send_waiters c = []" "closed c = closed (pch s)"
    using ad D(2) by (auto simp: cc__chan_add_recv_waiter_def)
  have st: "pch s' = c" "pw s' = v" "rpc s' = (rpc s)(r := p)" "pitems s' = pitems s" "spc s' = spc s"
    by (simp_all add: s' add_waiter_def ad)
  have vo: "node v m = node (pw s) m" if "m \<noteq> r" for m using other that by (simp add: v publish_waiter_simps)
  have tko: "ticket v m = ticket (pw s) m" if "m \<noteq> r" for m
    using self that tkt by (simp add: v publish_waiter_def Let_def)
  have mr: "mark s' r = NOTIFY_NONE" using self by (simp add: mark_def st v publish_waiter_simps)
  show "rpc s' = (rpc s)(r := p)" "pitems s' = pitems s" "spc s' = spc s" by (rule st)+
  show "mark s' m = mark s m" if "m \<noteq> r" using vo [OF that] by (simp add: mark_def st)
  show "queue_inv n s'"
  proof (rule queue_inv_step [OF inv r st(3)])
    show "recv_queue_ok (pch s') (pw s')" using add_recv_ok [OF okw fr ad] by (simp add: st)
    show "plain_node (pw s') r"
      using self publish_waiter_valid(1) [OF fr]
      by (simp add: plain_node_def st v select_of_def publish_waiter_simps split: if_splits)
  qed (use open_ c mr p vo tko in \<open>auto simp: st pc_defs\<close>)
qed

text \<open>Every step of a receiver keeps the queue consistent; it parks only when the ring is empty
  and does not touch the marks of the others.\<close>

definition recv_frame :: "park_sys \<Rightarrow> nat \<Rightarrow> park_sys \<Rightarrow> bool" where
  "recv_frame s r s' =
    (spc s' = spc s \<and> (pitems s' \<noteq> [] \<longrightarrow> pitems s \<noteq> []) \<and>
     (\<forall>m. m \<noteq> r \<longrightarrow> mark s' m = mark s m \<and> rpc s' m = rpc s m) \<and>
     (rpc s' r = R_Parked \<longrightarrow> pitems s' = [] \<or> s' = s))"

definition recv_ok :: "nat \<Rightarrow> park_sys \<Rightarrow> nat \<Rightarrow> park_sys \<Rightarrow> bool" where
  "recv_ok n s r s' = (queue_inv n s' \<and> recv_frame s r s')"

lemma recv_ok_same: "queue_inv n s \<Longrightarrow> recv_ok n s r s"
  by (simp add: recv_ok_def recv_frame_def)

lemma recv_ok_goto:
  assumes "queue_inv n s" "r < n" "may_link (rpc s r) \<Longrightarrow> may_link p" "may_link p \<Longrightarrow> may_link (rpc s r)"
    "p \<in> {R_Probe, R_Relock} \<Longrightarrow> rpc s r \<in> {R_Probe, R_Relock}" "p = R_Parked \<Longrightarrow> pitems s = []"
  shows "recv_ok n s r (goto s r p)"
  unfolding recv_ok_def
proof
  show "queue_inv n (goto s r p)"
    by (rule queue_inv_move [OF assms(1,2), of _ p]) (use assms(3-5) in \<open>auto simp: has_node_def\<close>)
  show "recv_frame s r (goto s r p)" using assms(6) by (simp add: recv_frame_def)
qed

lemma recv_ok_deliver:
  assumes "queue_inv n s" "r < n" "may_link (rpc s r) \<Longrightarrow> mark s r = NOTIFY_DATA" "xs \<noteq> [] \<Longrightarrow> pitems s \<noteq> []"
  shows "recv_ok n s r (deliver (s\<lparr>pitems := xs\<rparr>) r v)"
  unfolding recv_ok_def
proof
  show "queue_inv n (deliver (s\<lparr>pitems := xs\<rparr>) r v)"
    by (rule queue_inv_move [OF assms(1,2), of _ R_Idle]) (use assms(3) in \<open>auto simp: pc_defs\<close>)
  show "recv_frame s r (deliver (s\<lparr>pitems := xs\<rparr>) r v)" using assms(4) by (simp add: recv_frame_def)
qed

lemma recv_ok_data:
  "queue_inv n s \<Longrightarrow> r < n \<Longrightarrow> mark s r = NOTIFY_DATA \<Longrightarrow> recv_ok n s r (deliver s r v)"
  using recv_ok_deliver [of n s r "pitems s" v] by simp

lemma recv_ok_take:
  assumes "queue_inv n s" "r < n" "\<not> may_link (rpc s r)" "p \<notin> {R_Probe}" "\<not> may_link p"
    "p = R_Relock \<Longrightarrow> rpc s r = R_Probe"
  shows "recv_ok n s r (take_item s r p)"
proof (cases "pitems s")
  case Nil
  have "p \<noteq> R_Parked" using assms(5) by (auto simp: may_link_def)
  then have "recv_ok n s r (goto s r p)" using assms by (intro recv_ok_goto) auto
  then show ?thesis by (simp add: take_item_def Nil)
next
  case (Cons x xs)
  then have "recv_ok n s r (deliver (s\<lparr>pitems := xs\<rparr>) r x)" using assms(1-3) by (intro recv_ok_deliver) auto
  then show ?thesis by (simp add: take_item_def Cons)
qed

lemma recv_ok_drop:
  assumes "queue_inv n s" "r < n" "may_link (rpc s r)" "p \<in> {R_Loop, R_Drain, R_Probe}"
    "p = R_Probe \<Longrightarrow> mark s r = NOTIFY_NONE"
  shows "recv_ok n s r (goto (drop_waiter s r) r p)"
proof -
  have hn: "has_node (rpc s r)" using assms(3) by (simp add: has_node_def)
  note F = drop_waiter_fields [OF assms(1) hn]
  have "queue_inv n (goto (drop_waiter s r) r p)"
    by (rule queue_inv_drop [OF assms(1-3) _ assms(5), of _ _ "node (pw (drop_waiter s r)) r"])
      (use assms(4) in \<open>auto simp: F\<close>)
  then show ?thesis using assms(4) by (auto simp: recv_ok_def recv_frame_def mark_def F)
qed

lemma recv_ok_signal:
  assumes "queue_inv n s" "r < n" "may_link (rpc s r)"
  shows "recv_ok n s r (goto ((drop_waiter s r)\<lparr>pw := set_notified (pw (drop_waiter s r)) r k\<rparr>) r R_Loop)"
    (is "recv_ok n s r ?s")
proof -
  have hn: "has_node (rpc s r)" using assms(3) by (simp add: has_node_def)
  note F = drop_waiter_fields [OF assms(1) hn]
  have "queue_inv n ?s"
    by (rule queue_inv_drop [OF assms(1-3), of R_Loop _ "(node (pw (drop_waiter s r)) r)\<lparr>notified := k\<rparr>"])
      (auto simp: F)
  then show ?thesis by (auto simp: recv_ok_def recv_frame_def mark_def F)
qed

lemma recv_ok_add:
  assumes "queue_inv n s" "r < n" "\<not> may_link (rpc s r)" "\<not> closed (pch s)"
    "w = init_node (pw s) r r [] \<or> w = pw s \<and> rpc s r = R_Relock" "may_link p" "p \<noteq> R_Parked"
  shows "recv_ok n s r (goto (add_waiter s r w) r p)"
  using queue_inv_add [OF assms(1-6) refl] assms(7) by (simp add: recv_ok_def recv_frame_def)

lemma recv_step_ok:
  assumes inv: "queue_inv n s" and r: "r < n"
  shows "recv_ok n s r (recv_step s r)"
proof (cases "rpc s r")
  case R_Idle
  then show ?thesis using recv_ok_same [OF inv] by (simp add: recv_step_defs)
next
  case R_Loop
  then show ?thesis using recv_ok_take [OF inv r, of R_Lock] by (simp add: recv_step_defs may_link_def)
next
  case R_Lock
  then show ?thesis
    using recv_ok_goto [OF inv r, of R_Drain] recv_ok_add [OF inv r, of "init_node (pw s) r r []" R_Check]
    by (simp add: recv_step_defs may_link_def)
next
  case R_Check
  then show ?thesis
    using recv_ok_goto [OF inv r, of R_EarlyA] recv_ok_goto [OF inv r, of R_EarlyB]
    by (simp add: recv_step_defs may_link_def)
next
  case R_EarlyA
  then show ?thesis
    using recv_ok_goto [OF inv r, of R_Unlink] recv_ok_data [OF inv r] by (simp add: recv_step_defs may_link_def)
next
  case R_EarlyB
  then show ?thesis
    using recv_ok_goto [OF inv r, of R_Pre] recv_ok_data [OF inv r] by (simp add: recv_step_defs may_link_def)
next
  case R_Unlink
  then show ?thesis
    using recv_ok_drop [OF inv r, of R_Loop] recv_ok_data [OF inv r] by (simp add: recv_step_defs may_link_def)
next
  case R_Pre
  then show ?thesis
    using recv_ok_drop [OF inv r, of R_Loop] recv_ok_drop [OF inv r, of R_Probe] recv_ok_data [OF inv r]
    by (simp add: recv_step_defs may_link_def)
next
  case R_Probe
  then show ?thesis using recv_ok_take [OF inv r, of R_Relock] by (simp add: recv_step_defs may_link_def)
next
  case R_Relock
  then have "mark s r = NOTIFY_NONE" using queue_invD(8) [OF inv, of r] by simp
  then show ?thesis
    using R_Relock recv_ok_goto [OF inv r, of R_Drain] recv_ok_add [OF inv r, of "pw s" R_Recheck]
    by (simp add: recv_step_defs may_link_def)
next
  case R_Recheck
  then show ?thesis
    using recv_ok_goto [OF inv r, of R_EarlyA] recv_ok_goto [OF inv r, of R_Parked]
    by (simp add: recv_step_defs may_link_def)
next
  case R_Parked
  then show ?thesis
    using recv_ok_goto [OF inv r, of R_Post] recv_ok_same [OF inv] by (simp add: recv_step_defs may_link_def)
next
  case R_Post
  then have ml: "may_link (rpc s r)" by (simp add: may_link_def)
  show ?thesis
    using recv_ok_drop [OF inv r ml, of R_Loop] recv_ok_drop [OF inv r ml, of R_Drain]
      recv_ok_signal [OF inv r ml, of NOTIFY_NONE] recv_ok_data [OF inv r]
    by (simp add: recv_step_defs R_Post)
next
  case R_Drain
  then show ?thesis using recv_ok_take [OF inv r, of R_Idle] by (simp add: recv_step_defs may_link_def)
qed

lemma recv_idle: "queue_inv n s \<Longrightarrow> n \<le> r \<Longrightarrow> recv_step s r = s"
  using queue_invD(3) by (simp add: recv_step_defs)


text \<open>The steps of a sender.\<close>

lemma signal_counts:
  assumes inv: "queue_inv n s" and m: "m \<in> set (recv_waiters (pch s))" "mark s m = NOTIFY_NONE"
  shows "1 \<le> has_recv_waiters (pch s)" "has_recv_waiters (pch s) + recv_wake_inflight (pch s) \<le> int n"
proof -
  let ?L = "recv_waiters (pch s)"
  note D = queue_invD [OF inv] and P = plain_queueD [OF plain_queue_inv [OF inv]]
  show "1 \<le> has_recv_waiters (pch s)"
    using in_state_remove1 [OF m(1), of "pw s" NOTIFY_NONE] in_state_nonneg [of "pw s" NOTIFY_NONE "remove1 m ?L"] m(2) P(4)
    by (simp add: mark_def)
  have "k < n" if "k \<in> set ?L" for k
    using D(3) [of k] D(4) [OF that] by (cases "k < n") (auto simp: may_link_def)
  then have "set ?L \<subseteq> {..<n}" by auto
  then have "length ?L \<le> n" using P(2) card_mono [of "{..<n}" "set ?L"] by (simp add: distinct_card)
  moreover have "in_state w NOTIFY_NONE ns + in_state w NOTIFY_SIGNAL ns \<le> int (length ns)" for w ns
    by (induction ns) auto
  ultimately show "has_recv_waiters (pch s) + recv_wake_inflight (pch s) \<le> int n"
    using P(4,5) by (smt (verit) of_nat_mono)
qed

lemma wake_inv_step:
  assumes "wake_inv s" "\<And>m. rpc s' m = R_Parked \<Longrightarrow> mark s' m = NOTIFY_NONE \<Longrightarrow> pitems s' \<noteq> [] \<Longrightarrow>
      rpc s m = R_Parked \<and> mark s m = NOTIFY_NONE \<and> pitems s \<noteq> [] \<or> pending s'"
    and "pending s \<Longrightarrow> pending s' \<or> (\<forall>m. rpc s' m = R_Parked \<longrightarrow> mark s' m \<noteq> NOTIFY_NONE)"
  shows "wake_inv s'"
  using assms unfolding wake_inv_def by blast

lemma pending_sgoto:
  assumes "pending s" "spc s i \<notin> {N_Load, N_Inflight, N_Lock} \<or> q \<in> {N_Load, N_Inflight, N_Lock}"
    "spc s' = (spc s)(i := q)"
  shows "pending s'"
proof -
  obtain j where j: "spc s j \<in> {N_Load, N_Inflight, N_Lock}" using assms(1) by (auto simp: pending_def)
  show ?thesis
  proof (cases "j = i")
    case True
    then have "spc s' i \<in> {N_Load, N_Inflight, N_Lock}" using assms(2,3) j by auto
    then show ?thesis unfolding pending_def by blast
  next
    case False
    then have "spc s' j \<in> {N_Load, N_Inflight, N_Lock}" using assms(3) j by simp
    then show ?thesis unfolding pending_def by blast
  qed
qed

definition send_ok :: "nat \<Rightarrow> park_sys \<Rightarrow> bool" where
  "send_ok n s = (queue_inv n s \<and> wake_inv s)"

lemma queue_inv_sgoto [simp]: "queue_inv n (sgoto s i q) = queue_inv n s"
  by (simp add: queue_inv_def)

lemma queue_inv_items [simp]: "queue_inv n (s\<lparr>pitems := xs\<rparr>) = queue_inv n s"
  by (simp add: queue_inv_def)

lemma send_ok_quiet:
  assumes "send_ok n s" "spc s i \<notin> {N_Load, N_Inflight, N_Lock} \<or> q \<in> {N_Load, N_Inflight, N_Lock}"
  shows "send_ok n (sgoto s i q)"
  using assms pending_sgoto [of s i q "sgoto s i q"] by (auto simp: send_ok_def wake_inv_def)

lemma send_ok_shared:
  assumes ok: "send_ok n s" and sh: "shared (pch s) (pw s) c w"
    and i: "spc s i \<notin> {N_Load, N_Inflight, N_Lock}"
  shows "send_ok n (sgoto (s\<lparr>pch := c, pw := w\<rparr>) i q)"
proof -
  let ?s = "sgoto (s\<lparr>pch := c, pw := w\<rparr>) i q"
  have sh': "shared (pch s) (pw s) (pch ?s) (pw ?s)" using sh by simp
  have "queue_inv n ?s" by (rule queue_inv_shared [OF _ sh']) (use ok in \<open>simp_all add: send_ok_def\<close>)
  moreover have "wake_inv ?s"
  proof (rule wake_inv_step)
    show "wake_inv s" using ok by (simp add: send_ok_def)
    show "pending ?s \<or> (\<forall>m. rpc ?s m = R_Parked \<longrightarrow> mark ?s m \<noteq> NOTIFY_NONE)" if "pending s"
      using pending_sgoto [OF that, of i q ?s] i by simp
    show "rpc s m = R_Parked \<and> mark s m = NOTIFY_NONE \<and> pitems s \<noteq> [] \<or> pending ?s"
      if "rpc ?s m = R_Parked" "mark ?s m = NOTIFY_NONE" "pitems ?s \<noteq> []" for m
      using that shared_mark [OF sh' that(2)] by simp
  qed
  ultimately show ?thesis by (simp add: send_ok_def)
qed

lemma signal_all:
  assumes inv: "queue_inv n s" and tg: "n \<le> target"
    and sg: "cc__chan_signal_recv_waiters (pch s) (pw s) (cc__chan_recv_wake_budget (int target) (pch s)) = (c, w)"
    and m: "m \<in> set (recv_waiters (pch s))"
  shows "notified (node w m) \<noteq> NOTIFY_NONE"
proof -
  note P = signal_recv_plain [OF plain_queue_inv [OF inv] sg]
  show ?thesis
  proof (cases "has_recv_waiters (pch s) \<le> 0")
    case True
    then have "mark s m \<noteq> NOTIFY_NONE" using signal_counts(1) [OF inv m] by auto
    then show ?thesis using signalled_plain(3) [OF P(2)] by (simp add: mark_def)
  next
    case False
    have "\<exists>k \<in> set (recv_waiters (pch s)). mark s k = NOTIFY_NONE"
    proof (rule ccontr)
      assume "\<not> ?thesis"
      then have "in_state (pw s) NOTIFY_NONE (recv_waiters (pch s)) = 0"
        by (auto simp: in_state_def mark_def filter_empty_conv)
      then show False using False plain_queueD(4) [OF plain_queue_inv [OF inv]] by simp
    qed
    then have "has_recv_waiters (pch s) + recv_wake_inflight (pch s) \<le> int n" using signal_counts(2) [OF inv] by blast
    then have "has_recv_waiters (pch s) \<le> int (cc__chan_recv_wake_budget (int target) (pch s))"
      using tg False by (simp add: cc__chan_recv_wake_budget_def)
    then show ?thesis by (rule P(3) [OF _ m])
  qed
qed

text \<open>A sender about to wake takes one more step towards the wake, or is through with it.\<close>

definition all_marked :: "park_sys \<Rightarrow> bool" where
  "all_marked s = (\<forall>m. rpc s m = R_Parked \<longrightarrow> mark s m \<noteq> NOTIFY_NONE)"

lemma all_markedI:
  assumes "queue_inv n s" "\<And>m. m \<in> set (recv_waiters (pch s)) \<Longrightarrow> mark s m \<noteq> NOTIFY_NONE"
  shows "all_marked s"
  using assms queue_invD(7) [OF assms(1)] by (auto simp: all_marked_def may_link_def)

lemma all_marked_sgoto [simp]: "all_marked (sgoto s i q) = all_marked s"
  by (simp add: all_marked_def)

lemma waker_step:
  assumes inv: "queue_inv n s" and tg: "n \<le> target" and i: "spc s i \<in> {N_Load, N_Inflight, N_Lock}"
    and s': "s' = send_step room target s i"
  shows "rpc s' = rpc s \<and> queue_inv n s' \<and>
    (spc s' i = N_Idle \<and> all_marked s' \<or>
     spc s i = N_Load \<and> spc s' i = N_Inflight \<or> spc s i = N_Inflight \<and> spc s' i = N_Lock)"
proof -
  have none: "all_marked s" if "\<And>m. m \<in> set (recv_waiters (pch s)) \<Longrightarrow> mark s m = NOTIFY_NONE \<Longrightarrow> False"
    using that by (intro all_markedI [OF inv]) auto
  consider (load) "spc s i = N_Load" | (inflight) "spc s i = N_Inflight" | (lock) "spc s i = N_Lock"
    using i by auto
  then show ?thesis
  proof cases
    case load
    have "all_marked s" if "has_recv_waiters (pch s) = 0"
      using signal_counts(1) [OF inv] that by (intro none) fastforce
    then show ?thesis using load inv by (auto simp: s' send_step_def)
  next
    case inflight
    have "all_marked s" if "int target \<le> recv_wake_inflight (pch s)"
      using signal_counts [OF inv] that tg by (intro none) fastforce
    then show ?thesis using inflight inv by (auto simp: s' send_step_def)
  next
    case lock
    obtain c w where sg: "cc__chan_signal_recv_waiters (pch s) (pw s)
        (cc__chan_recv_wake_budget (int target) (pch s)) = (c, w)" by fastforce
    let ?s = "s\<lparr>pch := c, pw := w\<rparr>"
    have sh: "shared (pch s) (pw s) (pch ?s) (pw ?s)" using shared_signal [OF inv sg] by simp
    have inv': "queue_inv n ?s" by (rule queue_inv_shared [OF inv sh]) simp
    have "all_marked ?s"
      using signal_all [OF inv tg sg] sharedD(4) [OF sh] by (intro all_markedI [OF inv']) (auto simp: mark_def)
    then show ?thesis using lock sg inv' by (simp add: s' send_step_def)
  qed
qed

lemma send_step_ok:
  assumes ok: "send_ok n s" and tg: "n \<le> target"
  shows "send_ok n (send_step room target s i)"
proof -
  have inv: "queue_inv n s" using ok by (simp add: send_ok_def)
  show ?thesis
  proof (cases "spc s i \<in> {N_Load, N_Inflight, N_Lock}")
    case True
    let ?s = "send_step room target s i"
    have "wake_inv ?s" if "all_marked ?s" using that by (auto simp: wake_inv_def all_marked_def)
    moreover have "wake_inv ?s" if "spc ?s i \<in> {N_Inflight, N_Lock}"
      using that unfolding wake_inv_def pending_def by blast
    ultimately show ?thesis using waker_step [OF inv tg True refl, of room] by (auto simp: send_ok_def)
  next
    case quiet: False
    show ?thesis
    proof (cases "spc s i")
      case N_Idle
      then show ?thesis using ok by (simp add: send_step_def)
    next
      case (N_Handoff v)
      then show ?thesis using send_ok_quiet [OF ok, of i] by (simp add: send_step_def)
    next
      case (N_HandLock v)
      obtain c w x where pop: "cc__chan_pop_recv_waiter (pch s) (pw s) = (c, w, x)" by (metis prod_cases3)
      show ?thesis
      proof (cases "closed (pch s) \<or> rx_error_closed (pch s)")
        case True
        then show ?thesis using N_HandLock send_ok_quiet [OF ok, of i] by (simp add: send_step_def)
      next
        case False
        then have "\<not> closed (pch s)" by simp
        note H = shared_handoff [OF inv pop this]
        show ?thesis
        proof (cases x)
          case None
          then show ?thesis
            using N_HandLock False pop send_ok_shared [OF ok H(1), of i] by (simp add: send_step_def)
        next
          case (Some m)
          obtain c' w' where fin: "cc__chan_finish_send_to_recv_waiter c w m v = (c', w')" by fastforce
          show ?thesis
            using N_HandLock False pop fin Some send_ok_shared [OF ok H(2) [OF Some fin], of i]
            by (simp add: send_step_def)
        qed
      qed
    next
      case (N_Enq v)
      have "pending (sgoto (s\<lparr>pitems := pitems s @ [v]\<rparr>) i N_Load)" by (auto simp: pending_def)
      then show ?thesis using N_Enq inv send_ok_quiet [OF ok, of i]
        by (simp add: send_step_def send_ok_def wake_inv_def)
    qed (use quiet in auto)
  qed
qed

lemma recv_ok_wake:
  assumes "send_ok n s" "recv_ok n s r s'"
  shows "send_ok n s'"
proof -
  have inv: "queue_inv n s'" and fr: "recv_frame s r s'" and wk: "wake_inv s"
    using assms by (auto simp: send_ok_def recv_ok_def)
  have pd: "pending s' = pending s" using fr by (simp add: recv_frame_def pending_def)
  have "wake_inv s'"
  proof (rule wake_inv_step [OF wk])
    show "rpc s m = R_Parked \<and> mark s m = NOTIFY_NONE \<and> pitems s \<noteq> [] \<or> pending s'"
      if "rpc s' m = R_Parked" "mark s' m = NOTIFY_NONE" "pitems s' \<noteq> []" for m
    proof (cases "m = r")
      case True
      then have "s' = s" using that(1,3) fr by (auto simp: recv_frame_def)
      then show ?thesis using that by simp
    next
      case False
      then show ?thesis using that fr by (simp add: recv_frame_def)
    qed
  qed (simp add: pd)
  then show ?thesis using inv by (simp add: send_ok_def)
qed

lemma park_step_ok:
  assumes ok: "send_ok n s" and tg: "n \<le> target" and ids: "recv_ids e \<subseteq> {..<n}"
  shows "send_ok n (park_step room target s e)"
proof (cases e)
  case (Recv r)
  have inv: "queue_inv n s" and r: "r < n" using ok ids Recv by (auto simp: send_ok_def)
  show ?thesis
    using recv_ok_wake [OF ok recv_ok_goto [OF inv r, of R_Loop]] Recv ok by (auto simp: may_link_def)
next
  case (Step r)
  have inv: "queue_inv n s" using ok by (simp add: send_ok_def)
  show ?thesis
  proof (cases "r < n")
    case True
    then show ?thesis using Step recv_ok_wake [OF ok recv_step_ok [OF inv True]] by simp
  next
    case False
    then show ?thesis using Step ok recv_idle [OF inv, of r] by simp
  qed
next
  case (Refuse r)
  have inv: "queue_inv n s" using ok by (simp add: send_ok_def)
  show ?thesis
  proof (cases "rpc s r = R_Lock \<and> \<not> closed (pch s)")
    case True
    then have "r < n" using queue_invD(3) [OF inv, of r] by (cases "r < n") auto
    then show ?thesis using Refuse True recv_ok_wake [OF ok recv_ok_goto [OF inv, of r R_Idle]]
      by (simp add: may_link_def)
  qed (use Refuse ok in auto)
next
  case (Spurious r)
  have inv: "queue_inv n s" using ok by (simp add: send_ok_def)
  show ?thesis
  proof (cases "rpc s r = R_Parked")
    case True
    have "r < n" using True queue_invD(3) [OF inv, of r] by (cases "r < n") auto
    then show ?thesis using Spurious True recv_ok_wake [OF ok recv_ok_goto [OF inv, of r R_Post]]
      by (simp add: may_link_def)
  qed (use Spurious ok in simp)
next
  case (Send i minimal v)
  then show ?thesis using ok send_ok_quiet [OF ok, of i] by auto
next
  case (SStep i)
  then show ?thesis using send_step_ok [OF ok tg] by simp
next
  case Close
  have inv: "queue_inv n s" and wk: "wake_inv s" using ok by (auto simp: send_ok_def)
  obtain c w where cl: "cc_chan_close (pch s) (pw s) = (c, w)" by fastforce
  let ?s = "s\<lparr>pch := c, pw := w\<rparr>"
  have sh: "shared (pch s) (pw s) (pch ?s) (pw ?s)" using shared_close(1) [OF inv cl] by simp
  have "queue_inv n ?s" by (rule queue_inv_shared [OF inv sh]) simp
  moreover have "wake_inv ?s"
    by (rule wake_inv_step [OF wk]) (use shared_mark [OF sh] in \<open>auto simp: pending_def\<close>)
  ultimately show ?thesis using Close cl by (simp add: send_ok_def)
qed

lemma park_init_ok: "send_ok n (park_init sync room)"
proof -
  have "recv_waiters (pch (park_init sync room)) = []" "send_waiters (pch (park_init sync room)) = []"
    "has_recv_waiters (pch (park_init sync room)) = 0" "recv_wake_inflight (pch (park_init sync room)) = 0"
    "recv_signal_hint (pch (park_init sync room)) = None"
    by (simp_all add: park_init_def cc_chan_init_elem_def cc_chan_ensure_buf_def cc_chan_create_internal_def Let_def)
  moreover have "rpc (park_init sync room) r = R_Idle" "pitems (park_init sync room) = []" for r
    by (simp_all add: park_init_def)
  ultimately show ?thesis
    by (simp add: send_ok_def queue_inv_def wake_inv_def recv_queue_ok_def hint_ok_def pc_defs)
qed

lemma park_run_ok:
  assumes "\<forall>e \<in> set evs. recv_ids e \<subseteq> {..<n}" "n \<le> target"
  shows "send_ok n (park_run sync room target evs)"
  using assms(1)
proof (induction evs rule: rev_induct)
  case Nil
  show ?case by (simp add: park_run_def park_init_ok)
next
  case (snoc e evs)
  then show ?case using park_step_ok [OF _ assms(2)] by (simp add: park_run_def)
qed

section \<open>Wake-ups are not lost\<close>

text \<open>C3: A fiber blocked in a receive is never forgotten, as long as at most as many fibers receive
  as the configured wake target allows: in every interleaving with senders and a
  closer, a parked receiver that nobody has notified means that the channel is
  open, and that if the ring holds an element then some sender has enqueued and is
  on its way to wake the waiters.\<close>
theorem parked_receiver_has_waker:
  assumes "\<forall>e \<in> set evs. recv_ids e \<subseteq> {..<n}" "n \<le> target" "s = park_run sync room target evs"
    and "rpc s r = R_Parked" "mark s r = NOTIFY_NONE"
  shows "\<not> closed (pch s) \<and> (pitems s \<noteq> [] \<longrightarrow> (\<exists>i. spc s i \<in> {N_Load, N_Inflight, N_Lock}))"
proof -
  have inv: "queue_inv n s" "wake_inv s" using park_run_ok [OF assms(1,2)] assms(3) by (auto simp: send_ok_def)
  have "r \<in> set (recv_waiters (pch s))" by (rule queue_invD(7) [OF inv(1)]) (simp_all add: assms(4,5) may_link_def)
  then have "\<not> closed (pch s)" using queue_invD(9) [OF inv(1)] by auto
  moreover have "pitems s \<noteq> [] \<longrightarrow> pending s" using inv(2) assms(4,5) by (auto simp: wake_inv_def)
  ultimately show ?thesis by (simp add: pending_def)
qed

text \<open>C24: The sender on its way completes the wake-up by itself: whenever a receiver is parked
  without a notification and the ring holds an element, there is a sender whose
  next three steps, with no help from anyone else, leave every parked receiver
  notified.\<close>
theorem parked_receiver_is_woken:
  assumes "\<forall>e \<in> set evs. recv_ids e \<subseteq> {..<n}" "n \<le> target" "s = park_run sync room target evs"
    and "rpc s r = R_Parked" "mark s r = NOTIFY_NONE" "pitems s \<noteq> []"
  shows "\<exists>i. \<forall>m. rpc s m = R_Parked \<longrightarrow>
    mark (foldl (park_step room target) s (replicate 3 (SStep i))) m \<noteq> NOTIFY_NONE"
proof -
  have inv: "queue_inv n s" "wake_inv s" using park_run_ok [OF assms(1,2)] assms(3) by (auto simp: send_ok_def)
  obtain i where i: "spc s i \<in> {N_Load, N_Inflight, N_Lock}"
    using inv(2) assms(4-6) by (auto simp: wake_inv_def pending_def)
  let ?f = "\<lambda>t. send_step room target t i"
  have stay: "?f t = t" if "spc t i = N_Idle" for t using that by (simp add: send_step_def)
  note W = waker_step [OF _ assms(2) _ refl, of _ i room]
  have L: "rpc (?f t) = rpc t \<and> all_marked (?f t) \<and> spc (?f t) i = N_Idle" if "queue_inv n t" "spc t i = N_Lock" for t
    using W [OF that(1)] that(2) by simp
  have I: "rpc (?f (?f t)) = rpc t \<and> all_marked (?f (?f t)) \<and> spc (?f (?f t)) i = N_Idle"
    if "queue_inv n t" "spc t i = N_Inflight" for t
    using W [OF that(1)] that(2) L [of "?f t"] stay by auto
  have O: "rpc (?f (?f (?f t))) = rpc t \<and> all_marked (?f (?f (?f t)))"
    if "queue_inv n t" "spc t i = N_Load" for t
    using W [OF that(1)] that(2) I [of "?f t"] stay by auto
  have "rpc (?f (?f (?f s))) = rpc s \<and> all_marked (?f (?f (?f s)))"
    using i O [OF inv(1)] I [OF inv(1)] L [OF inv(1)] stay by auto
  then show ?thesis by (intro exI [of _ i]) (simp add: all_marked_def eval_nat_numeral)
qed


definition demo_park :: "park_ev list" where
  "demo_park = parking 0 @ parking 1 @ sending 0 True [1] 1"

lemma demo_park_facts:
  "(\<forall>e \<in> set demo_park. recv_ids e \<subseteq> {..<2}) \<and>
   rpc (park_run False 4 2 demo_park) 1 = R_Parked \<and> mark (park_run False 4 2 demo_park) 1 = NOTIFY_NONE \<and>
   pitems (park_run False 4 2 demo_park) \<noteq> []"
proof
  show "\<forall>e \<in> set demo_park. recv_ids e \<subseteq> {..<2}" by (simp add: demo_park_def parking_def sending_def)
  show "rpc (park_run False 4 2 demo_park) 1 = R_Parked \<and> mark (park_run False 4 2 demo_park) 1 = NOTIFY_NONE \<and>
      pitems (park_run False 4 2 demo_park) \<noteq> []"
    by code_simp
qed

theorem parked_receiver_has_waker_witness:
  "\<exists>i. spc (park_run False 4 2 demo_park) i \<in> {N_Load, N_Inflight, N_Lock}"
  using parked_receiver_has_waker [of demo_park 2 2 "park_run False 4 2 demo_park" False 4 1] demo_park_facts by simp

theorem parked_receiver_is_woken_witness:
  "\<exists>i. mark (foldl (park_step 4 2) (park_run False 4 2 demo_park) (replicate 3 (SStep i))) 1 \<noteq> NOTIFY_NONE"
  using parked_receiver_is_woken [of demo_park 2 2 "park_run False 4 2 demo_park" False 4 1] demo_park_facts by blast

text \<open>With the default wake target of one and two receivers the guarantee fails: both park, the
  first of two values sets one wake-up in flight, the second send sees it in flight
  and wakes nobody, and the woken receiver takes one value and returns.  The other
  receiver stays parked, unnotified, while the ring holds the second value and no
  sender is active.\<close>
theorem wake_coalescing_strands_receiver:
  "let s = park_run False 4 1 (parking 0 @ parking 1 @ sending 0 True [1] 4 @ sending 0 True [2] 3 @ replicate 3 (Step 0)) in
     pitems s = [[2]] \<and> plog s = [(0, [1])] \<and> rpc s 1 = R_Parked \<and> mark s 1 = NOTIFY_NONE \<and>
     rpc s 0 = R_Idle \<and> spc s 0 = N_Idle"
  by code_simp

text \<open>On a channel without the minimal path (here a synchronous one) a direct handoff can overtake a
  value that the same sender put into the ring before: the
  receiver, registered as a waiter after its dequeue found the ring empty, gets the
  second value before the first.\<close>
theorem direct_handoff_overtakes_buffer:
  "plog (park_run True 4 1 ([Recv 0, Step 0] @ sending 0 False [1] 3 @ [Step 0] @ sending 0 False [2] 2 @
     replicate 2 (Step 0) @ [Recv 0, Step 0])) = [(0, [2]), (0, [1])]"
  by code_simp

end
