(* ===== verification/Nursery.thy ===== *)
theory Nursery
  imports Channel
begin

text \<open>
  Nurseries (nursery.c): creation with inherited cancellation and deadline, the
  child table, spawning, registered channels, cancellation, the two ways of waiting
  and freeing.  The fiber a spawn obtains, the result of a join, the clock and the
  success of allocations are arguments.  The barrier of the default mode, in which workers
  count finished children down and wake the waiting owner through a wake primitive
  (wake_primitive.h, the futex variant), is an interleaving machine.
\<close>

section \<open>Data\<close>

record timespec =
  tv_sec :: int
  tv_nsec :: int

datatype child = Empty | Live nat

text \<open>The slots of the child table, of which the first \<^verbatim>\<open>n_count\<close> are in use.\<close>

record nursery =
  n_tasks :: "child list"
  n_count :: nat
  n_cancelled :: bool
  n_deadline :: timespec
  n_closing :: "nat list"
  n_closing_cap :: nat
  n_alive :: u64
  n_cancel_gen :: u32

definition no_time :: timespec where "no_time = \<lparr>tv_sec = 0, tv_nsec = 0\<rparr>"

text \<open>The flags say whether the allocations of the nursery, of the child table and of the arena
  succeed.\<close>

definition cc__nursery_alloc :: "bool \<Rightarrow> bool \<Rightarrow> bool \<Rightarrow> nursery option" where
  "cc__nursery_alloc mem mem_tasks mem_arena =
    (if mem \<and> mem_tasks \<and> mem_arena
     then Some \<lparr>n_tasks = replicate 1024 Empty, n_count = 0, n_cancelled = False, n_deadline = no_time,
                n_closing = [], n_closing_cap = 0, n_alive = 0, n_cancel_gen = 0\<rparr>
     else None)"

definition cc_nursery_deadline :: "nursery option \<Rightarrow> timespec option" where
  "cc_nursery_deadline n =
    (case n of
       None \<Rightarrow> None
     | Some n \<Rightarrow> (if tv_sec (n_deadline n) = 0 then None else Some (n_deadline n)))"

definition cc_nursery_is_cancelled :: "timespec \<Rightarrow> nursery option \<Rightarrow> bool" where
  "cc_nursery_is_cancelled now n =
    (case n of
       None \<Rightarrow> True
     | Some n \<Rightarrow>
         (if n_cancelled n then True
          else if tv_sec (n_deadline n) = 0 then False
          else if tv_sec (n_deadline n) < tv_sec now then True
          else if tv_sec now = tv_sec (n_deadline n) \<and> tv_nsec (n_deadline n) \<le> tv_nsec now then True
          else False))"

definition cc_nursery_create :: "timespec \<Rightarrow> bool \<Rightarrow> nursery option \<Rightarrow> nursery option" where
  "cc_nursery_create now mem parent =
    (case cc__nursery_alloc mem mem mem of
       None \<Rightarrow> None
     | Some n \<Rightarrow>
         (case parent of
            None \<Rightarrow> Some n
          | Some p \<Rightarrow>
              (let n = (if cc_nursery_is_cancelled now parent then n\<lparr>n_cancelled := True\<rparr> else n)
               in Some (case cc_nursery_deadline parent of Some d \<Rightarrow> n\<lparr>n_deadline := d\<rparr> | None \<Rightarrow> n))))"

definition cc_nursery_set_deadline :: "nursery option \<Rightarrow> timespec \<Rightarrow> nursery option" where
  "cc_nursery_set_deadline n d = (case n of None \<Rightarrow> None | Some n \<Rightarrow> Some (n\<lparr>n_deadline := d\<rparr>))"

text \<open>The flag and the time of a deadline.\<close>

definition cc_nursery_as_deadline :: "nursery option \<Rightarrow> bool \<times> timespec" where
  "cc_nursery_as_deadline n =
    (case n of None \<Rightarrow> (True, no_time) | Some n \<Rightarrow> (n_cancelled n, n_deadline n))"

text \<open>Cancellation returns the fibers it signals: those of a snapshot of the child table.\<close>

definition live_fibers :: "child list \<Rightarrow> nat list" where
  "live_fibers cs = concat (map (\<lambda>c. case c of Live f \<Rightarrow> [f] | Empty \<Rightarrow> []) cs)"

definition cc_nursery_cancel :: "bool \<Rightarrow> nursery option \<Rightarrow> nursery option \<times> nat list" where
  "cc_nursery_cancel mem n =
    (case n of
       None \<Rightarrow> (None, [])
     | Some n \<Rightarrow>
         (Some (n\<lparr>n_cancelled := True, n_cancel_gen := n_cancel_gen n + 1\<rparr>),
          if 0 < n_count n \<and> mem then live_fibers (take (n_count n) (n_tasks n)) else []))"

section \<open>Spawning\<close>

definition cc_nursery_grow :: "bool \<Rightarrow> nursery \<Rightarrow> nursery \<times> errno" where
  "cc_nursery_grow mem n =
    (let new_cap = (if length (n_tasks n) \<noteq> 0 then length (n_tasks n) * 2 else 8) in
     if \<not> mem then (n, ENOMEM)
     else (n\<lparr>n_tasks := n_tasks n @ replicate (new_cap - length (n_tasks n)) Empty\<rparr>, 0))"

definition store_child :: "nursery \<Rightarrow> child \<Rightarrow> nursery" where
  "store_child n c = n\<lparr>n_tasks := (n_tasks n)[n_count n := c], n_count := n_count n + 1\<rparr>"

definition cc_nursery_append_child :: "bool \<Rightarrow> nursery \<Rightarrow> child \<Rightarrow> nursery \<times> errno" where
  "cc_nursery_append_child mem n c =
    (if n_count n < length (n_tasks n) then (store_child n c, 0)
     else if n_count n = length (n_tasks n) then
       (case cc_nursery_grow mem n of (n, e) \<Rightarrow> if e \<noteq> 0 then (n, e) else (store_child n c, 0))
     else (store_child n c, 0))"

text \<open>The last argument is the fiber the scheduler gives, which it has also enqueued.  The result
  carries the fibers released.\<close>

definition spawn_child ::
  "bool \<Rightarrow> bool \<Rightarrow> nursery \<Rightarrow> nat option \<Rightarrow> nursery \<times> errno \<times> nat list" where
  "spawn_child worker_frees mem n fiber =
    (let n = (if worker_frees then n\<lparr>n_alive := n_alive n + 1\<rparr> else n) in
     case fiber of
       None \<Rightarrow> (if worker_frees then n\<lparr>n_alive := n_alive n - 1\<rparr> else n, ENOMEM, [])
     | Some t \<Rightarrow>
         (case cc_nursery_append_child mem n (Live t) of (n, e) \<Rightarrow>
            if e \<noteq> 0 then (n, e, if worker_frees then [] else [t]) else (n, 0, [])))"

text \<open>The flag \<^verbatim>\<open>fn\<close> says that the function is not NULL.\<close>

definition cc_nursery_spawn ::
  "bool \<Rightarrow> bool \<Rightarrow> nursery option \<Rightarrow> bool \<Rightarrow> nat option \<Rightarrow> nursery option \<times> errno \<times> nat list" where
  "cc_nursery_spawn worker_frees mem n fn fiber =
    (case n of
       None \<Rightarrow> (None, EINVAL, [])
     | Some m \<Rightarrow>
         (if \<not> fn then (n, EINVAL, [])
          else case spawn_child worker_frees mem m fiber of (m, e, rs) \<Rightarrow> (Some m, e, rs)))"

text \<open>Spawning an asynchronous task: the result tells in addition whether the task and its carrier
  were freed.\<close>

definition cc_nursery_spawn_async ::
  "bool \<Rightarrow> bool \<Rightarrow> bool \<Rightarrow> bool \<Rightarrow> nursery option \<Rightarrow> nat option \<Rightarrow> nursery option \<times> errno \<times> bool" where
  "cc_nursery_spawn_async worker_frees mem mem_arg valid n fiber =
    (if n = None \<or> \<not> valid then (n, EINVAL, True)
     else if \<not> mem_arg then (n, ENOMEM, True)
     else case cc_nursery_spawn worker_frees mem n True fiber of (n, e, _) \<Rightarrow> (n, e, e \<noteq> 0))"

text \<open>The driver of an asynchronous task.  Each element of the list is one round: whether the
  nursery is seen cancelled and whether the poll is pending.  The result counts the cancellations sent,
  the polls and the times the task is freed; None is a driver that still polls.\<close>

record runner =
  ru_cancels :: nat
  ru_polls :: nat
  ru_frees :: nat

fun cc__nursery_async_runner :: "bool \<Rightarrow> runner \<Rightarrow> (bool \<times> bool) list \<Rightarrow> runner option" where
  "cc__nursery_async_runner cancel_sent r [] = None"
| "cc__nursery_async_runner cancel_sent r ((cancelled, pending) # rounds) =
    (let send = (\<not> cancel_sent \<and> cancelled);
         r = (if send then r\<lparr>ru_cancels := ru_cancels r + 1\<rparr> else r);
         r = r\<lparr>ru_polls := ru_polls r + 1\<rparr>
     in if pending then cc__nursery_async_runner (cancel_sent \<or> send) r rounds
        else Some (r\<lparr>ru_frees := ru_frees r + 1\<rparr>))"

section \<open>Registered channels, waiting and freeing\<close>

type_synonym chan_store = "nat \<Rightarrow> chan"

definition cc_nursery_add_closing_chan ::
  "bool \<Rightarrow> nat \<Rightarrow> nursery option \<Rightarrow> chan_store \<Rightarrow> nat option \<Rightarrow> nursery option \<times> chan_store \<times> errno" where
  "cc_nursery_add_closing_chan mem self n cs ch =
    (case (n, ch) of
       (Some n, Some ch) \<Rightarrow>
         (let full = (length (n_closing n) = n_closing_cap n) in
          if full \<and> \<not> mem then (Some n, cs, ENOMEM)
          else (Some (n\<lparr>n_closing := n_closing n @ [ch],
                  n_closing_cap := (if full then (if n_closing_cap n \<noteq> 0 then n_closing_cap n * 2 else 4)
                                    else n_closing_cap n)\<rparr>),
                cs(ch := cc__chan_set_autoclose_owner (cs ch) (Some self)), 0))
     | _ \<Rightarrow> (n, cs, EINVAL))"

fun close_registered :: "nat list \<Rightarrow> chan_store \<Rightarrow> world \<Rightarrow> chan_store \<times> world" where
  "close_registered [] cs w = (cs, w)"
| "close_registered (i # is) cs w =
    (case cc_chan_close (cs i) w of (c, w) \<Rightarrow> close_registered is (cs(i := c)) w)"

text \<open>The loop that joins and releases the children: the first error, the fibers joined and the
  fibers released so far.\<close>

fun join_children :: "(nat \<Rightarrow> errno) \<Rightarrow> child list \<Rightarrow> errno \<Rightarrow> errno \<times> nat list \<times> nat list" where
  "join_children join [] first_err = (first_err, [], [])"
| "join_children join (c # cs) first_err =
    (case c of
       Empty \<Rightarrow> join_children join cs first_err
     | Live f \<Rightarrow>
         (case join_children join cs (if first_err = 0 \<and> join f \<noteq> 0 then join f else first_err) of
            (e, js, rs) \<Rightarrow> (e, f # js, f # rs)))"

record wait_result =
  wr_nursery :: nursery
  wr_chans :: chan_store
  wr_world :: world
  wr_err :: errno
  wr_joined :: "nat list"
  wr_released :: "nat list"

text \<open>In the default mode the barrier has been passed when this part runs.\<close>

definition wait_children ::
  "bool \<Rightarrow> (nat \<Rightarrow> errno) \<Rightarrow> nursery \<Rightarrow> chan_store \<Rightarrow> world \<Rightarrow> wait_result" where
  "wait_children worker_frees join n cs w =
    (let used = take (n_count n) (n_tasks n);
         (e, js, rs) = (if worker_frees then (0, [], []) else join_children join used 0);
         tasks = (if worker_frees then n_tasks n
                  else replicate (length used) Empty @ drop (n_count n) (n_tasks n));
         (cs, w) = close_registered (n_closing n) cs w
     in \<lparr>wr_nursery = n\<lparr>n_tasks := tasks, n_count := 0\<rparr>, wr_chans = cs, wr_world = w, wr_err = e,
         wr_joined = js, wr_released = rs\<rparr>)"

definition cc_nursery_wait ::
  "bool \<Rightarrow> (nat \<Rightarrow> errno) \<Rightarrow> nursery option \<Rightarrow> chan_store \<Rightarrow> world \<Rightarrow> errno + wait_result" where
  "cc_nursery_wait worker_frees join n cs w =
    (case n of None \<Rightarrow> Inl EINVAL | Some n \<Rightarrow> Inr (wait_children worker_frees join n cs w))"

definition cc_nursery_free ::
  "bool \<Rightarrow> nursery option \<Rightarrow> chan_store \<Rightarrow> world \<Rightarrow> chan_store \<times> world \<times> nat list" where
  "cc_nursery_free worker_frees n cs w =
    (case n of
       None \<Rightarrow> (cs, w, [])
     | Some n \<Rightarrow>
         (case close_registered (n_closing n) cs w of (cs, w) \<Rightarrow>
            (cs, w, if worker_frees then [] else live_fibers (take (n_count n) (n_tasks n)))))"

section \<open>The barrier\<close>

text \<open>
  The owner spawns children, waits and frees the nursery; a running child may spawn, too.  A child
  whose fiber is dead is counted down by its worker, which wakes the owner if it was the last one.  The
  wake primitive counts its wakes in 32 bits; the system call sleeps only if the value is still
  the expected one, and the wake system call ends every sleep.
\<close>

datatype child_pc = C_None | C_Run | C_Spawn | C_Sub | C_Add | C_Wake | C_End

datatype owner_pc = O_Run | O_Spawn | O_Gen | O_Count nat | O_Futex nat | O_Sleep | O_Done

record barrier =
  b_child :: "nat \<Rightarrow> child_pc"
  b_owner :: owner_pc
  b_alive :: nat
  b_wakes :: nat
  b_freed :: bool
  b_touched :: bool

datatype bar_ev =
    OwnerSpawn | OwnerCreated "nat option" | OwnerWait | OwnerStep | Spurious | OwnerFree
  | ChildSpawn nat | ChildCreated nat "nat option" | ChildExit nat | ChildStep nat

definition set_child :: "barrier \<Rightarrow> nat \<Rightarrow> child_pc \<Rightarrow> barrier" where
  "set_child b i p = b\<lparr>b_child := (b_child b)(i := p)\<rparr>"

text \<open>\<^verbatim>\<open>cc_nursery_spawn\<close>: the counter goes up before the fiber is created, and down again when the
  creation fails.\<close>

definition begin_spawn :: "barrier \<Rightarrow> barrier" where
  "begin_spawn b = b\<lparr>b_alive := b_alive b + 1\<rparr>"

definition end_spawn :: "barrier \<Rightarrow> nat option \<Rightarrow> barrier" where
  "end_spawn b new =
    (case new of Some i \<Rightarrow> set_child b i C_Run | None \<Rightarrow> b\<lparr>b_alive := b_alive b - 1\<rparr>)"

definition unused :: "barrier \<Rightarrow> nat option \<Rightarrow> bool" where
  "unused b new = (case new of Some i \<Rightarrow> b_child b i = C_None | None \<Rightarrow> True)"

text \<open>\<^verbatim>\<open>cc_nursery_notify_child_done\<close>: count down, bump the value of the wake primitive, wake.\<close>

definition child_step :: "barrier \<Rightarrow> nat \<Rightarrow> barrier" where
  "child_step b i =
    (case b_child b i of
       C_Sub \<Rightarrow> (set_child b i (if b_alive b = 1 then C_Add else C_End))\<lparr>b_alive := b_alive b - 1\<rparr>
     | C_Add \<Rightarrow> (set_child b i C_Wake)\<lparr>b_wakes := b_wakes b + 1, b_touched := b_touched b \<or> b_freed b\<rparr>
     | C_Wake \<Rightarrow> (set_child b i C_End)\<lparr>b_owner := (if b_owner b = O_Sleep then O_Gen else b_owner b),
                   b_touched := b_touched b \<or> b_freed b\<rparr>
     | _ \<Rightarrow> b)"

text \<open>The waiting loop of \<^verbatim>\<open>cc_nursery_wait\<close>.\<close>

definition owner_step :: "barrier \<Rightarrow> barrier" where
  "owner_step b =
    (case b_owner b of
       O_Gen \<Rightarrow> b\<lparr>b_owner := O_Count (b_wakes b)\<rparr>
     | O_Count g \<Rightarrow> b\<lparr>b_owner := (if b_alive b = 0 then O_Done else O_Futex g)\<rparr>
     | O_Futex g \<Rightarrow> b\<lparr>b_owner := (if (of_nat (b_wakes b) :: u32) = of_nat g then O_Sleep else O_Gen)\<rparr>
     | _ \<Rightarrow> b)"

fun bar_step :: "barrier \<Rightarrow> bar_ev \<Rightarrow> barrier" where
  "bar_step b OwnerSpawn = (if b_owner b = O_Run then (begin_spawn b)\<lparr>b_owner := O_Spawn\<rparr> else b)"
| "bar_step b (OwnerCreated new) =
    (if b_owner b = O_Spawn \<and> unused b new then (end_spawn b new)\<lparr>b_owner := O_Run\<rparr> else b)"
| "bar_step b OwnerWait = (if b_owner b = O_Run then b\<lparr>b_owner := O_Gen\<rparr> else b)"
| "bar_step b OwnerStep = owner_step b"
| "bar_step b Spurious = (if b_owner b = O_Sleep then b\<lparr>b_owner := O_Gen\<rparr> else b)"
| "bar_step b OwnerFree = (if b_owner b = O_Done then b\<lparr>b_freed := True\<rparr> else b)"
| "bar_step b (ChildSpawn i) = (if b_child b i = C_Run then set_child (begin_spawn b) i C_Spawn else b)"
| "bar_step b (ChildCreated i new) =
    (if b_child b i = C_Spawn \<and> unused b new then set_child (end_spawn b new) i C_Run else b)"
| "bar_step b (ChildExit i) = (if b_child b i = C_Run then set_child b i C_Sub else b)"
| "bar_step b (ChildStep i) = child_step b i"

definition bar_init :: barrier where
  "bar_init = \<lparr>b_child = (\<lambda>_. C_None), b_owner = O_Run, b_alive = 0, b_wakes = 0, b_freed = False, b_touched = False\<rparr>"

definition bar_run :: "bar_ev list \<Rightarrow> barrier" where
  "bar_run evs = foldl bar_step bar_init evs"

section \<open>The barrier is correct\<close>

fun weight :: "child_pc \<Rightarrow> nat" where
  "weight C_Run = 1" | "weight C_Sub = 1" | "weight C_Spawn = 2" | "weight _ = 0"

definition support :: "barrier \<Rightarrow> nat set" where
  "support b = {i. b_child b i \<noteq> C_None}"

definition total :: "barrier \<Rightarrow> nat" where
  "total b = (\<Sum>i \<in> support b. weight (b_child b i))"

text \<open>The counter counts the children that run or have not been counted down, and the spawns in
  progress; an owner that waits with the counter at zero will be woken.\<close>

definition wake_owed :: "barrier \<Rightarrow> bool" where
  "wake_owed b =
    (case b_owner b of
       O_Count g \<Rightarrow> g \<le> b_wakes b
     | O_Futex g \<Rightarrow> g \<le> b_wakes b \<and> (b_alive b = 0 \<longrightarrow> g < b_wakes b \<or> (\<exists>i. b_child b i = C_Add))
     | O_Sleep \<Rightarrow> b_alive b = 0 \<longrightarrow> (\<exists>i. b_child b i \<in> {C_Add, C_Wake})
     | O_Done \<Rightarrow> b_alive b = 0
     | _ \<Rightarrow> True)"

definition bar_inv :: "nat \<Rightarrow> barrier \<Rightarrow> bool" where
  "bar_inv k b =
    (finite (support b) \<and> b_alive b = total b + (if b_owner b = O_Spawn then 1 else 0) \<and>
     b_wakes b \<le> k \<and> wake_owed b)"

lemma total_superset:
  assumes "finite T" "support b \<subseteq> T"
  shows "total b = (\<Sum>i \<in> T. weight (b_child b i))"
  unfolding total_def by (rule sum.mono_neutral_left [OF assms]) (auto simp: support_def)

lemma total_update:
  assumes "finite (support b)"
  shows "total (set_child b i p) + weight (b_child b i) = total b + weight p"
    and "finite (support (set_child b i p))"
proof -
  let ?T = "insert i (support b)"
  have sub: "support (set_child b i p) \<subseteq> ?T" by (auto simp: support_def set_child_def)
  then show "finite (support (set_child b i p))" using assms finite_subset by blast
  have "total (set_child b i p) = (\<Sum>j \<in> ?T. weight (b_child (set_child b i p) j))"
    by (rule total_superset) (use assms sub in auto)
  also have "\<dots> = weight p + (\<Sum>j \<in> ?T - {i}. weight (b_child b j))"
    using assms by (subst sum.remove [of _ i]) (auto simp: set_child_def)
  finally have a: "total (set_child b i p) = weight p + (\<Sum>j \<in> ?T - {i}. weight (b_child b j))" .
  have "total b = (\<Sum>j \<in> ?T. weight (b_child b j))"
    by (rule total_superset) (use assms in auto)
  also have "\<dots> = weight (b_child b i) + (\<Sum>j \<in> ?T - {i}. weight (b_child b j))"
    using assms by (subst sum.remove [of _ i]) auto
  finally show "total (set_child b i p) + weight (b_child b i) = total b + weight p" using a by simp
qed

lemma total_pos: "finite (support b) \<Longrightarrow> weight (b_child b i) \<le> total b"
proof -
  assume f: "finite (support b)"
  show ?thesis
  proof (cases "i \<in> support b")
    case True
    then show ?thesis unfolding total_def using f by (intro member_le_sum) auto
  next
    case False
    then show ?thesis by (simp add: support_def)
  qed
qed

lemma barrier_fields [simp]:
  "b_owner (set_child b i p) = b_owner b" "b_alive (set_child b i p) = b_alive b"
  "b_wakes (set_child b i p) = b_wakes b" "b_freed (set_child b i p) = b_freed b"
  "b_child (set_child b i p) = (b_child b)(i := p)"
  "support (b\<lparr>b_owner := x\<rparr>) = support b" "total (b\<lparr>b_owner := x\<rparr>) = total b"
  "support (b\<lparr>b_alive := y\<rparr>) = support b" "total (b\<lparr>b_alive := y\<rparr>) = total b"
  "support (b\<lparr>b_wakes := z\<rparr>) = support b" "total (b\<lparr>b_wakes := z\<rparr>) = total b"
  "support (b\<lparr>b_touched := t\<rparr>) = support b" "total (b\<lparr>b_touched := t\<rparr>) = total b"
  "support (b\<lparr>b_freed := t\<rparr>) = support b" "total (b\<lparr>b_freed := t\<rparr>) = total b"
  by (simp_all add: set_child_def support_def total_def)

text \<open>A step of an active child that keeps the counter exact: the counter was positive, and if it
  reaches zero a wake is announced.\<close>

lemma bar_inv_child:
  assumes inv: "bar_inv k b" and k: "k \<le> k'" and b': "b' = (set_child b i p)\<lparr>b_alive := a\<rparr>"
    and act: "0 < weight (b_child b i)" and cnt: "a + weight (b_child b i) = b_alive b + weight p"
    and zero: "a = 0 \<Longrightarrow> p = C_Add"
  shows "bar_inv k' b'"
proof -
  have f: "finite (support b)" and al: "b_alive b = total b + (if b_owner b = O_Spawn then 1 else 0)"
    and w: "b_wakes b \<le> k" and ow: "wake_owed b"
    using inv by (auto simp: bar_inv_def)
  note U = total_update [OF f, of i p]
  have pos: "0 < b_alive b" using total_pos [OF f, of i] al act by simp
  have "wake_owed b'"
    using ow pos zero unfolding wake_owed_def b' by (cases "b_owner b") auto
  then show ?thesis using U al cnt w k by (auto simp: bar_inv_def b')
qed

lemma bar_inv_owner:
  assumes inv: "bar_inv k b" and k: "k \<le> k'" and b': "b' = b\<lparr>b_owner := p\<rparr>"
    and sp: "b_owner b \<noteq> O_Spawn" "p \<noteq> O_Spawn" and ow: "wake_owed b'"
  shows "bar_inv k' b'"
  using assms by (auto simp: bar_inv_def)

lemma bar_step_inv:
  assumes inv: "bar_inv k b" and k: "Suc k < 2 ^ 32"
  shows "bar_inv (Suc k) (bar_step b e)"
proof -
  have f: "finite (support b)" and al: "b_alive b = total b + (if b_owner b = O_Spawn then 1 else 0)"
    and w: "b_wakes b \<le> k" and ow: "wake_owed b"
    using inv by (auto simp: bar_inv_def)
  have same: "bar_inv (Suc k) b" using inv by (auto simp: bar_inv_def)
  have k1: "k \<le> Suc k" by simp
  show ?thesis
  proof (cases e)
    case OwnerSpawn
    then show ?thesis using same inv by (auto simp: bar_inv_def wake_owed_def begin_spawn_def)
  next
    case (OwnerCreated new)
    show ?thesis
    proof (cases "b_owner b = O_Spawn \<and> unused b new")
      case True
      then have "total b + 1 = b_alive b" using al by simp
      then show ?thesis
        using True OwnerCreated f w total_update [OF f, of "the new" C_Run]
        by (cases new) (auto simp: bar_inv_def wake_owed_def end_spawn_def unused_def)
    qed (use same OwnerCreated in auto)
  next
    case OwnerWait
    then show ?thesis using same inv by (auto simp: bar_inv_def wake_owed_def)
  next
    case Spurious
    then show ?thesis using same inv by (auto simp: bar_inv_def wake_owed_def)
  next
    case OwnerFree
    then show ?thesis using same inv by (auto simp: bar_inv_def wake_owed_def)
  next
    case OwnerStep
    show ?thesis
    proof (cases "b_owner b")
      case O_Gen
      then show ?thesis using OwnerStep by (auto simp: owner_step_def wake_owed_def intro!: bar_inv_owner [OF inv k1])
    next
      case (O_Count g)
      then have "g \<le> b_wakes b" using ow by (simp add: wake_owed_def)
      then show ?thesis using OwnerStep O_Count
        by (auto simp: owner_step_def wake_owed_def intro!: bar_inv_owner [OF inv k1])
    next
      case (O_Futex g)
      have g: "g \<le> b_wakes b" "b_alive b = 0 \<Longrightarrow> g < b_wakes b \<or> (\<exists>i. b_child b i = C_Add)"
        using ow O_Futex by (auto simp: wake_owed_def)
      have "unat (of_nat (b_wakes b) :: u32) = b_wakes b" "unat (of_nat g :: u32) = g"
        using w k g(1) by (simp_all add: unat_of_nat)
      then have eq: "(of_nat (b_wakes b) :: u32) = of_nat g \<longleftrightarrow> b_wakes b = g" by metis
      show ?thesis
        using OwnerStep O_Futex g eq
        by (auto simp: owner_step_def wake_owed_def intro!: bar_inv_owner [OF inv k1]) blast
    qed (use OwnerStep same in \<open>auto simp: owner_step_def\<close>)
  next
    case (ChildSpawn i)
    show ?thesis
    proof (cases "b_child b i = C_Run")
      case True
      have "bar_step b e = (set_child b i C_Spawn)\<lparr>b_alive := b_alive b + 1\<rparr>"
        using True ChildSpawn by (simp add: begin_spawn_def set_child_def)
      then show ?thesis by (rule bar_inv_child [OF inv k1]) (use True in simp_all)
    qed (use same ChildSpawn in simp)
  next
    case (ChildCreated i new)
    show ?thesis
    proof (cases "b_child b i = C_Spawn \<and> unused b new")
      case True
      have pos: "2 \<le> b_alive b" using total_pos [OF f, of i] al True by simp
      show ?thesis
      proof (cases new)
        case None
        have "bar_step b e = (set_child b i C_Run)\<lparr>b_alive := b_alive b - 1\<rparr>"
          using True ChildCreated None by (simp add: end_spawn_def set_child_def)
        then show ?thesis by (rule bar_inv_child [OF inv k1]) (use True pos in simp_all)
      next
        case (Some j)
        then have j: "b_child b j = C_None" "j \<noteq> i" using True by (auto simp: unused_def)
        let ?b = "set_child b j C_Run"
        have U: "total ?b = total b + 1" "finite (support ?b)"
          using total_update [OF f, of j C_Run] j(1) by simp_all
        have U2: "total (set_child ?b i C_Run) + 2 = total ?b + 1" "finite (support (set_child ?b i C_Run))"
          using total_update [OF U(2), of i C_Run] True j(2) by simp_all
        have st: "bar_step b e = set_child ?b i C_Run"
          using True ChildCreated Some by (simp add: end_spawn_def)
        have "wake_owed (set_child ?b i C_Run)"
          using ow pos unfolding wake_owed_def by (cases "b_owner b") auto
        then show ?thesis using U U2 al w by (auto simp: st bar_inv_def)
      qed
    qed (use same ChildCreated in auto)
  next
    case (ChildExit i)
    show ?thesis
    proof (cases "b_child b i = C_Run")
      case True
      have pos: "1 \<le> b_alive b" using total_pos [OF f, of i] al True by simp
      have "bar_step b e = (set_child b i C_Sub)\<lparr>b_alive := b_alive b\<rparr>"
        using True ChildExit by (simp add: set_child_def)
      then show ?thesis by (rule bar_inv_child [OF inv k1]) (use True pos in simp_all)
    qed (use same ChildExit in simp)
  next
    case (ChildStep i)
    show ?thesis
    proof (cases "b_child b i")
      case C_Sub
      have pos: "1 \<le> b_alive b" using total_pos [OF f, of i] al C_Sub by simp
      have "bar_step b e = (set_child b i (if b_alive b = 1 then C_Add else C_End))\<lparr>b_alive := b_alive b - 1\<rparr>"
        using C_Sub ChildStep by (simp add: child_step_def)
      then show ?thesis by (rule bar_inv_child [OF inv k1]) (use C_Sub pos in auto)
    next
      case C_Add
      have U: "total (set_child b i C_Wake) = total b" "finite (support (set_child b i C_Wake))"
        using total_update [OF f, of i C_Wake] C_Add by simp_all
      have "wake_owed (bar_step b e)"
        using ow C_Add ChildStep unfolding wake_owed_def by (cases "b_owner b") (auto simp: child_step_def)
      then show ?thesis using U al w C_Add ChildStep by (auto simp: bar_inv_def child_step_def)
    next
      case C_Wake
      have U: "total (set_child b i C_End) = total b" "finite (support (set_child b i C_End))"
        using total_update [OF f, of i C_End] C_Wake by simp_all
      have "wake_owed (bar_step b e)"
      proof (cases "b_owner b")
        case (O_Futex g)
        have "((b_child b)(i := C_End)) j = C_Add" if "b_child b j = C_Add" for j using that C_Wake by auto
        moreover have "bar_step b e = (set_child b i C_End)\<lparr>b_touched := b_touched b \<or> b_freed b\<rparr>"
          using O_Futex C_Wake ChildStep by (simp add: child_step_def set_child_def)
        ultimately show ?thesis using ow O_Futex unfolding wake_owed_def by (simp del: fun_upd_apply) blast
      qed (use ow C_Wake ChildStep in \<open>auto simp: wake_owed_def child_step_def\<close>)
      then show ?thesis using U al w C_Wake ChildStep by (auto simp: bar_inv_def child_step_def)
    qed (use same ChildStep in \<open>auto simp: child_step_def\<close>)
  qed
qed

lemma bar_run_inv: "length evs < 2 ^ 32 \<Longrightarrow> bar_inv (length evs) (bar_run evs)"
proof (induction evs rule: rev_induct)
  case Nil
  show ?case by (simp add: bar_run_def bar_init_def bar_inv_def support_def total_def wake_owed_def)
next
  case (snoc e evs)
  then show ?case using bar_step_inv [of "length evs" "bar_run evs" e] by (simp add: bar_run_def)
qed

text \<open>C4: The barrier of a nursery holds: when the wait of the owner is over, no child spawned in the
  nursery, by the owner or by another child, is running, spawning or still to be counted down, in
  every interleaving of the owner, the children and their workers.\<close>
theorem nursery_wait_is_barrier:
  assumes "length evs < 2 ^ 32" "b_owner (bar_run evs) = O_Done"
  shows "b_child (bar_run evs) i \<in> {C_None, C_Add, C_Wake, C_End}"
proof -
  have f: "finite (support (bar_run evs))" and al: "b_alive (bar_run evs) = total (bar_run evs)" "wake_owed (bar_run evs)"
    using bar_run_inv [OF assms(1)] assms(2) by (auto simp: bar_inv_def)
  then have "weight (b_child (bar_run evs) i) = 0"
    using total_pos [OF f, of i] assms(2) by (simp add: wake_owed_def)
  then show ?thesis by (cases "b_child (bar_run evs) i") auto
qed

definition demo_barrier :: "bar_ev list" where
  "demo_barrier = [OwnerSpawn, OwnerCreated (Some 0), ChildExit 0, OwnerWait, OwnerStep, OwnerStep, OwnerStep,
     ChildStep 0]"

theorem nursery_wait_is_barrier_witness:
  "b_child (bar_run (demo_barrier @ [ChildStep 0, ChildStep 0, OwnerStep, OwnerStep])) 0 \<in> {C_None, C_Add, C_Wake, C_End}"
proof -
  have "b_owner (bar_run (demo_barrier @ [ChildStep 0, ChildStep 0, OwnerStep, OwnerStep])) = O_Done" by code_simp
  then show ?thesis using nursery_wait_is_barrier by (simp add: demo_barrier_def)
qed

text \<open>C12: The wake-up of the waiting owner is never lost: when it sleeps and all children have been
  counted down, some worker is in the middle of the wake, and two steps of that worker
  let the owner go on, as long as fewer than two to the power of 32 steps were made.\<close>
theorem nursery_owner_woken:
  assumes "length evs < 2 ^ 32" "b_owner (bar_run evs) = O_Sleep"
    and "\<And>i. b_child (bar_run evs) i \<in> {C_None, C_Add, C_Wake, C_End}"
  shows "\<exists>i. b_owner (foldl bar_step (bar_run evs) [ChildStep i, ChildStep i]) = O_Gen"
proof -
  let ?b = "bar_run evs"
  have "weight (b_child ?b i) = 0" for i using assms(3) [of i] by auto
  then have "total ?b = 0" by (simp add: total_def)
  moreover have "bar_inv (length evs) ?b" by (rule bar_run_inv [OF assms(1)])
  ultimately obtain i where "b_child ?b i \<in> {C_Add, C_Wake}"
    using assms(2) unfolding bar_inv_def wake_owed_def by auto
  then have "b_owner (child_step (child_step ?b i) i) = O_Gen" using assms(2) by (auto simp: child_step_def)
  then show ?thesis by auto
qed

theorem nursery_owner_woken_witness:
  "\<exists>i. b_owner (foldl bar_step (bar_run demo_barrier) [ChildStep i, ChildStep i]) = O_Gen"
proof -
  have "b_owner (bar_run demo_barrier) = O_Sleep \<and> b_child (bar_run demo_barrier) 0 = C_Add" by code_simp
  moreover have "b_child (bar_run demo_barrier) i = C_None" if "i \<noteq> 0" for i
    using that by (simp add: bar_run_def demo_barrier_def bar_init_def child_step_def owner_step_def begin_spawn_def
        end_spawn_def set_child_def unused_def)
  ultimately have "b_child (bar_run demo_barrier) i \<in> {C_None, C_Add, C_Wake, C_End}" for i by (cases "i = 0") auto
  then show ?thesis
    using nursery_owner_woken [of demo_barrier] \<open>b_owner (bar_run demo_barrier) = O_Sleep \<and> _\<close>
    by (simp add: demo_barrier_def)
qed

text \<open>The owner may free the nursery too early: after the last child was counted down but before its
  worker wakes, the owner finds the counter at zero, returns from the wait and frees
  the nursery, and the worker then writes to the wake primitive inside it.\<close>
theorem nursery_freed_under_worker:
  "b_touched (bar_run [OwnerSpawn, OwnerCreated (Some 0), ChildExit 0, ChildStep 0, OwnerWait, OwnerStep, OwnerStep,
     OwnerFree, ChildStep 0])"
  by code_simp

section \<open>Spawning, waiting and closing\<close>

definition nursery_ok :: "nursery \<Rightarrow> bool" where
  "nursery_ok n =
    (n_count n \<le> length (n_tasks n) \<and> length (n_closing n) \<le> n_closing_cap n \<and>
     live_fibers (drop (n_count n) (n_tasks n)) = [])"

lemma live_fibers_simps [simp]:
  "live_fibers [] = []" "live_fibers (Live f # cs) = f # live_fibers cs" "live_fibers (Empty # cs) = live_fibers cs"
  "live_fibers (xs @ ys) = live_fibers xs @ live_fibers ys" "live_fibers (replicate k Empty) = []"
  by (simp_all add: live_fibers_def)

lemma store_child_ok:
  assumes "nursery_ok n" "n_count n < length (n_tasks n)"
  shows "nursery_ok (store_child n c)"
    "live_fibers (take (n_count (store_child n c)) (n_tasks (store_child n c))) =
     live_fibers (take (n_count n) (n_tasks n)) @ live_fibers [c]"
proof -
  have t: "take (n_count n + 1) ((n_tasks n)[n_count n := c]) = take (n_count n) (n_tasks n) @ [c]"
    using assms(2) by (simp add: take_Suc_conv_app_nth)
  have d: "drop (n_count n) (n_tasks n) = n_tasks n ! n_count n # drop (n_count n + 1) (n_tasks n)"
    using assms(2) by (simp add: Cons_nth_drop_Suc)
  then have "live_fibers (drop (n_count n + 1) (n_tasks n)) = []"
    using assms(1) by (cases "n_tasks n ! n_count n") (auto simp: nursery_ok_def)
  then show "nursery_ok (store_child n c)"
    using assms by (simp add: nursery_ok_def store_child_def)
  show "live_fibers (take (n_count (store_child n c)) (n_tasks (store_child n c))) =
     live_fibers (take (n_count n) (n_tasks n)) @ live_fibers [c]"
    using t by (simp add: store_child_def)
qed

lemma append_child_ok:
  assumes "nursery_ok n" "cc_nursery_append_child mem n c = (n', e)"
  shows "nursery_ok n'" "live_fibers (take (n_count n') (n_tasks n')) =
      live_fibers (take (n_count n) (n_tasks n)) @ (if e = 0 then live_fibers [c] else [])"
    "e = 0 \<or> e = ENOMEM \<and> n' = n" "mem \<Longrightarrow> e = 0"
proof -
  let ?A = "nursery_ok n' \<and> live_fibers (take (n_count n') (n_tasks n')) =
      live_fibers (take (n_count n) (n_tasks n)) @ (if e = 0 then live_fibers [c] else []) \<and>
    (e = 0 \<or> e = ENOMEM \<and> n' = n) \<and> (mem \<longrightarrow> e = 0)"
  have le: "n_count n \<le> length (n_tasks n)" using assms(1) by (simp add: nursery_ok_def)
  have ?A
  proof (cases "n_count n < length (n_tasks n)")
    case True
    then show ?thesis using assms store_child_ok [OF assms(1) True, of c] by (auto simp: cc_nursery_append_child_def)
  next
    case False
    then have full: "n_count n = length (n_tasks n)" using le by simp
    show ?thesis
    proof (cases mem)
      case mem: True
      let ?k = "(if length (n_tasks n) \<noteq> 0 then length (n_tasks n) * 2 else 8) - length (n_tasks n)"
      let ?n = "n\<lparr>n_tasks := n_tasks n @ replicate ?k Empty\<rparr>"
      have ok: "nursery_ok ?n" using assms(1) full by (simp add: nursery_ok_def)
      have room: "n_count ?n < length (n_tasks ?n)" using full by simp
      have "n' = store_child ?n c" "e = 0"
        using assms(2) full mem by (auto simp: cc_nursery_append_child_def cc_nursery_grow_def Let_def)
      then show ?thesis using store_child_ok [OF ok room, of c] full by simp
    next
      case mem: False
      then have "n' = n" "e = ENOMEM"
        using assms(2) full by (auto simp: cc_nursery_append_child_def cc_nursery_grow_def Let_def errno_defs)
      then show ?thesis using assms(1) mem by (simp add: errno_defs)
    qed
  qed
  then show "nursery_ok n'" "live_fibers (take (n_count n') (n_tasks n')) =
      live_fibers (take (n_count n) (n_tasks n)) @ (if e = 0 then live_fibers [c] else [])"
    "e = 0 \<or> e = ENOMEM \<and> n' = n" "mem \<Longrightarrow> e = 0" by auto
qed

text \<open>C40: Spawning keeps the nursery well formed and adds exactly the new fiber at the end of its live
  children when it succeeds; with memory it succeeds exactly when there is a nursery, a
  function and a fiber.  In the classic mode a fiber that cannot be recorded is
  released at once.\<close>
theorem spawn_records_child:
  assumes "nursery_ok n" "cc_nursery_spawn worker_frees mem (Some n) fn fiber = (Some n', e, rs)"
  shows "nursery_ok n' \<and>
    live_fibers (take (n_count n') (n_tasks n')) =
      live_fibers (take (n_count n) (n_tasks n)) @ (if e = 0 then [the fiber] else []) \<and>
    (mem \<longrightarrow> (e = 0) = (fn \<and> fiber \<noteq> None)) \<and>
    rs = (if \<not> worker_frees \<and> fn \<and> fiber \<noteq> None \<and> e \<noteq> 0 then [the fiber] else [])"
proof (cases fn)
  case False
  then have "n' = n" "e = EINVAL" "rs = []" using assms(2) by (auto simp: cc_nursery_spawn_def)
  then show ?thesis using assms(1) False by (simp add: errno_defs)
next
  case fn: True
  let ?n = "if worker_frees then n\<lparr>n_alive := n_alive n + 1\<rparr> else n"
  have n: "nursery_ok ?n" "n_count ?n = n_count n" "n_tasks ?n = n_tasks n"
    using assms(1) by (simp_all add: nursery_ok_def)
  have sp: "spawn_child worker_frees mem n fiber = (n', e, rs)"
    using assms(2) fn by (auto simp: cc_nursery_spawn_def split: prod.splits)
  show ?thesis
  proof (cases fiber)
    case None
    then have "n' = n" "e = ENOMEM" "rs = []" using sp by (auto simp: spawn_child_def split: if_splits)
    then show ?thesis using None assms(1) by (simp add: errno_defs)
  next
    case (Some t)
    obtain n1 e1 where ap: "cc_nursery_append_child mem ?n (Live t) = (n1, e1)" by fastforce
    have r: "n' = n1" "e = e1" "rs = (if e1 \<noteq> 0 \<and> \<not> worker_frees then [t] else [])"
      using sp Some ap by (auto simp: spawn_child_def Let_def split: if_splits)
    show ?thesis
      using append_child_ok [OF n(1) ap] n Some fn by (auto simp: r errno_defs)
  qed
qed

definition demo_nursery :: nursery where
  "demo_nursery = \<lparr>n_tasks = [Live 3, Empty], n_count = 1, n_cancelled = False, n_deadline = no_time,
     n_closing = [7], n_closing_cap = 4, n_alive = 1, n_cancel_gen = 0\<rparr>"

lemma demo_nursery_ok: "nursery_ok demo_nursery"
  by (simp add: nursery_ok_def demo_nursery_def)

theorem spawn_records_child_witness:
  "\<exists>n'. cc_nursery_spawn True True (Some demo_nursery) True (Some 5) = (Some n', 0, []) \<and>
    live_fibers (take (n_count n') (n_tasks n')) = [3, 5]"
proof -
  obtain n' e rs where r: "cc_nursery_spawn True True (Some demo_nursery) True (Some 5) = (Some n', e, rs)"
    by (fastforce simp: cc_nursery_spawn_def split: prod.splits)
  then show ?thesis
    using spawn_records_child [OF demo_nursery_ok r] by (auto simp: demo_nursery_def)
qed

text \<open>When the child table cannot grow in the default mode, spawning an asynchronous task frees the
  task although the fiber that will drive and free it has been enqueued.\<close>
theorem async_task_freed_under_fiber:
  assumes "nursery_ok n" "n_count n = length (n_tasks n)"
  shows "cc_nursery_spawn_async True False True True (Some n) (Some t) =
      (Some (n\<lparr>n_alive := n_alive n + 1\<rparr>), ENOMEM, True) \<and>
    cc__nursery_async_runner False \<lparr>ru_cancels = 0, ru_polls = 0, ru_frees = 0\<rparr> [(False, False)] =
      Some \<lparr>ru_cancels = 0, ru_polls = 1, ru_frees = 1\<rparr>"
  using assms by (simp add: cc_nursery_spawn_async_def cc_nursery_spawn_def spawn_child_def Let_def
      cc_nursery_append_child_def cc_nursery_grow_def errno_defs)

theorem async_task_freed_under_fiber_witness:
  "snd (snd (cc_nursery_spawn_async True False True True (Some (demo_nursery\<lparr>n_tasks := [Live 3]\<rparr>)) (Some 5)))"
  using async_task_freed_under_fiber [of "demo_nursery\<lparr>n_tasks := [Live 3]\<rparr>" 5]
  by (simp add: nursery_ok_def demo_nursery_def)

text \<open>The driver.\<close>

lemma runner_polls:
  "cc__nursery_async_runner sent r rounds = Some r' \<Longrightarrow>
    ru_frees r' = ru_frees r + 1 \<and> ru_polls r' = ru_polls r + length (takeWhile snd rounds) + 1 \<and>
    ru_cancels r' = ru_cancels r +
      (if \<not> sent \<and> list_ex fst (take (length (takeWhile snd rounds) + 1) rounds) then 1 else 0)"
proof (induction rounds arbitrary: sent r)
  case (Cons x rounds)
  obtain c p where x: "x = (c, p)" by fastforce
  show ?case
  proof (cases p)
    case True
    let ?r = "(if \<not> sent \<and> c then r\<lparr>ru_cancels := ru_cancels r + 1\<rparr> else r)\<lparr>ru_polls := ru_polls r + 1\<rparr>"
    have "cc__nursery_async_runner (sent \<or> c) ?r rounds = Some r'"
      using Cons.prems True by (auto simp: x Let_def split: if_splits)
    from Cons.IH [OF this] show ?thesis by (simp add: x True)
  next
    case False
    then show ?thesis using Cons.prems by (auto simp: x Let_def split: if_splits)
  qed
qed simp

lemma runner_returns:
  "(cc__nursery_async_runner sent r rounds \<noteq> None) = (\<exists>x \<in> set rounds. \<not> snd x)"
  by (induction sent r rounds rule: cc__nursery_async_runner.induct) (auto simp: Let_def)

text \<open>The driver of an asynchronous task returns exactly when some poll is not pending.  It then has
  polled up to the first such poll, has freed the task once and has cancelled it at most
  once, which happens exactly when it saw the nursery cancelled on the way.\<close>
theorem async_runner_terminates:
  "(cc__nursery_async_runner False r rounds \<noteq> None) = (\<exists>x \<in> set rounds. \<not> snd x) \<and>
   (\<forall>r'. cc__nursery_async_runner False r rounds = Some r' \<longrightarrow>
      ru_frees r' = ru_frees r + 1 \<and> ru_polls r' = ru_polls r + length (takeWhile snd rounds) + 1 \<and>
      ru_cancels r' = ru_cancels r +
        (if list_ex fst (take (length (takeWhile snd rounds) + 1) rounds) then 1 else 0))"
proof (intro conjI allI impI)
  fix r'
  assume r': "cc__nursery_async_runner False r rounds = Some r'"
  note R = runner_polls [OF r']
  show "ru_frees r' = ru_frees r + 1" "ru_polls r' = ru_polls r + length (takeWhile snd rounds) + 1"
    "ru_cancels r' = ru_cancels r +
        (if list_ex fst (take (length (takeWhile snd rounds) + 1) rounds) then 1 else 0)"
    using R by auto
qed (rule runner_returns)

theorem async_runner_terminates_witness:
  "\<exists>r'. cc__nursery_async_runner False \<lparr>ru_cancels = 0, ru_polls = 0, ru_frees = 0\<rparr>
      [(False, True), (True, True), (True, False), (False, True)] = Some r' \<and> ru_polls r' = 3 \<and> ru_cancels r' = 1"
proof -
  let ?r = "\<lparr>ru_cancels = 0, ru_polls = 0, ru_frees = 0\<rparr>"
  let ?l = "[(False, True), (True, True), (True, False), (False, True)]"
  note T = async_runner_terminates [of ?r ?l]
  have "cc__nursery_async_runner False ?r ?l \<noteq> None" using conjunct1 [OF T] by simp
  then obtain r' where r': "cc__nursery_async_runner False ?r ?l = Some r'" by blast
  show ?thesis using r' conjunct2 [OF T, rule_format, OF r'] by (intro exI [of _ r']) simp
qed

text \<open>A nursery created under a parent is cancelled exactly when the parent is, now and at every later
  time, as long as neither is cancelled or given another deadline.\<close>
theorem cancellation_inherited:
  assumes "tv_sec now < tv_sec t \<or> tv_sec now = tv_sec t \<and> tv_nsec now \<le> tv_nsec t"
  shows "cc_nursery_is_cancelled t (cc_nursery_create now True (Some p)) = cc_nursery_is_cancelled t (Some p)"
  using assms
  by (auto simp: cc_nursery_create_def cc__nursery_alloc_def cc_nursery_is_cancelled_def cc_nursery_deadline_def
      no_time_def Let_def split: if_splits)

theorem cancellation_inherited_witness:
  "cc_nursery_is_cancelled \<lparr>tv_sec = 9, tv_nsec = 0\<rparr>
     (cc_nursery_create \<lparr>tv_sec = 8, tv_nsec = 5\<rparr> True (Some (demo_nursery\<lparr>n_deadline := \<lparr>tv_sec = 9, tv_nsec = 0\<rparr>\<rparr>)))"
  using cancellation_inherited [of "\<lparr>tv_sec = 8, tv_nsec = 5\<rparr>" "\<lparr>tv_sec = 9, tv_nsec = 0\<rparr>"
      "demo_nursery\<lparr>n_deadline := \<lparr>tv_sec = 9, tv_nsec = 0\<rparr>\<rparr>"]
  by (simp add: cc_nursery_is_cancelled_def demo_nursery_def)

text \<open>Closing the registered channels.\<close>

lemma wake_all_send_closed: "wake_all_send c w = (c', w') \<Longrightarrow> closed c' = closed c"
proof (induction "send_waiters c" arbitrary: c w)
  case (Cons n ns)
  obtain c1 w1 where one: "cc__chan_wake_one_send_waiter_close c w = (c1, w1)" by fastforce
  note e = wake_send_close_eff [OF one Cons.hyps(2) [symmetric]]
  have "wake_all_send c1 w1 = (c', w')"
    using Cons.prems Cons.hyps(2) [symmetric] one by (subst (asm) wake_all_send.simps) simp
  from Cons.hyps(1) [OF _ this] show ?case using e by simp
qed (simp add: wake_all_send.simps)

lemma drop_head_closed:
  "closed (drop_recv_head c n ns) = closed c" "closed (recv_count_dec c) = closed c" "closed (recv_inflight_dec c) = closed c"
  by (simp_all add: drop_recv_head_def recv_count_dec_def recv_inflight_dec_def cc__chan_recv_signal_hint_advance_def Let_def)

lemma wake_one_recv_closed:
  assumes "cc__chan_wake_one_recv_waiter_close c w = (c', w')"
  shows "closed c' = closed c"
proof (cases "recv_waiters c")
  case Nil
  then show ?thesis using assms by (simp add: cc__chan_wake_one_recv_waiter_close_def)
next
  case (Cons n ns)
  obtain w1 b where win: "cc__chan_select_try_win (set_linked w n False) n = (w1, b)" by fastforce
  then show ?thesis
    using assms Cons by (auto simp: cc__chan_wake_one_recv_waiter_close_def Let_def drop_head_closed
        split: bool.splits if_splits)
qed

lemma wake_all_recv_closed: "wake_all_recv c w = (c', w') \<Longrightarrow> closed c' = closed c"
proof (induction "recv_waiters c" arbitrary: c w)
  case (Cons n ns)
  obtain c1 w1 where one: "cc__chan_wake_one_recv_waiter_close c w = (c1, w1)" by fastforce
  note e = wake_recv_close_eff [OF one Cons.hyps(2) [symmetric]]
  have "wake_all_recv c1 w1 = (c', w')"
    using Cons.prems Cons.hyps(2) [symmetric] one by (subst (asm) wake_all_recv.simps) simp
  from Cons.hyps(1) [OF _ this] show ?case using e wake_one_recv_closed [OF one] by simp
qed (simp add: wake_all_recv.simps)

lemma close_closes:
  assumes "cc_chan_close c w = (c', w')"
  shows "closed c' \<and> recv_waiters c' = [] \<and> send_waiters c' = []"
proof -
  obtain v where v: "cc__chan_close_common c w True False 0 0 None =
    (let (c, w) = cc__chan_wake_all_waiters (close_fields c True False 0 0 None) v in (c, cc__chan_signal_recv_ready c w))"
    by (simp add: close_common_alt Let_def)
  obtain c1 w1 where s: "wake_all_send (close_fields c True False 0 0 None) v = (c1, w1)" by fastforce
  obtain c2 w2 where r: "wake_all_recv c1 w1 = (c2, w2)" by fastforce
  have c': "c' = c2" using assms s r v by (simp add: cc_chan_close_def cc__chan_wake_all_waiters_def)
  have "closed c2" using wake_all_send_closed [OF s] wake_all_recv_closed [OF r] by (simp add: close_fields_def)
  then show ?thesis
    using wake_all_send_releases [OF s] wake_all_recv_releases [OF r] by (simp add: c')
qed

lemma close_registered_closes:
  "close_registered is cs w = (cs', w') \<Longrightarrow>
    (\<forall>i \<in> set is. closed (cs' i) \<and> recv_waiters (cs' i) = [] \<and> send_waiters (cs' i) = []) \<and>
    (\<forall>i. i \<notin> set is \<longrightarrow> cs' i = cs i)"
proof (induction "is" arbitrary: cs w)
  case (Cons i "is")
  obtain c v where c: "cc_chan_close (cs i) w = (c, v)" by fastforce
  then have "close_registered is (cs(i := c)) v = (cs', w')" using Cons.prems by simp
  from Cons.IH [OF this] show ?case using close_closes [OF c] by auto
qed simp

text \<open>The joins of the classic mode.\<close>

definition first_error :: "errno list \<Rightarrow> errno" where
  "first_error es = (case dropWhile (\<lambda>e. e = 0) es of [] \<Rightarrow> 0 | e # _ \<Rightarrow> e)"

lemma join_children_all:
  "join_children join cs e0 = (if e0 \<noteq> 0 then e0 else first_error (map join (live_fibers cs)), live_fibers cs, live_fibers cs)"
  by (induction cs arbitrary: e0) (auto simp: first_error_def split: child.splits)

text \<open>C20: Waiting in the classic mode joins every live child exactly once, in spawn order, releases
  each exactly once and returns the first error; afterwards the nursery is well formed
  without a live child, so that freeing it releases nothing again.  In both modes every
  registered channel is closed and has no waiter left, and no other channel is
  touched.\<close>
theorem wait_joins_then_closes:
  assumes "nursery_ok n" "cc_nursery_wait worker_frees join (Some n) cs w = Inr r"
  shows "(if worker_frees then wr_joined r = [] \<and> wr_released r = [] \<and> wr_err r = 0
      else wr_joined r = live_fibers (take (n_count n) (n_tasks n)) \<and> wr_released r = wr_joined r \<and>
        wr_err r = first_error (map join (wr_joined r)) \<and> nursery_ok (wr_nursery r) \<and>
        live_fibers (n_tasks (wr_nursery r)) = []) \<and>
    snd (snd (cc_nursery_free worker_frees (Some (wr_nursery r)) cs2 w2)) = [] \<and>
    list_all (\<lambda>i. closed (wr_chans r i) \<and> recv_waiters (wr_chans r i) = [] \<and> send_waiters (wr_chans r i) = []) (n_closing n) \<and>
    (\<forall>i. i \<in> set (n_closing n) \<or> wr_chans r i = cs i)"
proof -
  let ?used = "take (n_count n) (n_tasks n)"
  obtain cs' w' where cl: "close_registered (n_closing n) cs w = (cs', w')" by fastforce
  have le: "n_count n \<le> length (n_tasks n)" "length (n_closing n) \<le> n_closing_cap n"
    and rest: "live_fibers (drop (n_count n) (n_tasks n)) = []"
    using assms(1) by (auto simp: nursery_ok_def)
  have r: "r = wait_children worker_frees join n cs w" using assms(2) by (simp add: cc_nursery_wait_def)
  have R: "wr_chans r = cs'" "n_count (wr_nursery r) = 0" "n_closing (wr_nursery r) = n_closing n"
    "n_closing_cap (wr_nursery r) = n_closing_cap n"
    using cl by (auto simp: r wait_children_def Let_def split: prod.splits)
  have C: "\<not> worker_frees \<Longrightarrow> wr_joined r = live_fibers ?used \<and> wr_released r = live_fibers ?used \<and>
      wr_err r = first_error (map join (live_fibers ?used)) \<and> live_fibers (n_tasks (wr_nursery r)) = []"
    using cl rest by (auto simp: r wait_children_def Let_def join_children_all)
  have W: "worker_frees \<Longrightarrow> wr_joined r = [] \<and> wr_released r = [] \<and> wr_err r = 0"
    using cl by (auto simp: r wait_children_def Let_def)
  have F: "snd (snd (cc_nursery_free worker_frees (Some (wr_nursery r)) cs2 w2)) = []"
    using R by (auto simp: cc_nursery_free_def split: prod.splits)
  show ?thesis
    using R C W le F close_registered_closes [OF cl] by (auto simp: list_all_iff nursery_ok_def)
qed

theorem wait_joins_then_closes_witness:
  "\<exists>r. cc_nursery_wait False (\<lambda>_. 5) (Some demo_nursery) (\<lambda>_. fst demo_queue) (snd demo_queue) = Inr r \<and> wr_joined r = [3] \<and> wr_err r = 5 \<and>
    closed (wr_chans r 7)"
proof -
  obtain r where r: "cc_nursery_wait False (\<lambda>_. 5) (Some demo_nursery) (\<lambda>_. fst demo_queue) (snd demo_queue) = Inr r"
    by (simp add: cc_nursery_wait_def)
  then show ?thesis
    using wait_joins_then_closes [OF demo_nursery_ok r] by (auto simp: demo_nursery_def first_error_def)
qed

end
