(* ===== verification/Text_Scan.thy ===== *)
theory Text_Scan
  imports CC_Prelude
begin

text \<open>
  The text scanners the lowering passes share (util/text.h): identifier and
  white-space predicates, the string builder, bracket matching, skipping of white
  space and comments, the searches that ignore comments and literals, the backward
  search for a declaration boundary, and the rendering of source text as a C string literal.
  A loop over the half-open range of a source runs over the characters of that
  range and carries the position of the first one.  All searches share the lexer
  that tells code from comments and literals, which the source repeats in each of them;
  the list of code characters it yields is what their properties are stated over.
\<close>

section \<open>Characters\<close>

definition between :: "char \<Rightarrow> char \<Rightarrow> char \<Rightarrow> bool" where
  "between lo hi c = (of_char lo \<le> (of_char c :: nat) \<and> (of_char c :: nat) \<le> of_char hi)"

definition cc_is_ident_start :: "char \<Rightarrow> bool" where
  "cc_is_ident_start c = (c = CHR ''_'' \<or> between (CHR ''A'') (CHR ''Z'') c \<or> between (CHR ''a'') (CHR ''z'') c)"

definition cc_is_ident_char :: "char \<Rightarrow> bool" where
  "cc_is_ident_char c = (cc_is_ident_start c \<or> between (CHR ''0'') (CHR ''9'') c)"

definition newline :: char where "newline = CHR 0x0A"
definition backslash :: char where "backslash = CHR 0x5C"
definition dquote :: char where "dquote = CHR 0x22"
definition squote :: char where "squote = CHR 0x27"

definition is_ws :: "char \<Rightarrow> bool" where
  "is_ws c = (c \<in> {CHR '' '', CHR 0x09, CHR 0x0D, newline})"

definition is_blank :: "char \<Rightarrow> bool" where
  "is_blank c = (c \<in> {CHR '' '', CHR 0x09})"

lemmas char_defs = newline_def backslash_def dquote_def squote_def

section \<open>White space and slices\<close>

definition cc_skip_ws_len :: "string \<Rightarrow> nat \<Rightarrow> nat \<Rightarrow> nat" where
  "cc_skip_ws_len s len start = start + length (takeWhile is_ws (drop start (take len s)))"

definition cc_strndup_trim_ws :: "string \<Rightarrow> nat \<Rightarrow> string" where
  "cc_strndup_trim_ws s n = rev (dropWhile is_ws (rev (dropWhile is_ws (take n s))))"

definition cc_dup_slice :: "string \<Rightarrow> nat \<Rightarrow> nat \<Rightarrow> string" where
  "cc_dup_slice b start end = (if end \<le> start then [] else take (end - start) (drop start b))"

section \<open>String builder\<close>

record builder =
  sb_text :: string
  sb_cap :: nat

text \<open>\<^verbatim>\<open>while (nc < need) nc *= 2\<close>.  The code starts it at a positive capacity.\<close>

function grow_cap :: "nat \<Rightarrow> nat \<Rightarrow> nat" where
  "grow_cap nc need = (if nc < need \<and> 0 < nc then grow_cap (nc * 2) need else nc)"
  by pat_completeness auto
termination by (relation "measure (\<lambda>(nc, need). need - nc)") auto

declare grow_cap.simps [simp del]

text \<open>The flag says whether the reallocation succeeds.\<close>

definition cc_sb_append :: "bool \<Rightarrow> builder \<Rightarrow> string \<Rightarrow> builder" where
  "cc_sb_append mem sb s =
    (if s = [] then sb
     else (let need = length (sb_text sb) + length s + 1 in
       if sb_cap sb < need \<and> \<not> mem then sb
       else sb\<lparr>sb_text := sb_text sb @ s,
               sb_cap := (if sb_cap sb < need
                 then grow_cap (if sb_cap sb = 0 then 1024 else sb_cap sb * 2) need else sb_cap sb)\<rparr>))"

section \<open>The lexer\<close>

datatype lex_mode = Code | LineC | BlockC | Quoted char

text \<open>One character: the next mode, whether the following character is consumed too, and whether
  this character is code.  The flag makes the newline that ends a line comment code.\<close>

fun lex_step :: "bool \<Rightarrow> lex_mode \<Rightarrow> char \<Rightarrow> char option \<Rightarrow> lex_mode \<times> bool \<times> bool" where
  "lex_step nl LineC c c2 = (if c = newline then (Code, False, nl) else (LineC, False, False))"
| "lex_step nl BlockC c c2 = (if c = CHR ''*'' \<and> c2 = Some (CHR ''/'') then (Code, True, False) else (BlockC, False, False))"
| "lex_step nl (Quoted q) c c2 =
    (if c = backslash \<and> c2 \<noteq> None then (Quoted q, True, False)
     else if c = q then (Code, False, False) else (Quoted q, False, False))"
| "lex_step nl Code c c2 =
    (if c = CHR ''/'' \<and> c2 = Some (CHR ''/'') then (LineC, True, False)
     else if c = CHR ''/'' \<and> c2 = Some (CHR ''*'') then (BlockC, True, False)
     else if c = dquote \<or> c = squote then (Quoted c, False, False)
     else (Code, False, True))"

definition peek :: "string \<Rightarrow> char option" where
  "peek cs = (case cs of [] \<Rightarrow> None | c # _ \<Rightarrow> Some c)"

text \<open>The code characters of a range, with their positions.\<close>

function code_chars :: "bool \<Rightarrow> lex_mode \<Rightarrow> string \<Rightarrow> nat \<Rightarrow> (nat \<times> char) list" where
  "code_chars nl m [] p = []"
| "code_chars nl m (c # cs) p =
    (case lex_step nl m c (peek cs) of (m', skip, code) \<Rightarrow>
       (if code then [(p, c)] else []) @
       (if skip then code_chars nl m' (tl cs) (p + 2) else code_chars nl m' cs (p + 1)))"
  by pat_completeness auto
termination by (relation "measure (\<lambda>(nl, m, cs, p). length cs)") auto

section \<open>Matching brackets\<close>

record depth =
  par :: nat
  brk :: nat
  br :: nat

definition zero_depth :: depth where "zero_depth = \<lparr>par = 0, brk = 0, br = 0\<rparr>"

definition depth_step :: "depth \<Rightarrow> char \<Rightarrow> depth" where
  "depth_step d c =
    (if c = CHR ''('' then d\<lparr>par := par d + 1\<rparr>
     else if c = CHR '')'' then d\<lparr>par := par d - 1\<rparr>
     else if c = CHR ''['' then d\<lparr>brk := brk d + 1\<rparr>
     else if c = CHR '']'' then d\<lparr>brk := brk d - 1\<rparr>
     else if c = CHR ''{'' then d\<lparr>br := br d + 1\<rparr>
     else if c = CHR ''}'' then d\<lparr>br := br d - 1\<rparr>
     else d)"

text \<open>The loop of the three matchers, which stops at the closing character when the depth it tracks
  reaches zero.\<close>

function match_loop :: "char \<Rightarrow> (depth \<Rightarrow> nat) \<Rightarrow> lex_mode \<Rightarrow> depth \<Rightarrow> string \<Rightarrow> nat \<Rightarrow> nat option" where
  "match_loop close sel m d [] p = None"
| "match_loop close sel m d (c # cs) p =
    (case lex_step False m c (peek cs) of (m', skip, code) \<Rightarrow>
       if code then
         (if c = close \<and> sel (depth_step d c) = 0 then Some p
          else match_loop close sel m' (depth_step d c) cs (p + 1))
       else if skip then match_loop close sel m' d (tl cs) (p + 2)
       else match_loop close sel m' d cs (p + 1))"
  by pat_completeness auto
termination by (relation "measure (\<lambda>(close, sel, m, d, cs, p). length cs)") auto

definition cc_find_matching_paren :: "string \<Rightarrow> nat \<Rightarrow> nat \<Rightarrow> nat option" where
  "cc_find_matching_paren b bl lpar =
    (if bl \<le> lpar \<or> b ! lpar \<noteq> CHR ''('' then None
     else match_loop (CHR '')'') par Code (zero_depth\<lparr>par := 1\<rparr>) (drop (lpar + 1) (take bl b)) (lpar + 1))"

definition cc_find_matching_brace :: "string \<Rightarrow> nat \<Rightarrow> nat \<Rightarrow> nat option" where
  "cc_find_matching_brace b bl lbrace =
    (if bl \<le> lbrace \<or> b ! lbrace \<noteq> CHR ''{'' then None
     else match_loop (CHR ''}'') br Code (zero_depth\<lparr>br := 1\<rparr>) (drop (lbrace + 1) (take bl b)) (lbrace + 1))"

definition cc_find_matching_bracket :: "string \<Rightarrow> nat \<Rightarrow> nat \<Rightarrow> nat option" where
  "cc_find_matching_bracket b bl lbrack =
    (if bl \<le> lbrack \<or> b ! lbrack \<noteq> CHR ''['' then None
     else match_loop (CHR '']'') brk Code (zero_depth\<lparr>brk := 1\<rparr>) (drop (lbrack + 1) (take bl b)) (lbrack + 1))"

section \<open>Skipping white space and comments\<close>

fun skip_block :: "string \<Rightarrow> string" where
  "skip_block (c # c2 # cs) = (if c = CHR ''*'' \<and> c2 = CHR ''/'' then cs else skip_block (c2 # cs))"
| "skip_block cs = cs"

lemma skip_block_length: "length (skip_block cs) \<le> length cs"
  by (induction cs rule: skip_block.induct) auto

lemma dropWhile_length: "length (dropWhile f cs) \<le> length cs"
  by (induction cs) auto

text \<open>The rest of the range after the skipped part.  An unclosed block comment leaves its last
  character.\<close>

function skip_blank :: "string \<Rightarrow> string" where
  "skip_blank cs =
    (case cs of
       [] \<Rightarrow> []
     | c # rest \<Rightarrow>
         if is_ws c then skip_blank rest
         else if c = CHR ''/'' \<and> peek rest = Some (CHR ''/'')
         then skip_blank (dropWhile (\<lambda>x. x \<noteq> newline) (tl rest))
         else if c = CHR ''/'' \<and> peek rest = Some (CHR ''*'') then skip_blank (skip_block (tl rest))
         else cs)"
  by pat_completeness auto
termination
  by (relation "measure length")
    (auto simp: le_imp_less_Suc intro: le_less_trans [OF skip_block_length] le_less_trans [OF dropWhile_length])

declare skip_blank.simps [simp del]

definition cc_skip_ws_and_comments :: "string \<Rightarrow> nat \<Rightarrow> nat \<Rightarrow> nat" where
  "cc_skip_ws_and_comments src len i =
    (if len \<le> i then i else len - length (skip_blank (drop i (take len src))))"

text \<open>The variant on a terminated string.  An unclosed block comment runs to the end.\<close>

fun skip_block_ptr :: "string \<Rightarrow> string" where
  "skip_block_ptr [] = []"
| "skip_block_ptr (c # cs) = (if c = CHR ''*'' \<and> peek cs = Some (CHR ''/'') then tl cs else skip_block_ptr cs)"

lemma skip_block_ptr_length: "length (skip_block_ptr cs) \<le> length cs"
  by (induction cs) (auto simp: le_SucI)

function cc_skip_ws_and_comments_ptr :: "string \<Rightarrow> string" where
  "cc_skip_ws_and_comments_ptr cs =
    (case cs of
       [] \<Rightarrow> []
     | c # rest \<Rightarrow>
         if is_ws c then cc_skip_ws_and_comments_ptr rest
         else if c = CHR ''/'' \<and> peek rest = Some (CHR ''/'')
         then cc_skip_ws_and_comments_ptr (dropWhile (\<lambda>x. x \<noteq> newline) (tl rest))
         else if c = CHR ''/'' \<and> peek rest = Some (CHR ''*'')
         then cc_skip_ws_and_comments_ptr (skip_block_ptr (tl rest))
         else cs)"
  by pat_completeness auto
termination
  by (relation "measure length")
    (auto simp: le_imp_less_Suc intro: le_less_trans [OF skip_block_ptr_length] le_less_trans [OF dropWhile_length])

declare cc_skip_ws_and_comments_ptr.simps [simp del]

section \<open>Searches outside comments and literals\<close>

definition slice :: "string \<Rightarrow> nat \<Rightarrow> nat \<Rightarrow> string" where
  "slice src start end = drop start (take end src)"

text \<open>\<^verbatim>\<open>cc_find_char_top_level\<close>; the result is the end of the range when there is no hit.\<close>

function top_loop :: "char \<Rightarrow> lex_mode \<Rightarrow> depth \<Rightarrow> string \<Rightarrow> nat \<Rightarrow> nat option" where
  "top_loop ch m d [] p = None"
| "top_loop ch m d (c # cs) p =
    (case lex_step True m c (peek cs) of (m', skip, code) \<Rightarrow>
       if code then
         (if d = zero_depth \<and> c = ch then Some p else top_loop ch m' (depth_step d c) cs (p + 1))
       else if skip then top_loop ch m' d (tl cs) (p + 2)
       else top_loop ch m' d cs (p + 1))"
  by pat_completeness auto
termination by (relation "measure (\<lambda>(ch, m, d, cs, p). length cs)") auto

definition found_or :: "nat \<Rightarrow> nat option \<Rightarrow> nat" where
  "found_or end r = (case r of Some p \<Rightarrow> p | None \<Rightarrow> end)"

definition cc_find_char_top_level :: "string \<Rightarrow> nat \<Rightarrow> nat \<Rightarrow> char \<Rightarrow> nat" where
  "cc_find_char_top_level src start end ch =
    (if end \<le> start then end
     else found_or end (top_loop ch Code zero_depth (slice src start end) start))"

text \<open>The loop of the two substring searches: the first code position at which the test holds, as
  long as the needle still fits into the range.\<close>

function sub_loop :: "nat \<Rightarrow> (nat \<Rightarrow> bool) \<Rightarrow> lex_mode \<Rightarrow> string \<Rightarrow> nat \<Rightarrow> nat option" where
  "sub_loop n test m [] p = None"
| "sub_loop n test m (c # cs) p =
    (if length (c # cs) < n then None
     else case lex_step False m c (peek cs) of (m', skip, code) \<Rightarrow>
       if code then (if test p then Some p else sub_loop n test m' cs (p + 1))
       else if skip then sub_loop n test m' (tl cs) (p + 2)
       else sub_loop n test m' cs (p + 1))"
  by pat_completeness auto
termination by (relation "measure (\<lambda>(n, test, m, cs, p). length cs)") auto

definition at :: "string \<Rightarrow> string \<Rightarrow> nat \<Rightarrow> bool" where
  "at src needle p = (take (length needle) (drop p src) = needle)"

definition word_bounded :: "string \<Rightarrow> nat \<Rightarrow> nat \<Rightarrow> nat \<Rightarrow> nat \<Rightarrow> bool" where
  "word_bounded src start end n p =
    (\<not> (start < p \<and> cc_is_ident_char (src ! (p - 1))) \<and> \<not> (p + n < end \<and> cc_is_ident_char (src ! (p + n))))"

definition cc_find_ident_top_level :: "string \<Rightarrow> nat \<Rightarrow> nat \<Rightarrow> string \<Rightarrow> nat" where
  "cc_find_ident_top_level src start end name =
    (if name = [] \<or> end < start + length name then end
     else found_or end (sub_loop (length name)
       (\<lambda>p. at src name p \<and> word_bounded src start end (length name) p) Code (slice src start end) start))"

definition cc_find_substr_top_level :: "string \<Rightarrow> nat \<Rightarrow> nat \<Rightarrow> string \<Rightarrow> nat" where
  "cc_find_substr_top_level src start end needle =
    (if needle = [] \<or> end < start + length needle then end
     else found_or end (sub_loop (length needle) (at src needle) Code (slice src start end) start))"

definition cc_contains_token_top_level :: "string \<Rightarrow> nat \<Rightarrow> string \<Rightarrow> bool" where
  "cc_contains_token_top_level src len needle =
    (needle \<noteq> [] \<and> cc_find_substr_top_level src 0 len needle < len)"

text \<open>The plain token test, which does look into comments and literals.\<close>

definition cc_range_contains_token :: "string \<Rightarrow> nat \<Rightarrow> string \<Rightarrow> bool" where
  "cc_range_contains_token s n tok =
    (tok \<noteq> [] \<and> length tok \<le> n \<and>
     (\<exists>i \<in> set [0..<n - length tok + 1]. at s tok i \<and> word_bounded s 0 n (length tok) i))"

subsection \<open>The backward search\<close>

text \<open>The forward pass that marks the bytes of comments and literals.\<close>

function lex_mask :: "lex_mode \<Rightarrow> string \<Rightarrow> bool list" where
  "lex_mask m [] = []"
| "lex_mask m (c # cs) =
    (case lex_step True m c (peek cs) of (m', skip, code) \<Rightarrow>
       if code then False # lex_mask m' cs
       else if skip \<and> cs \<noteq> [] then True # True # lex_mask m' (tl cs)
       else True # lex_mask m' cs)"
  by pat_completeness auto
termination by (relation "measure (\<lambda>(m, cs). length cs)") auto

text \<open>The backward pass over the marked range, last byte first: the new depths, or a hit.  The result is
  the offset after the hit.\<close>

definition rfind_step :: "string \<Rightarrow> depth \<Rightarrow> char \<Rightarrow> depth option" where
  "rfind_step delims d c =
    (if c = CHR '')'' then Some (d\<lparr>par := par d + 1\<rparr>)
     else if c = CHR ''('' then (if 0 < par d then Some (d\<lparr>par := par d - 1\<rparr>) else None)
     else if c = CHR '']'' then Some (d\<lparr>brk := brk d + 1\<rparr>)
     else if c = CHR ''['' then Some (d\<lparr>brk := brk d - 1\<rparr>)
     else if c = CHR ''}'' then Some (d\<lparr>br := br d + 1\<rparr>)
     else if c = CHR ''{'' \<and> 0 < br d then Some (d\<lparr>br := br d - 1\<rparr>)
     else if d = zero_depth \<and> c \<in> set delims then None
     else Some d)"

fun rfind_loop :: "string \<Rightarrow> depth \<Rightarrow> (char \<times> bool) list \<Rightarrow> nat option" where
  "rfind_loop delims d [] = None"
| "rfind_loop delims d ((c, masked) # rest) =
    (if masked then rfind_loop delims d rest
     else case rfind_step delims d c of
       None \<Rightarrow> Some (length rest + 1)
     | Some d' \<Rightarrow> rfind_loop delims d' rest)"

fun rfind_plain :: "string \<Rightarrow> string \<Rightarrow> nat option" where
  "rfind_plain delims [] = None"
| "rfind_plain delims (c # rest) = (if c \<in> set delims then Some (length rest + 1) else rfind_plain delims rest)"

definition skip_blanks :: "string \<Rightarrow> nat \<Rightarrow> nat \<Rightarrow> nat" where
  "skip_blanks src end p = p + length (takeWhile is_blank (slice src p end))"

text \<open>The flag says whether the allocation of a long mask succeeds.\<close>

definition cc_rfind_char_top_level :: "bool \<Rightarrow> string \<Rightarrow> nat \<Rightarrow> nat \<Rightarrow> string \<Rightarrow> nat" where
  "cc_rfind_char_top_level mem src start end delims =
    (if end \<le> start then start
     else
      (let cs = slice src start end;
           hit = (if 2 ^ 20 < end - start then rfind_plain delims (rev cs)
                  else if 1024 < end - start \<and> \<not> mem then None
                  else rfind_loop delims zero_depth (rev (zip cs (lex_mask Code cs))))
       in skip_blanks src end (start + (case hit of Some h \<Rightarrow> h | None \<Rightarrow> 0))))"

section \<open>Rendering source text as a string literal\<close>

text \<open>The loop that fills the temporary buffer: the buffer so far, in reverse, whether the previous
  character was white space, and the result with the truncation flag.\<close>

definition lit_space :: "char \<Rightarrow> bool" where
  "lit_space c = (c \<in> {CHR '' '', CHR 0x09, CHR 0x0D, newline, CHR 0x0B, CHR 0x0C})"

fun lit_loop :: "string \<Rightarrow> bool \<Rightarrow> string \<Rightarrow> string \<times> bool" where
  "lit_loop w prev [] = (w, False)"
| "lit_loop w prev (c # cs) =
    (if 256 \<le> length w + 3 then (w, False)
     else if lit_space c then
       (if \<not> prev \<and> w \<noteq> [] then lit_loop (CHR '' '' # w) True cs else lit_loop w prev cs)
     else if 160 \<le> length w then (w, True)
     else if c = backslash \<or> c = dquote then
       (if 256 \<le> length w + 2 then (w, True) else lit_loop (c # backslash # w) False cs)
     else if (of_char c :: nat) < 0x20 \<or> c = CHR 0x7F then lit_loop (CHR ''?'' # w) False cs
     else lit_loop (c # w) False cs)"

definition cc_sb_append_c_string_literal :: "builder \<Rightarrow> string \<Rightarrow> nat \<Rightarrow> nat \<Rightarrow> builder" where
  "cc_sb_append_c_string_literal sb src a b =
    (let sb = cc_sb_append True sb [dquote];
         sb = (if a < b then
           (case lit_loop [] False (slice src a b) of (w, truncated) \<Rightarrow>
              let sb = cc_sb_append True sb (rev (dropWhile (\<lambda>c. c = CHR '' '') w))
              in if truncated then cc_sb_append True sb ''...'' else sb)
           else sb)
     in cc_sb_append True sb [dquote])"

text \<open>Decimal digits of a line number.\<close>

fun digits :: "nat \<Rightarrow> string" where
  "digits n = (if n < 10 then [char_of (48 + n)] else digits (n div 10) @ [char_of (48 + n mod 10)])"

declare digits.simps [simp del]

definition append_all :: "builder \<Rightarrow> string list \<Rightarrow> builder" where
  "append_all sb ss = foldl (cc_sb_append True) sb ss"

definition cc_sb_append_err_null_at ::
  "builder \<Rightarrow> string \<Rightarrow> nat \<Rightarrow> nat \<Rightarrow> string option \<Rightarrow> nat \<Rightarrow> builder" where
  "cc_sb_append_err_null_at sb src a b file line =
    (let f = (case file of Some f \<Rightarrow> f | None \<Rightarrow> ''<input>'');
         sb = cc_sb_append True sb ''__cc_err_null_at('';
         sb = cc_sb_append_c_string_literal sb src a b;
         sb = cc_sb_append True sb '', '';
         sb = cc_sb_append_c_string_literal sb f 0 (length f)
     in append_all sb [CHR '','' # CHR '' '' # [dquote], digits line, [dquote, CHR '')'']])"

definition cc_sb_append_uw_err_at ::
  "builder \<Rightarrow> string \<Rightarrow> string \<Rightarrow> nat \<Rightarrow> nat \<Rightarrow> string option \<Rightarrow> nat \<Rightarrow> builder" where
  "cc_sb_append_uw_err_at sb tmpv src a b file line =
    (let f = (case file of Some f \<Rightarrow> f | None \<Rightarrow> ''<input>'');
         sb = append_all sb [''__cc_uw_err_at('', tmpv, '', ''];
         sb = cc_sb_append_c_string_literal sb src a b;
         sb = cc_sb_append True sb '', '';
         sb = cc_sb_append_c_string_literal sb f 0 (length f)
     in append_all sb [CHR '','' # CHR '' '' # [dquote], digits line, [dquote, CHR '')'']])"

definition cc_is_non_decl_stmt_type :: "string \<Rightarrow> bool" where
  "cc_is_non_decl_stmt_type t =
    (t \<in> {''return'', ''break'', ''continue'', ''goto'', ''case'', ''default''})"

section \<open>String builder\<close>

lemma grow_cap_bounds:
  assumes "0 < nc"
  shows "need \<le> grow_cap nc need" "nc \<le> grow_cap nc need"
  using assms
  by (induction nc need rule: grow_cap.induct) (subst grow_cap.simps, force)+

definition sb_ok :: "builder \<Rightarrow> bool" where
  "sb_ok sb = (sb_text sb = [] \<or> length (sb_text sb) < sb_cap sb)"

lemma sb_append_ok: "sb_ok sb \<Longrightarrow> sb_ok (cc_sb_append mem sb s)"
proof -
  have "n < grow_cap (if c = 0 then 1024 else c * 2) (Suc n)" for n c
    using grow_cap_bounds(1) [of "if c = 0 then 1024 else c * 2" "Suc n"] by (auto simp: Suc_le_eq split: if_splits)
  then show "sb_ok sb \<Longrightarrow> sb_ok (cc_sb_append mem sb s)"
    by (auto simp: sb_ok_def cc_sb_append_def Let_def)
qed

lemma sb_append_text [simp]: "sb_text (cc_sb_append True sb s) = sb_text sb @ s"
  by (simp add: cc_sb_append_def Let_def)

lemma append_all_text [simp]: "sb_text (append_all sb ss) = sb_text sb @ concat ss"
  by (induction ss arbitrary: sb) (simp_all add: append_all_def)

section \<open>Bracket matching\<close>

text \<open>Text in which the brackets of one kind are balanced; the other characters do not matter.\<close>

inductive balanced :: "char \<Rightarrow> char \<Rightarrow> string \<Rightarrow> bool" for op cl where
  balanced_Nil [intro]: "balanced op cl []"
| balanced_other [intro]: "x \<noteq> op \<Longrightarrow> x \<noteq> cl \<Longrightarrow> balanced op cl s \<Longrightarrow> balanced op cl (x # s)"
| balanced_nest [intro]: "balanced op cl s \<Longrightarrow> balanced op cl t \<Longrightarrow> balanced op cl (op # s @ cl # t)"

fun close_scan :: "char \<Rightarrow> char \<Rightarrow> nat \<Rightarrow> (nat \<times> char) list \<Rightarrow> nat option" where
  "close_scan op cl k [] = None"
| "close_scan op cl k ((p, x) # r) =
    (if x = op then close_scan op cl (Suc k) r
     else if x = cl then (if k = 1 then Some p else close_scan op cl (k - 1) r)
     else close_scan op cl k r)"

lemma match_loop_scan:
  assumes sel: "\<And>d x. sel (depth_step d x) = (if x = op then Suc (sel d) else if x = close then sel d - 1 else sel d)"
    and ne: "op \<noteq> close"
  shows "0 < sel d \<Longrightarrow> match_loop close sel m d cs p = close_scan op close (sel d) (code_chars False m cs p)"
proof (induction cs arbitrary: m d p rule: length_induct)
  case (1 cs)
  show ?case
  proof (cases cs)
    case (Cons c rest)
    obtain m' skip code where st: "lex_step False m c (peek rest) = (m', skip, code)" by (metis prod_cases3)
    have step: "match_loop close sel m' d' rest q = close_scan op close (sel d') (code_chars False m' rest q)"
      if "0 < sel d'" for d' q using 1 that Cons by simp
    have step2: "match_loop close sel m' d' (tl rest) q = close_scan op close (sel d') (code_chars False m' (tl rest) q)"
      if "0 < sel d'" for d' q using 1 that Cons by simp
    show ?thesis
    proof (cases code)
      case True
      have "\<not> skip" using st True by (cases m) (auto split: if_splits)
      then show ?thesis using Cons st True sel ne 1(2) step [of "depth_step d c"] by (auto split: if_splits)
    next
      case False
      then show ?thesis using Cons st 1(2) step step2 by simp
    qed
  qed simp
qed

lemma close_scan_balanced:
  assumes "balanced op cl s" "op \<noteq> cl"
  shows "map snd ys = s \<Longrightarrow> 0 < k \<Longrightarrow> close_scan op cl k (ys @ zs) = close_scan op cl k zs"
  using assms(1)
proof (induction arbitrary: ys zs k)
  case (balanced_other x s)
  then show ?case by (cases ys) auto
next
  case (balanced_nest s t)
  from balanced_nest.prems(1) obtain p as q bs where ys: "ys = (p, op) # as @ (q, cl) # bs" "map snd as = s" "map snd bs = t"
    by (auto simp: map_eq_Cons_conv map_eq_append_conv)
  show ?case using balanced_nest.IH(1) [OF ys(2), of "Suc k" "(q, cl) # bs @ zs"]
      balanced_nest.IH(2) [OF ys(3) balanced_nest.prems(2)] balanced_nest.prems(2) assms(2)
    by (simp add: ys(1))
qed simp

lemma close_scan_Some:
  assumes "op \<noteq> cl"
  shows "close_scan op cl (Suc k) L = Some p \<Longrightarrow>
    \<exists>ys q zs. L = ys @ (q, cl) # zs \<and> balanced op cl (map snd ys) \<and>
      (if k = 0 then q = p else close_scan op cl k zs = Some p)"
proof (induction L arbitrary: k rule: length_induct)
  case (1 L)
  obtain q x r where L: "L = (q, x) # r" using 1(2) by (cases L) auto
  have IH: "\<exists>ys q zs. R = ys @ (q, cl) # zs \<and> balanced op cl (map snd ys) \<and>
      (if j = 0 then q = p else close_scan op cl j zs = Some p)"
    if "length R \<le> length r" "close_scan op cl (Suc j) R = Some p" for R j
    using 1(1) that L by simp
  consider "x = op" | "x = cl" | "x \<noteq> op" "x \<noteq> cl" by blast
  then show ?case
  proof cases
    case 1
    then have "close_scan op cl (Suc (Suc k)) r = Some p" using \<open>close_scan op cl (Suc k) L = Some p\<close> by (simp add: L)
    from IH [OF _ this] obtain as q1 zs where a: "r = as @ (q1, cl) # zs" "balanced op cl (map snd as)"
      "close_scan op cl (Suc k) zs = Some p" by auto
    from IH [OF _ a(3)] a(1) obtain bs q2 ws where b: "zs = bs @ (q2, cl) # ws" "balanced op cl (map snd bs)"
      "if k = 0 then q2 = p else close_scan op cl k ws = Some p" by auto
    have "balanced op cl (map snd ((q, x) # as @ (q1, cl) # bs))" using a(2) b(2) 1 by auto
    moreover have "L = ((q, x) # as @ (q1, cl) # bs) @ (q2, cl) # ws" by (simp add: L a b)
    ultimately show ?thesis using b(3) by blast
  next
    case 2
    then have "L = [] @ (q, cl) # r" "if k = 0 then q = p else close_scan op cl k r = Some p"
      using \<open>close_scan op cl (Suc k) L = Some p\<close> assms by (auto simp: L split: if_splits)
    then show ?thesis using balanced_Nil by (metis list.map(1))
  next
    case 3
    then have "close_scan op cl (Suc k) r = Some p" using \<open>close_scan op cl (Suc k) L = Some p\<close> by (simp add: L)
    from IH [OF _ this] obtain ys q1 zs where a: "r = ys @ (q1, cl) # zs" "balanced op cl (map snd ys)"
      "if k = 0 then q1 = p else close_scan op cl k zs = Some p" by auto
    have "balanced op cl (map snd ((q, x) # ys))" using a(2) 3 by auto
    then show ?thesis using a by (intro exI [of _ "(q, x) # ys"]) (auto simp: L)
  qed
qed

lemma close_scan_iff:
  assumes "op \<noteq> cl"
  shows "close_scan op cl 1 L = Some p \<longleftrightarrow>
    (\<exists>ys zs. L = ys @ (p, cl) # zs \<and> balanced op cl (map snd ys))"
proof
  assume "close_scan op cl 1 L = Some p"
  then show "\<exists>ys zs. L = ys @ (p, cl) # zs \<and> balanced op cl (map snd ys)"
    using close_scan_Some [OF assms, of 0 L p] by auto
next
  assume "\<exists>ys zs. L = ys @ (p, cl) # zs \<and> balanced op cl (map snd ys)"
  then show "close_scan op cl 1 L = Some p" using assms close_scan_balanced [OF _ assms refl, of _ 1] by auto
qed

text \<open>The code characters after an opening bracket at a position.\<close>

definition code_after :: "string \<Rightarrow> nat \<Rightarrow> nat \<Rightarrow> (nat \<times> char) list" where
  "code_after b bl p = code_chars False Code (drop (p + 1) (take bl b)) (p + 1)"

text \<open>C18: The three bracket matchers are correct: from an opening bracket, the closing bracket found
  is the one that ends the balanced code text in between, where comments, string literals and
  the brackets of the other kinds do not count; and if such a bracket exists, it is
  found.\<close>
theorem matching_bracket_correct:
  assumes "p < bl"
  shows "(b ! p = CHR ''('' \<longrightarrow> (cc_find_matching_paren b bl p = Some q \<longleftrightarrow>
      (\<exists>ys zs. code_after b bl p = ys @ (q, CHR '')'') # zs \<and> balanced (CHR ''('') (CHR '')'') (map snd ys)))) \<and>
    (b ! p = CHR ''{'' \<longrightarrow> (cc_find_matching_brace b bl p = Some q \<longleftrightarrow>
      (\<exists>ys zs. code_after b bl p = ys @ (q, CHR ''}'') # zs \<and> balanced (CHR ''{'') (CHR ''}'') (map snd ys)))) \<and>
    (b ! p = CHR ''['' \<longrightarrow> (cc_find_matching_bracket b bl p = Some q \<longleftrightarrow>
      (\<exists>ys zs. code_after b bl p = ys @ (q, CHR '']'') # zs \<and> balanced (CHR ''['') (CHR '']'') (map snd ys))))"
proof -
  have D: "par (depth_step d x) = (if x = CHR ''('' then Suc (par d) else if x = CHR '')'' then par d - 1 else par d)"
    "brk (depth_step d x) = (if x = CHR ''['' then Suc (brk d) else if x = CHR '']'' then brk d - 1 else brk d)"
    "br (depth_step d x) = (if x = CHR ''{'' then Suc (br d) else if x = CHR ''}'' then br d - 1 else br d)" for d x
    by (auto simp: depth_step_def)
  have "cc_find_matching_paren b bl p = close_scan (CHR ''('') (CHR '')'') 1 (code_after b bl p)" if "b ! p = CHR ''(''"
    using assms that match_loop_scan [of par "CHR ''(''" "CHR '')''", OF D(1)]
    by (simp add: cc_find_matching_paren_def code_after_def zero_depth_def)
  moreover have "cc_find_matching_brace b bl p = close_scan (CHR ''{'') (CHR ''}'') 1 (code_after b bl p)" if "b ! p = CHR ''{''"
    using assms that match_loop_scan [of br "CHR ''{''" "CHR ''}''", OF D(3)]
    by (simp add: cc_find_matching_brace_def code_after_def zero_depth_def)
  moreover have "cc_find_matching_bracket b bl p = close_scan (CHR ''['') (CHR '']'') 1 (code_after b bl p)" if "b ! p = CHR ''[''"
    using assms that match_loop_scan [of brk "CHR ''[''" "CHR '']''", OF D(2)]
    by (simp add: cc_find_matching_bracket_def code_after_def zero_depth_def)
  ultimately show ?thesis
    using close_scan_iff [of "CHR ''(''" "CHR '')''"] close_scan_iff [of "CHR ''{''" "CHR ''}''"]
      close_scan_iff [of "CHR ''[''" "CHR '']''"] by simp
qed

theorem matching_bracket_correct_witness:
  "\<exists>ys zs. code_after ''(a/*)*/[(b])c)'' 14 0 = ys @ (13, CHR '')'') # zs \<and> balanced (CHR ''('') (CHR '')'') (map snd ys)"
proof -
  have "cc_find_matching_paren ''(a/*)*/[(b])c)'' 14 0 = Some 13" "''(a/*)*/[(b])c)'' ! 0 = CHR ''(''"
    by code_simp+
  then show ?thesis using matching_bracket_correct [of 0 14 "''(a/*)*/[(b])c)''" 13] by simp
qed

section \<open>Searching\<close>

text \<open>All searches run over the code characters.\<close>

lemma code_not_skip: "lex_step nl m c c2 = (m', skip, True) \<Longrightarrow> \<not> skip"
  by (cases m) (auto split: if_splits)

lemma skip_peek: "lex_step nl m c (peek cs) = (m', skip, code) \<Longrightarrow> skip \<Longrightarrow> \<exists>y ys. cs = y # ys"
  by (cases m; cases cs) (auto simp: peek_def split: if_splits)

lemma code_chars_range:
  "(q, x) \<in> set (code_chars nl m cs p) \<Longrightarrow> p \<le> q \<and> q < p + length cs \<and> cs ! (q - p) = x"
proof (induction cs arbitrary: m p rule: length_induct)
  case (1 cs)
  show ?case
  proof (cases cs)
    case (Cons c rest)
    obtain m' skip code where st: "lex_step nl m c (peek rest) = (m', skip, code)" by (metis prod_cases3)
    have IH: "p' \<le> q \<and> q < p' + length ys \<and> ys ! (q - p') = x"
      if "(q, x) \<in> set (code_chars nl m' ys p')" "length ys < length cs" for ys p'
      using 1(1) that by blast
    consider "q = p" "x = c" | "\<not> skip" "(q, x) \<in> set (code_chars nl m' rest (p + 1))"
      | "skip" "(q, x) \<in> set (code_chars nl m' (tl rest) (p + 2))"
      using 1(2) st Cons by (auto split: if_splits)
    then show ?thesis
    proof cases
      case 1
      then show ?thesis by (simp add: Cons)
    next
      case 2
      have "Suc (q - (p + 1)) = q - p" using IH [OF 2(2)] Cons by auto
      then show ?thesis using IH [OF 2(2)] by (auto simp: Cons simp flip: nth_Cons_Suc)
    next
      case 3
      then obtain y ys where r: "rest = y # ys" using skip_peek [OF st] by blast
      have "Suc (Suc (q - (p + 2))) = q - p" using IH [OF 3(2)] by (auto simp: Cons r)
      moreover have "(c # y # ys) ! Suc (Suc (q - (p + 2))) = x" using IH [OF 3(2)] by (simp add: Cons r)
      ultimately show ?thesis using IH [OF 3(2)] by (auto simp: Cons r)
    qed
  qed (use 1(2) in simp)
qed

definition first_hit :: "(nat \<times> char \<Rightarrow> bool) \<Rightarrow> (nat \<times> char) list \<Rightarrow> nat option" where
  "first_hit P L = (case filter P L of [] \<Rightarrow> None | (q, _) # _ \<Rightarrow> Some q)"

lemma first_hit_simps [simp]:
  "first_hit P [] = None" "first_hit P (x # L) = (if P x then Some (fst x) else first_hit P L)"
  by (auto simp: first_hit_def split: prod.split)

lemma first_hit_None: "(\<And>x. x \<in> set L \<Longrightarrow> \<not> P x) \<Longrightarrow> first_hit P L = None"
  by (induction L) auto

lemma first_hit_Some: "first_hit P L = Some q \<Longrightarrow> \<exists>x. (q, x) \<in> set L \<and> P (q, x)"
  by (induction L) (force split: if_splits)+

lemma sub_loop_code:
  assumes "0 < n"
  shows "sub_loop n test m cs p = first_hit (\<lambda>(q, _). q + n \<le> p + length cs \<and> test q) (code_chars False m cs p)"
proof (induction cs arbitrary: m p rule: length_induct)
  case (1 cs)
  show ?case
  proof (cases cs)
    case (Cons c rest)
    obtain m' skip code where st: "lex_step False m c (peek rest) = (m', skip, code)" by (metis prod_cases3)
    show ?thesis
    proof (cases "length cs < n")
      case True
      have "\<not> (case x of (q, _) \<Rightarrow> q + n \<le> p + length cs \<and> test q)" if "x \<in> set (code_chars False m cs p)" for x
        using code_chars_range [of "fst x" "snd x" False m cs p] that True by (cases x) auto
      then have "first_hit (\<lambda>(q, _). q + n \<le> p + length cs \<and> test q) (code_chars False m cs p) = None"
        by (intro first_hit_None) blast
      then show ?thesis using True Cons by simp
    next
      case False
      have step: "sub_loop n test m' rest (p + 1) =
          first_hit (\<lambda>(q, _). q + n \<le> p + length cs \<and> test q) (code_chars False m' rest (p + 1))"
        using 1 by (simp add: Cons)
      have step2: "sub_loop n test m' (tl rest) (p + 2) =
          first_hit (\<lambda>(q, _). q + n \<le> p + length cs \<and> test q) (code_chars False m' (tl rest) (p + 2))" if sk: skip
      proof -
        obtain y ys where "rest = y # ys" using skip_peek [OF st sk] by blast
        then show ?thesis using 1 by (simp add: Cons)
      qed
      show ?thesis
        using Cons False st step step2 code_not_skip [of False m c "peek rest" m'] by (cases code) auto
    qed
  qed simp
qed

fun top_scan :: "char \<Rightarrow> depth \<Rightarrow> (nat \<times> char) list \<Rightarrow> nat option" where
  "top_scan ch d [] = None"
| "top_scan ch d ((p, x) # r) = (if d = zero_depth \<and> x = ch then Some p else top_scan ch (depth_step d x) r)"

lemma top_loop_code: "top_loop ch m d cs p = top_scan ch d (code_chars True m cs p)"
proof (induction cs arbitrary: m d p rule: length_induct)
  case (1 cs)
  show ?case
  proof (cases cs)
    case (Cons c rest)
    obtain m' skip code where st: "lex_step True m c (peek rest) = (m', skip, code)" by (metis prod_cases3)
    have "top_loop ch m' d' rest q = top_scan ch d' (code_chars True m' rest q)"
      "top_loop ch m' d' (tl rest) q = top_scan ch d' (code_chars True m' (tl rest) q)" for d' q
      using 1 by (simp_all add: Cons)
    then show ?thesis using Cons st code_not_skip [of True m c "peek rest" m'] by (cases code) auto
  qed simp
qed




subsection \<open>Top-level characters\<close>

text \<open>Properly nested text, and text a top-level search for a character passes over: other characters
  and whole groups.\<close>

definition bracket_pair :: "char \<Rightarrow> char \<Rightarrow> bool" where
  "bracket_pair op cl = ((op, cl) \<in> {(CHR ''('', CHR '')''), (CHR ''['', CHR '']''), (CHR ''{'', CHR ''}'')})"

definition is_bracket :: "char \<Rightarrow> bool" where
  "is_bracket c = (c \<in> set ''()[]{}'')"

inductive nested :: "string \<Rightarrow> bool" where
  nested_Nil: "nested []"
| nested_other: "\<not> is_bracket x \<Longrightarrow> nested s \<Longrightarrow> nested (x # s)"
| nested_group: "bracket_pair op cl \<Longrightarrow> nested s \<Longrightarrow> nested t \<Longrightarrow> nested (op # s @ cl # t)"

inductive passes :: "char \<Rightarrow> string \<Rightarrow> bool" for ch where
  passes_Nil: "passes ch []"
| passes_other: "\<not> is_bracket x \<Longrightarrow> x \<noteq> ch \<Longrightarrow> passes ch s \<Longrightarrow> passes ch (x # s)"
| passes_group: "bracket_pair op cl \<Longrightarrow> op \<noteq> ch \<Longrightarrow> nested s \<Longrightarrow> passes ch t \<Longrightarrow> passes ch (op # s @ cl # t)"

lemma depth_step_other: "\<not> is_bracket x \<Longrightarrow> depth_step d x = d"
  by (auto simp: is_bracket_def depth_step_def)

lemma depth_step_pair:
  assumes "bracket_pair op cl"
  shows "depth_step (depth_step d op) cl = d" "depth_step d op \<noteq> zero_depth"
proof -
  consider "op = CHR ''(''" "cl = CHR '')''" | "op = CHR ''[''" "cl = CHR '']''" | "op = CHR ''{''" "cl = CHR ''}''"
    using assms unfolding bracket_pair_def by blast
  moreover obtain a b c where d: "d = \<lparr>par = a, brk = b, br = c\<rparr>" by (cases d) simp
  ultimately show "depth_step (depth_step d op) cl = d" "depth_step d op \<noteq> zero_depth"
    by (cases; simp add: depth_step_def zero_depth_def d)+
qed

lemma top_scan_nested:
  assumes "nested s"
  shows "map snd ys = s \<Longrightarrow> d \<noteq> zero_depth \<Longrightarrow> top_scan ch d (ys @ zs) = top_scan ch d zs"
  using assms
proof (induction arbitrary: ys d zs)
  case (nested_other x s)
  then show ?case by (cases ys) (auto simp: depth_step_other)
next
  case (nested_group op cl s t)
  from nested_group.prems(1) obtain p as q bs where ys: "ys = (p, op) # as @ (q, cl) # bs" "map snd as = s" "map snd bs = t"
    by (auto simp: map_eq_Cons_conv map_eq_append_conv)
  show ?case
    using nested_group.IH(1) [OF ys(2), of "depth_step d op"] nested_group.IH(2) [OF ys(3) nested_group.prems(2)]
      depth_step_pair [OF nested_group.hyps(1)] nested_group.prems(2)
    by (simp add: ys(1))
qed simp

lemma top_scan_passes:
  assumes "passes ch s"
  shows "map snd ys = s \<Longrightarrow> top_scan ch zero_depth (ys @ zs) = top_scan ch zero_depth zs"
  using assms
proof (induction arbitrary: ys zs)
  case (passes_other x s)
  then show ?case by (cases ys) (auto simp: depth_step_other)
next
  case (passes_group op cl s t)
  from passes_group.prems(1) obtain p as q bs where ys: "ys = (p, op) # as @ (q, cl) # bs" "map snd as = s" "map snd bs = t"
    by (auto simp: map_eq_Cons_conv map_eq_append_conv)
  show ?case
    using top_scan_nested [OF passes_group.hyps(3) ys(2), of "depth_step zero_depth op"] passes_group.IH [OF ys(3)]
      depth_step_pair [OF passes_group.hyps(1)] passes_group.hyps(2)
    by (simp add: ys(1))
qed simp

text \<open>The top-level character search stops at the character after any code that it may pass over,
  that is, other characters and whole bracket groups, whatever they contain; comments and literals do
  not count.  It returns the end of the range when all of it is passed over.\<close>
theorem top_level_char_found:
  assumes "start < end" "code_chars True Code (slice src start end) start = ys @ zs" "passes ch (map snd ys)"
  shows "(zs = [] \<longrightarrow> cc_find_char_top_level src start end ch = end) \<and>
    (\<forall>p r. zs = (p, ch) # r \<longrightarrow> cc_find_char_top_level src start end ch = p)"
  using assms(1) top_loop_code [of ch Code zero_depth "slice src start end" start]
    top_scan_passes [OF assms(3) refl, of zs] assms(2)
  by (auto simp: cc_find_char_top_level_def found_or_def)

theorem top_level_char_found_witness:
  "cc_find_char_top_level ''f(a,b)/*,*/,c'' 0 13 (CHR '','') = 11"
proof -
  have code: "code_chars True Code (slice ''f(a,b)/*,*/,c'' 0 13) 0 =
      [(0, CHR ''f''), (1, CHR ''(''), (2, CHR ''a''), (3, CHR '',''), (4, CHR ''b''), (5, CHR '')'')] @
      (11, CHR '','') # [(12, CHR ''c'')]"
    by code_simp
  have "nested ''a,b''" by (intro nested.intros) (simp_all add: is_bracket_def)
  then have "passes (CHR '','') (CHR ''f'' # CHR ''('' # ''a,b'' @ CHR '')'' # [])"
    by (intro passes.intros) (simp_all add: is_bracket_def bracket_pair_def)
  then show ?thesis using top_level_char_found [OF _ code, of "CHR '',''"] by simp
qed

subsection \<open>The mask of the backward search\<close>

lemma lex_mask_length [simp]: "length (lex_mask m cs) = length cs"
proof (induction cs arbitrary: m rule: length_induct)
  case (1 cs)
  show ?case
  proof (cases cs)
    case (Cons c rest)
    obtain m' skip code where st: "lex_step True m c (peek rest) = (m', skip, code)" by (metis prod_cases3)
    have "length (lex_mask m' rest) = length rest" "length (lex_mask m' (tl rest)) = length (tl rest)"
      using 1 by (simp_all add: Cons)
    then show ?thesis using st by (cases rest) (auto simp: Cons)
  qed simp
qed

lemma lex_mask_code:
  "i < length cs \<Longrightarrow> lex_mask m cs ! i \<longleftrightarrow> (i + p, cs ! i) \<notin> set (code_chars True m cs p)"
proof (induction cs arbitrary: m i p rule: length_induct)
  case (1 cs)
  show ?case
  proof (cases cs)
    case (Cons c rest)
    obtain m' skip code where st: "lex_step True m c (peek rest) = (m', skip, code)" by (metis prod_cases3)
    have IH: "lex_mask m' ys ! j \<longleftrightarrow> (j + q, ys ! j) \<notin> set (code_chars True m' ys q)"
      if "j < length ys" "length ys < length cs" for ys j q using 1(1) that by blast
    have low: "(q, x) \<notin> set (code_chars True m' ys p')" if "q < p'" for q x ys p'
      using that by (auto dest: code_chars_range)
    show ?thesis
    proof (cases skip)
      case True
      obtain y ys where r: "rest = y # ys" using skip_peek [OF st True] by blast
      have "\<not> code" using code_not_skip [of True m c "peek rest" m' skip] st True by (cases code) auto
      then have mk: "lex_mask m cs = True # True # lex_mask m' ys"
        and cc: "code_chars True m cs p = code_chars True m' ys (p + 2)"
        using st True by (simp_all add: Cons r)
      consider "i < 2" | j where "i = Suc (Suc j)" "j < length ys"
        using 1(2) by (cases i; cases "i - 1") (auto simp: Cons r)
      then show ?thesis
      proof cases
        case 1
        then have "lex_mask m cs ! i" by (auto simp: mk less_2_cases_iff)
        then show ?thesis using 1 low by (simp add: cc)
      next
        case 2
        then have "cs ! i = ys ! j" by (simp add: Cons r)
        then show ?thesis using IH [of j ys "p + 2"] 2 Cons r unfolding mk cc by simp
      qed
    next
      case False
      have mk: "lex_mask m cs = (\<not> code) # lex_mask m' rest"
        and cc: "code_chars True m cs p = (if code then [(p, c)] else []) @ code_chars True m' rest (p + 1)"
        using st False by (simp_all add: Cons)
      show ?thesis
      proof (cases i)
        case 0
        moreover have "cs ! 0 = c" by (simp add: Cons)
        ultimately show ?thesis using low [of p "p + 1"] unfolding mk cc by auto
      next
        case (Suc j)
        then have "cs ! i = rest ! j" "j < length rest" "length rest < length cs" using 1(2) by (simp_all add: Cons)
        then show ?thesis using IH [of j rest "p + 1"] Suc unfolding mk cc by simp
      qed
    qed
  qed (use 1(2) in simp)
qed

lemma rfind_step_hit: "rfind_step delims d c = None \<Longrightarrow> c = CHR ''('' \<or> c \<in> set delims"
  by (simp add: rfind_step_def split: if_splits)

lemma rfind_loop_hit:
  "rfind_loop delims d L = Some h \<Longrightarrow> 0 < h \<and> h \<le> length L \<and>
    (\<exists>c. L ! (length L - h) = (c, False) \<and> (c = CHR ''('' \<or> c \<in> set delims))"
proof (induction L arbitrary: d)
  case (Cons x rest)
  obtain c masked where x: "x = (c, masked)" by fastforce
  show ?case
  proof (cases "\<not> masked \<and> rfind_step delims d c = None")
    case True
    then have "h = length rest + 1" using Cons.prems by (simp add: x)
    then show ?thesis using True rfind_step_hit [of delims d c] by (simp add: x)
  next
    case False
    then obtain d' where "rfind_loop delims d' rest = Some h"
      using Cons.prems by (cases "rfind_step delims d c") (auto simp: x split: if_splits)
    from Cons.IH [OF this] show ?thesis by (auto simp: Suc_diff_le)
  qed
qed simp

lemma skip_blanks_bounds: "p \<le> end \<Longrightarrow> end \<le> length src \<Longrightarrow> p \<le> skip_blanks src end p \<and> skip_blanks src end p \<le> end"
proof -
  assume "p \<le> end" "end \<le> length src"
  then have "length (slice src p end) = end - p" by (simp add: slice_def)
  then show ?thesis using length_takeWhile_le [of is_blank "slice src p end"] \<open>p \<le> end\<close>
    unfolding skip_blanks_def by linarith
qed



section \<open>Skipping\<close>

lemma skip_block_variants:
  "skip_block cs = skip_block_ptr cs \<or> skip_block_ptr cs = [] \<and> length (skip_block cs) \<le> 1"
  by (induction cs rule: skip_block.induct) (auto simp: peek_def)

lemma skip_blank_Cons:
  "skip_blank (c # rest) =
    (if is_ws c then skip_blank rest
     else if c = CHR ''/'' \<and> peek rest = Some (CHR ''/'') then skip_blank (dropWhile (\<lambda>x. x \<noteq> newline) (tl rest))
     else if c = CHR ''/'' \<and> peek rest = Some (CHR ''*'') then skip_blank (skip_block (tl rest))
     else c # rest)"
  by (simp add: skip_blank.simps [of "c # rest"])

lemma skip_ptr_Cons:
  "cc_skip_ws_and_comments_ptr (c # rest) =
    (if is_ws c then cc_skip_ws_and_comments_ptr rest
     else if c = CHR ''/'' \<and> peek rest = Some (CHR ''/'')
     then cc_skip_ws_and_comments_ptr (dropWhile (\<lambda>x. x \<noteq> newline) (tl rest))
     else if c = CHR ''/'' \<and> peek rest = Some (CHR ''*'') then cc_skip_ws_and_comments_ptr (skip_block_ptr (tl rest))
     else c # rest)"
  by (simp add: cc_skip_ws_and_comments_ptr.simps [of "c # rest"])

lemma skip_Nil [simp]: "skip_blank [] = []" "cc_skip_ws_and_comments_ptr [] = []"
  by (simp_all add: skip_blank.simps cc_skip_ws_and_comments_ptr.simps)

lemma skip_shorter:
  "length (dropWhile (\<lambda>x. x \<noteq> newline) (tl rest)) \<le> length rest" "length (skip_block (tl rest)) \<le> length rest"
  using dropWhile_length [of "\<lambda>x. x \<noteq> newline" "tl rest"] skip_block_length [of "tl rest"] by auto

lemma skip_blank_length: "length (skip_blank cs) \<le> length cs"
proof (induction cs rule: length_induct)
  case (1 cs)
  show ?case
  proof (cases cs)
    case (Cons c rest)
    have IH: "length (skip_blank ys) \<le> Suc (length rest)" if "length ys \<le> length rest" for ys
    proof -
      have "length (skip_blank ys) \<le> length ys" using 1 that by (simp add: Cons)
      then show ?thesis using that by linarith
    qed
    show ?thesis
      unfolding Cons skip_blank_Cons using IH [OF le_refl] IH [OF skip_shorter(1)] IH [OF skip_shorter(2)] by simp
  qed simp
qed

text \<open>The two implementations of skipping white space and comments agree, except that after an
  unclosed block comment the one on a range may stop before the last character
  while the one on a terminated string stops at the end.\<close>
theorem skip_variants_agree:
  "skip_blank cs = cc_skip_ws_and_comments_ptr cs \<or>
    cc_skip_ws_and_comments_ptr cs = [] \<and> length (skip_blank cs) = 1"
proof (induction cs rule: length_induct)
  case (1 cs)
  show ?case
  proof (cases cs)
    case (Cons c rest)
    have IH: "skip_blank ys = cc_skip_ws_and_comments_ptr ys \<or> cc_skip_ws_and_comments_ptr ys = [] \<and> length (skip_blank ys) = 1"
      if "length ys \<le> length rest" for ys using 1 that by (simp add: Cons)
    have block: "skip_blank (skip_block (tl rest)) = cc_skip_ws_and_comments_ptr (skip_block_ptr (tl rest)) \<or>
        cc_skip_ws_and_comments_ptr (skip_block_ptr (tl rest)) = [] \<and> length (skip_blank (skip_block (tl rest))) = 1"
    proof (cases "skip_block (tl rest) = skip_block_ptr (tl rest)")
      case True
      then show ?thesis using IH [OF skip_shorter(2)] by simp
    next
      case False
      then have "skip_block_ptr (tl rest) = []" "length (skip_block (tl rest)) \<le> 1"
        using skip_block_variants [of "tl rest"] by auto
      moreover from this(2) have "length (skip_blank (skip_block (tl rest))) \<le> 1"
        using skip_blank_length [of "skip_block (tl rest)"] by linarith
      ultimately show ?thesis by (cases "skip_blank (skip_block (tl rest))") auto
    qed
    show ?thesis
      unfolding Cons skip_blank_Cons skip_ptr_Cons using IH [OF le_refl] IH [OF skip_shorter(1)] block by simp
  qed simp
qed

text \<open>White space and comments; a comment at the end may be unclosed.\<close>

definition no_close :: "string \<Rightarrow> bool" where
  "no_close t = (\<nexists>a b. t = a @ ''*/'' @ b)"

inductive blank :: "string \<Rightarrow> bool" where
  blank_Nil: "blank []"
| blank_ws: "is_ws c \<Longrightarrow> blank s \<Longrightarrow> blank (c # s)"
| blank_line: "newline \<notin> set t \<Longrightarrow> blank s \<Longrightarrow> s = [] \<or> hd s = newline \<Longrightarrow> blank (''//'' @ t @ s)"
| blank_block: "no_close (t @ ''*'') \<Longrightarrow> blank s \<Longrightarrow> blank (''/*'' @ t @ ''*/'' @ s)"
| blank_open: "no_close t \<Longrightarrow> blank (''/*'' @ t)"

definition blank_start :: "string \<Rightarrow> bool" where
  "blank_start cs = (\<exists>c r. cs = c # r \<and> (is_ws c \<or> c = CHR ''/'' \<and> peek r \<in> {Some (CHR ''/''), Some (CHR ''*'')}))"

lemma no_close_Nil [simp]: "no_close []"
  by (simp add: no_close_def)

lemma no_close_Cons: "no_close (c # t) \<longleftrightarrow> no_close t \<and> \<not> (c = CHR ''*'' \<and> peek t = Some (CHR ''/''))"
proof -
  have "(\<exists>a b. c # t = a @ ''*/'' @ b) \<longleftrightarrow> (\<exists>b. c # t = ''*/'' @ b) \<or> (\<exists>a b. t = a @ ''*/'' @ b)"
    by (auto simp: Cons_eq_append_conv)
  then show ?thesis by (cases t) (auto simp: no_close_def peek_def)
qed

lemma skip_block_split:
  "\<exists>t u. skip_block cs = u \<and> (cs = t @ ''*/'' @ u \<and> no_close (t @ ''*'') \<or> cs = t @ u \<and> no_close t \<and> length u \<le> 1)"
proof (induction cs rule: skip_block.induct)
  case (1 c c2 cs)
  show ?case
  proof (cases "c = CHR ''*'' \<and> c2 = CHR ''/''")
    case True
    have "no_close ([] @ ''*'')" by (simp add: no_close_Cons peek_def)
    then show ?thesis using True by (intro exI [of _ "[]"] exI [of _ cs]) simp
  next
    case False
    then have sk: "skip_block (c # c2 # cs) = skip_block (c2 # cs)" by auto
    from 1 [OF False] obtain t u where u: "skip_block (c2 # cs) = u"
      and tu: "c2 # cs = t @ ''*/'' @ u \<and> no_close (t @ ''*'') \<or> c2 # cs = t @ u \<and> no_close t \<and> length u \<le> 1" by blast
    from tu show ?thesis
    proof (elim disjE conjE)
      assume t: "c2 # cs = t @ ''*/'' @ u" "no_close (t @ ''*'')"
      have "peek (t @ ''*'') = Some c2" using t(1) by (cases t) (auto simp: peek_def)
      then have "no_close ((c # t) @ ''*'')" using t(2) False by (auto simp: no_close_Cons)
      then show ?thesis using t(1) sk u by (intro exI [of _ "c # t"] exI [of _ u]) simp
    next
      assume t: "c2 # cs = t @ u" "no_close t" "length u \<le> 1"
      have "peek t = None \<or> peek t = Some c2" using t(1) by (cases t) (auto simp: peek_def)
      then have "no_close (c # t)" using t(2) False by (auto simp: no_close_Cons)
      then show ?thesis using t sk u by (intro exI [of _ "c # t"] exI [of _ u]) simp
    qed
  qed
qed auto

lemma no_close_snoc: "no_close t \<Longrightarrow> x \<noteq> CHR ''/'' \<Longrightarrow> no_close (t @ [x])"
  by (induction t) (auto simp: no_close_Cons peek_def split: list.splits)

definition skipped :: "string \<Rightarrow> string \<Rightarrow> bool" where
  "skipped cs u = (\<exists>pre. cs = pre @ u \<and> blank pre)"

lemma skipped_ws: "is_ws c \<Longrightarrow> skipped rest u \<Longrightarrow> skipped (c # rest) u"
  unfolding skipped_def using blank_ws by (metis append_Cons)

lemma skipped_line:
  assumes "skipped (dropWhile (\<lambda>x. x \<noteq> newline) r) u"
  shows "skipped (''//'' @ r) u"
proof -
  let ?t = "takeWhile (\<lambda>x. x \<noteq> newline) r"
  obtain pre where pre: "dropWhile (\<lambda>x. x \<noteq> newline) r = pre @ u" "blank pre" using assms by (auto simp: skipped_def)
  have "newline \<notin> set ?t" by (auto dest: set_takeWhileD)
  moreover have "pre = [] \<or> hd pre = newline"
    using pre(1) by (cases pre) (auto simp: dropWhile_eq_Cons_conv)
  ultimately have "blank (''//'' @ ?t @ pre)" using pre(2) by (intro blank_line)
  moreover have "r = ?t @ pre @ u" by (metis pre(1) takeWhile_dropWhile_id)
  then have "''//'' @ r = (''//'' @ ?t @ pre) @ u" by simp
  ultimately show ?thesis unfolding skipped_def by blast
qed

lemma skipped_block:
  assumes "skipped (skip_block r) u"
  shows "skipped (''/*'' @ r) u"
proof -
  obtain pre where pre: "skip_block r = pre @ u" "blank pre" using assms by (auto simp: skipped_def)
  obtain t where t: "r = t @ ''*/'' @ pre @ u \<and> no_close (t @ ''*'') \<or> r = t @ pre @ u \<and> no_close t \<and> length (pre @ u) \<le> 1"
    using skip_block_split [of r] unfolding pre(1) by blast
  then show ?thesis
  proof (elim disjE conjE)
    assume a: "r = t @ ''*/'' @ pre @ u" "no_close (t @ ''*'')"
    have "''/*'' @ r = (''/*'' @ t @ ''*/'' @ pre) @ u" by (simp add: a(1))
    then show ?thesis using blank_block [OF a(2) pre(2)] unfolding skipped_def by blast
  next
    assume a: "r = t @ pre @ u" "no_close t" "length (pre @ u) \<le> 1"
    show ?thesis
    proof (cases pre)
      case Nil
      then have "''/*'' @ r = (''/*'' @ t) @ u" by (simp add: a(1))
      then show ?thesis using blank_open [OF a(2)] unfolding skipped_def by blast
    next
      case (Cons x xs)
      then have x: "pre = [x]" "u = []" using a(3) by auto
      have "is_ws x" using pre(2) unfolding x(1) by (auto elim: blank.cases)
      then have "no_close (t @ [x])" by (intro no_close_snoc a(2)) (auto simp: is_ws_def newline_def)
      moreover have "''/*'' @ r = (''/*'' @ t @ [x]) @ u" by (simp add: a(1) x)
      ultimately show ?thesis using blank_open [of "t @ [x]"] unfolding skipped_def by blast
    qed
  qed
qed

lemma skip_blank_skipped: "skipped cs (skip_blank cs) \<and> \<not> blank_start (skip_blank cs)"
proof (induction cs rule: length_induct)
  case (1 cs)
  show ?case
  proof (cases cs)
    case (Cons c rest)
    have IH: "skipped ys (skip_blank ys) \<and> \<not> blank_start (skip_blank ys)" if "length ys \<le> length rest" for ys
      using 1 that by (simp add: Cons)
    consider (ws) "is_ws c" | (line) r where "\<not> is_ws c" "c = CHR ''/''" "rest = CHR ''/'' # r"
      | (block) r where "\<not> is_ws c" "c = CHR ''/''" "rest = CHR ''*'' # r" | (code) "\<not> blank_start cs"
      unfolding Cons blank_start_def peek_def by (cases rest) auto
    then show ?thesis
    proof cases
      case ws
      then show ?thesis using IH [OF le_refl] skipped_ws by (simp add: Cons skip_blank_Cons)
    next
      case line
      have "skip_blank cs = skip_blank (dropWhile (\<lambda>x. x \<noteq> newline) r)" "cs = ''//'' @ r"
        using line by (simp_all add: Cons skip_blank_Cons peek_def)
      then show ?thesis using IH [OF skip_shorter(1)] skipped_line [of r] line by simp
    next
      case block
      have "skip_blank cs = skip_blank (skip_block r)" "cs = ''/*'' @ r"
        using block by (simp_all add: Cons skip_blank_Cons peek_def)
      then show ?thesis using IH [OF skip_shorter(2)] skipped_block [of r] block by simp
    next
      case code
      then have "skip_blank cs = cs"
        unfolding Cons skip_blank_Cons blank_start_def by auto
      then show ?thesis using code blank_Nil unfolding skipped_def by auto
    qed
  qed (simp add: skipped_def blank_Nil blank_start_def)
qed

text \<open>Skipping white space and comments skips exactly that: the text between the old and the new
  position consists of white space and comments, and at the new position, unless it
  is the end, neither white space nor a comment starts.\<close>
theorem skip_exact:
  assumes "len \<le> length src" "i \<le> len"
  shows "let r = cc_skip_ws_and_comments src len i in
    i \<le> r \<and> r \<le> len \<and> blank (slice src i r) \<and> \<not> blank_start (slice src r len)"
proof (cases "i = len")
  case True
  then show ?thesis using blank_Nil by (simp add: cc_skip_ws_and_comments_def slice_def blank_start_def)
next
  case False
  let ?cs = "slice src i len" and ?r = "cc_skip_ws_and_comments src len i"
  obtain pre where pre: "?cs = pre @ skip_blank ?cs" "blank pre"
    using skip_blank_skipped [of ?cs] by (auto simp: skipped_def)
  have n: "length ?cs = len - i" using assms by (simp add: slice_def)
  have L: "length pre + length (skip_blank ?cs) = len - i" using pre(1) n by (metis length_append)
  have r: "?r = i + length pre"
    using False assms L by (simp add: cc_skip_ws_and_comments_def slice_def [symmetric])
  have "slice src i ?r = take (length pre) ?cs" using L assms by (simp add: r slice_def take_drop add.commute)
  also have "\<dots> = pre" by (subst pre(1)) simp
  finally have a: "slice src i ?r = pre" .
  have "slice src ?r len = drop (length pre) ?cs" by (simp add: r slice_def add.commute)
  also have "\<dots> = skip_blank ?cs" by (subst pre(1)) simp
  finally have b: "slice src ?r len = skip_blank ?cs" .
  show ?thesis using r L assms pre(2) a b skip_blank_skipped [of ?cs] by (simp add: Let_def)
qed

theorem skip_exact_witness:
  "blank (slice ''  /* a */ // b'' 0 14)"
proof -
  have "cc_skip_ws_and_comments ''  /* a */ // b'' 14 0 = 14" by code_simp
  then show ?thesis using skip_exact [of 14 "''  /* a */ // b''" 0] by (simp add: Let_def)
qed

section \<open>String literals\<close>

definition printable :: "char \<Rightarrow> bool" where
  "printable c = (0x20 \<le> (of_char c :: nat) \<and> c \<noteq> CHR 0x7F)"

text \<open>The inside of a string literal: printable characters, with the quote and the backslash
  escaped.\<close>

definition lit_plain :: "char \<Rightarrow> bool" where
  "lit_plain c = (c \<noteq> backslash \<and> c \<noteq> dquote \<and> printable c)"

fun lit_body :: "string \<Rightarrow> bool" where
  "lit_body [] = True"
| "lit_body [c] = lit_plain c"
| "lit_body (c # d # r) =
    (if c = backslash then (d = backslash \<or> d = dquote) \<and> lit_body r else lit_plain c \<and> lit_body (d # r))"

lemma lit_plain_not [simp]: "\<not> lit_plain backslash" "\<not> lit_plain dquote"
  by (simp_all add: lit_plain_def)

lemma lit_body_Cons: "c \<noteq> backslash \<Longrightarrow> lit_body (c # b) = (lit_plain c \<and> lit_body b)"
  by (cases b) simp_all

lemma lit_body_append: "lit_body a \<Longrightarrow> lit_body (a @ b) = lit_body b"
proof (induction a rule: lit_body.induct)
  case (2 c)
  then have "c \<noteq> backslash" by auto
  then show ?case using 2 by (simp add: lit_body_Cons)
next
  case (3 c d r)
  then show ?case by (cases "c = backslash") auto
qed simp

lemma lit_body_space: "lit_body (a @ [CHR '' '']) \<Longrightarrow> lit_body a"
proof (induction a rule: lit_body.induct)
  case (2 c)
  then show ?case by (auto simp: char_defs split: if_splits)
next
  case (3 c d r)
  then show ?case by (cases "c = backslash") auto
qed simp

lemma lit_body_trim: "lit_body (rev w) \<Longrightarrow> lit_body (rev (dropWhile (\<lambda>c. c = CHR '' '') w))"
  by (induction w) (auto dest: lit_body_space)

lemma lit_body_snoc:
  "lit_body a \<Longrightarrow> lit_plain c \<Longrightarrow> lit_body (a @ [c])"
  "lit_body a \<Longrightarrow> c = backslash \<or> c = dquote \<Longrightarrow> lit_body (a @ [backslash, c])"
  by (simp_all add: lit_body_append)

text \<open>The length never exceeds the limit for visible characters by more than an escape and a
  space, so that the size of the temporary buffer does not matter.\<close>

definition lit_len :: "string \<Rightarrow> bool \<Rightarrow> bool" where
  "lit_len w prev = (length w \<le> 161 \<or> length w = 162 \<and> hd w = CHR '' '' \<and> prev)"

lemma lit_loop_inv:
  "lit_body (rev w) \<Longrightarrow> lit_len w prev \<Longrightarrow> lit_loop w prev cs = (w', tr) \<Longrightarrow>
    lit_body (rev w') \<and> (\<exists>p. lit_len w' p)"
proof (induction cs arbitrary: w prev)
  case (Cons c cs)
  have sp: "lit_body (rev (CHR '' '' # w))"
    using lit_body_snoc(1) [OF Cons.prems(1), of "CHR '' ''"] by (simp add: lit_plain_def char_defs printable_def)
  have len: "length w \<le> 162" using Cons.prems(2) by (auto simp: lit_len_def)
  show ?case
  proof (cases "lit_space c")
    case True
    have "lit_len (CHR '' '' # w) True" if "\<not> prev" using Cons.prems(2) that by (auto simp: lit_len_def)
    then show ?thesis
      using True Cons.prems Cons.IH [OF sp, of True] Cons.IH [OF Cons.prems(1,2)] len by (auto split: if_splits)
  next
    case False
    show ?thesis
    proof (cases "160 \<le> length w")
      case True
      then show ?thesis using False Cons.prems len by auto
    next
      case short: False
      consider (esc) "c = backslash \<or> c = dquote" | (ctl) "\<not> (c = backslash \<or> c = dquote)" "(of_char c :: nat) < 0x20 \<or> c = CHR 0x7F"
        | (plain) "\<not> (c = backslash \<or> c = dquote)" "\<not> ((of_char c :: nat) < 0x20 \<or> c = CHR 0x7F)" by blast
      then show ?thesis
      proof cases
        case esc
        have "lit_body (rev (c # backslash # w))" using lit_body_snoc(2) [OF Cons.prems(1) esc] by simp
        moreover have "lit_len (c # backslash # w) False" using short by (simp add: lit_len_def)
        ultimately show ?thesis using Cons.IH [of "c # backslash # w" False] Cons.prems(3) esc False short by simp
      next
        case ctl
        have "lit_body (rev (CHR ''?'' # w))"
          using lit_body_snoc(1) [OF Cons.prems(1), of "CHR ''?''"] by (simp add: lit_plain_def char_defs printable_def)
        moreover have "lit_len (CHR ''?'' # w) False" using short by (simp add: lit_len_def)
        ultimately show ?thesis using Cons.IH [of "CHR ''?'' # w" False] Cons.prems(3) ctl False short by simp
      next
        case plain
        have "lit_body (rev (c # w))"
          using lit_body_snoc(1) [OF Cons.prems(1), of c] plain by (simp add: lit_plain_def printable_def)
        moreover have "lit_len (c # w) False" using short by (simp add: lit_len_def)
        ultimately show ?thesis using Cons.IH [of "c # w" False] Cons.prems(3) plain False short by simp
      qed
    qed
  qed
qed auto

lemma lit_body_lexed:
  "lit_body body \<Longrightarrow> code_chars nl (Quoted dquote) (body @ dquote # rest) p = code_chars nl Code rest (p + length body + 1)"
proof (induction body arbitrary: p rule: lit_body.induct)
  case 1
  then show ?case by (simp add: char_defs)
next
  case (2 c)
  then have "c \<noteq> backslash" "c \<noteq> dquote" by auto
  moreover have "dquote \<noteq> backslash" by (simp add: char_defs)
  ultimately show ?case by simp
next
  case (3 c d r)
  show ?case
  proof (cases "c = backslash")
    case True
    then show ?thesis using 3(1) [OF True, of "p + 2"] 3(3) by (simp add: peek_def)
  next
    case False
    moreover from this 3(3) have "c \<noteq> dquote" by auto
    ultimately show ?thesis using 3(2) [OF False, of "p + 1"] 3(3) by simp
  qed
qed

lemma lit_body_printable: "lit_body body \<Longrightarrow> c \<in> set body \<Longrightarrow> printable c"
proof (induction body rule: lit_body.induct)
  case (3 x d r)
  have "printable backslash" "printable dquote" by (simp_all add: char_defs printable_def)
  then show ?case using 3 by (cases "x = backslash") (auto simp: lit_plain_def)
qed (auto simp: lit_plain_def)

lemma lit_lexed:
  assumes "lit_body body"
  shows "code_chars nl Code (dquote # body @ dquote # rest) p = code_chars nl Code rest (p + length body + 2)"
proof -
  have "lex_step nl Code dquote x = (Quoted dquote, False, False)" for x by (simp add: char_defs)
  then have "code_chars nl Code (dquote # body @ dquote # rest) p = code_chars nl (Quoted dquote) (body @ dquote # rest) (p + 1)"
    by simp
  then show ?thesis using lit_body_lexed [OF assms, of nl rest "p + 1"] by simp
qed

lemma lit_loop_rendered:
  assumes "lit_loop [] False cs = (w, tr)"
  shows "lit_body (rev (dropWhile (\<lambda>c. c = CHR '' '') w))" "length (dropWhile (\<lambda>c. c = CHR '' '') w) \<le> 161"
proof -
  have "lit_len [] False" "lit_body (rev [])" by (simp_all add: lit_len_def)
  from lit_loop_inv [OF this(2,1) assms] obtain p where inv: "lit_body (rev w)" "lit_len w p" by blast
  show "lit_body (rev (dropWhile (\<lambda>c. c = CHR '' '') w))" by (rule lit_body_trim [OF inv(1)])
  show "length (dropWhile (\<lambda>c. c = CHR '' '') w) \<le> 161"
  proof (cases "length w \<le> 161")
    case True
    then show ?thesis using dropWhile_length [of "\<lambda>c. c = CHR '' ''" w] by linarith
  next
    case False
    then obtain w1 where "w = CHR '' '' # w1" "length w1 = 161" using inv(2) by (cases w) (auto simp: lit_len_def)
    then show ?thesis using dropWhile_length [of "\<lambda>c. c = CHR '' ''" w1] by simp
  qed
qed

lemma lit_dots: "lit_body ''...''"
  by (simp add: lit_plain_def char_defs printable_def)

text \<open>C33: Rendering a piece of source text always gives one well-formed C string literal: it is
  framed by quotes, has at most 166 characters, none of them a control character or a
  line break, and the lexer passes over all of it and resumes in code right after it,
  whatever the text contains.\<close>
theorem string_literal_well_formed:
  "\<exists>body. sb_text (cc_sb_append_c_string_literal sb src a b) = sb_text sb @ dquote # body @ [dquote] \<and>
    length body \<le> 164 \<and> list_all printable body \<and>
    (\<forall>rest p. code_chars nl Code (dquote # body @ dquote # rest) p = code_chars nl Code rest (p + length body + 2))"
proof -
  have "\<exists>body. sb_text (cc_sb_append_c_string_literal sb src a b) = sb_text sb @ dquote # body @ [dquote] \<and>
    length body \<le> 164 \<and> lit_body body"
  proof (cases "a < b")
    case False
    then show ?thesis
      by (intro exI [of _ "[]"] conjI) (simp_all add: cc_sb_append_c_string_literal_def Let_def)
  next
    case True
    obtain w tr where loop: "lit_loop [] False (slice src a b) = (w, tr)" by fastforce
    note R = lit_loop_rendered [OF loop]
    let ?body = "rev (dropWhile (\<lambda>c. c = CHR '' '') w) @ (if tr then ''...'' else [])"
    have "sb_text (cc_sb_append_c_string_literal sb src a b) = sb_text sb @ dquote # ?body @ [dquote]"
      using True loop by (simp add: cc_sb_append_c_string_literal_def Let_def)
    moreover have "length ?body \<le> 164" using R(2) by simp
    moreover have "lit_body ?body" using R(1) lit_dots by (cases tr) (simp_all only: lit_body_append if_True if_False append_Nil2)
    ultimately show ?thesis by blast
  qed
  then show ?thesis using lit_body_printable lit_lexed by (auto simp only: list_all_iff)
qed

text \<open>The string builder appends: with memory available the text grows by exactly the appended
  string and the capacity stays larger than the text, so that the terminator fits;
  when the allocation fails the builder is unchanged.\<close>
theorem builder_appends:
  assumes "sb_ok sb"
  shows "sb_ok (cc_sb_append mem sb s) \<and>
    (sb_text (cc_sb_append mem sb s) = sb_text sb @ s \<or> \<not> mem \<and> cc_sb_append mem sb s = sb) \<and>
    sb_cap sb \<le> sb_cap (cc_sb_append mem sb s)"
proof -
  have "c \<le> grow_cap (if c = 0 then 1024 else c * 2) need" for c need
    using grow_cap_bounds(2) [of "if c = 0 then 1024 else c * 2" need] by (auto split: if_splits)
  then have "sb_cap sb \<le> sb_cap (cc_sb_append mem sb s)" by (auto simp: cc_sb_append_def Let_def)
  then show ?thesis using sb_append_ok [OF assms] by (auto simp: cc_sb_append_def Let_def)
qed

theorem builder_appends_witness:
  "sb_ok (cc_sb_append True \<lparr>sb_text = [], sb_cap = 0\<rparr> ''int'')"
  using builder_appends [of "\<lparr>sb_text = [], sb_cap = 0\<rparr>" True "''int''"] by (simp add: sb_ok_def)

end
