(* ===== verification/Edit_Buffer.thy ===== *)
theory Edit_Buffer
  imports Text_Scan "HOL-Library.Multiset"
begin

text \<open>
  The edit buffer of the source-to-source passes (visitor/edit_buffer.c): passes
  collect replacements of byte ranges of one source, which are sorted by position and
  spliced in from the end of the source to its start; generated prototypes go
  after the last include line and generated definitions to the end.
  The library sort is a parameter; it may order edits that compare equal in
  any way.
\<close>

section \<open>Data\<close>

record edit =
  start_off :: nat
  end_off :: nat
  replacement :: string
  priority :: int
  pass_name :: "string option"

record edit_buffer =
  edits :: "edit list"
  capacity :: nat
  protos :: string
  defs :: string
  src :: "string option"

definition cc_edit_buffer_init :: "string option \<Rightarrow> edit_buffer" where
  "cc_edit_buffer_init s = \<lparr>edits = [], capacity = 0, protos = [], defs = [], src = s\<rparr>"

definition cc_edit_buffer_free :: "edit_buffer \<Rightarrow> edit_buffer" where
  "cc_edit_buffer_free eb = \<lparr>edits = [], capacity = 0, protos = [], defs = [], src = None\<rparr>"

definition src_len :: "edit_buffer \<Rightarrow> nat" where
  "src_len eb = (case src eb of Some s \<Rightarrow> length s | None \<Rightarrow> 0)"

text \<open>The two flags say whether the array can grow and whether the replacement can be copied.  The
  result tells whether the edit was taken.\<close>

definition cc_edit_buffer_add ::
  "bool \<Rightarrow> bool \<Rightarrow> edit_buffer \<Rightarrow> nat \<Rightarrow> nat \<Rightarrow> string option \<Rightarrow> int \<Rightarrow> string option \<Rightarrow> edit_buffer \<times> bool" where
  "cc_edit_buffer_add mem dup eb so eo repl prio pass =
    (if eo < so \<or> src_len eb < eo then (eb, False)
     else if capacity eb \<le> length (edits eb) \<and> \<not> mem then (eb, False)
     else
      (let eb = (if capacity eb \<le> length (edits eb)
                 then eb\<lparr>capacity := (if capacity eb = 0 then 64 else capacity eb * 2)\<rparr> else eb)
       in if \<not> dup then (eb, False)
          else (eb\<lparr>edits := edits eb @ [\<lparr>start_off = so, end_off = eo,
                  replacement = (case repl of Some r \<Rightarrow> r | None \<Rightarrow> []), priority = prio, pass_name = pass\<rparr>]\<rparr>, True)))"

definition cc_edit_buffer_add_protos :: "bool \<Rightarrow> edit_buffer \<Rightarrow> string \<Rightarrow> edit_buffer \<times> bool" where
  "cc_edit_buffer_add_protos mem eb p =
    (if p = [] then (eb, True) else if \<not> mem then (eb, False) else (eb\<lparr>protos := protos eb @ p\<rparr>, True))"

definition cc_edit_buffer_add_defs :: "bool \<Rightarrow> edit_buffer \<Rightarrow> string \<Rightarrow> edit_buffer \<times> bool" where
  "cc_edit_buffer_add_defs mem eb d =
    (if d = [] then (eb, True) else if \<not> mem then (eb, False) else (eb\<lparr>defs := defs eb @ d\<rparr>, True))"

definition edit_cmp :: "edit \<Rightarrow> edit \<Rightarrow> int" where
  "edit_cmp a b =
    (if start_off b < start_off a then - 1
     else if start_off a < start_off b then 1
     else if priority b < priority a then - 1
     else if priority a < priority b then 1
     else 0)"

section \<open>Applying the edits\<close>

definition next_line :: "string \<Rightarrow> string" where
  "next_line cs = drop 1 (dropWhile (\<lambda>c. c \<noteq> newline) cs)"

lemma next_line_length: "length (next_line cs) \<le> length cs" "cs \<noteq> [] \<Longrightarrow> length (next_line cs) < length cs"
proof -
  have d: "length (dropWhile (\<lambda>c. c \<noteq> newline) cs) \<le> length cs" by (rule dropWhile_length)
  then show "length (next_line cs) \<le> length cs" unfolding next_line_def by simp
  assume "cs \<noteq> []"
  then have "0 < length cs" by simp
  then show "length (next_line cs) < length cs" using d unfolding next_line_def length_drop by linarith
qed

text \<open>Where the scan of a line goes on looking for the line end, and whether the line is an include.\<close>

definition scan_line :: "string \<Rightarrow> string \<times> bool" where
  "scan_line cs =
    (let r = dropWhile is_blank cs in
     case r of
       [] \<Rightarrow> (r, False)
     | c # t \<Rightarrow>
         (if c = CHR ''#''
          then (let u = dropWhile is_blank t in (u, take 7 u = ''include''))
          else (r, False)))"

lemma scan_line_length: "length (fst (scan_line cs)) \<le> length cs"
proof (cases "dropWhile is_blank cs")
  case Nil
  then show ?thesis unfolding scan_line_def Let_def Nil by simp
next
  case (Cons c t)
  have "length (dropWhile is_blank t) \<le> length t" "Suc (length t) \<le> length cs"
    using dropWhile_length [of is_blank t] dropWhile_length [of is_blank cs] Cons by simp_all
  then show ?thesis using dropWhile_length [of is_blank cs] by (simp add: scan_line_def Cons Let_def)
qed

lemma scan_next: "cs \<noteq> [] \<Longrightarrow> scan_line cs = (r, inc) \<Longrightarrow> length (next_line r) < length cs"
  using scan_line_length [of cs] next_line_length(2) [of r] by (cases "r = []") (auto simp: next_line_def)

function protos_scan :: "nat \<Rightarrow> string \<Rightarrow> nat \<Rightarrow> nat" where
  "protos_scan len cs last_end =
    (if cs = [] then last_end
     else (case scan_line cs of (r, inc) \<Rightarrow>
       protos_scan len (next_line r) (if inc then len - length (next_line r) else last_end)))"
  by pat_completeness auto
termination
  by (relation "measure (\<lambda>(len, cs, l). length cs)") (auto intro: scan_next [OF _ sym])

declare protos_scan.simps [simp del]

definition find_protos_insertion_point :: "string \<Rightarrow> nat" where
  "find_protos_insertion_point s = protos_scan (length s) s 0"

fun overlapping :: "edit list \<Rightarrow> bool" where
  "overlapping (a # b # es) = (start_off a < end_off b \<or> overlapping (b # es))"
| "overlapping _ = False"

definition apply_edit :: "string \<Rightarrow> edit \<Rightarrow> string" where
  "apply_edit w e = take (start_off e) w @ replacement e @ drop (end_off e) w"

definition insert_protos :: "string \<Rightarrow> string \<Rightarrow> string" where
  "insert_protos p w =
    (if p = [] then w
     else (let k = find_protos_insertion_point w in take k w @ p @ drop k w))"

text \<open>The first argument is the library sort; the flag says whether the allocations succeed.\<close>

definition cc_edit_buffer_apply ::
  "(edit list \<Rightarrow> edit list) \<Rightarrow> bool \<Rightarrow> edit_buffer \<Rightarrow> edit_buffer \<times> string option" where
  "cc_edit_buffer_apply qsort mem eb =
    (case src eb of
       None \<Rightarrow> (eb, None)
     | Some s \<Rightarrow>
         (let eb = (if 1 < length (edits eb) then eb\<lparr>edits := qsort (edits eb)\<rparr> else eb) in
          if overlapping (edits eb) \<or> \<not> mem then (eb, None)
          else (eb, Some (insert_protos (protos eb) (foldl apply_edit s (edits eb)) @ defs eb))))"

section \<open>The invariant\<close>

definition edit_ok :: "nat \<Rightarrow> edit \<Rightarrow> bool" where
  "edit_ok n e = (start_off e \<le> end_off e \<and> end_off e \<le> n)"

definition buffer_ok :: "edit_buffer \<Rightarrow> bool" where
  "buffer_ok eb = (list_all (edit_ok (src_len eb)) (edits eb) \<and> length (edits eb) \<le> capacity eb)"

definition qsort_spec :: "(edit list \<Rightarrow> edit list) \<Rightarrow> bool" where
  "qsort_spec qsort =
    (\<forall>es. mset (qsort es) = mset es \<and> sorted_wrt (\<lambda>a b. edit_cmp a b \<le> 0) (qsort es))"

lemma src_len_update [simp]: "src_len (eb\<lparr>edits := es\<rparr>) = src_len eb" "src_len (eb\<lparr>capacity := c\<rparr>) = src_len eb"
  "src_len (eb\<lparr>protos := p\<rparr>) = src_len eb" "src_len (eb\<lparr>defs := d\<rparr>) = src_len eb"
  by (simp_all add: src_len_def)

lemma list_all_mset: "mset xs = mset ys \<Longrightarrow> list_all P xs = list_all P ys"
  by (metis list_all_iff set_mset_mset)

text \<open>Every operation of the edit buffer keeps it well formed: each edit has its start not after
  its end and its end inside the source, and the edits fit the allocated array; an
  edit outside these bounds is refused and leaves the buffer as it was.\<close>
theorem edit_buffer_well_formed:
  assumes "buffer_ok eb" "qsort_spec qsort"
  shows "buffer_ok (cc_edit_buffer_init s) \<and> buffer_ok (fst (cc_edit_buffer_add mem dup eb so eo r pr pa)) \<and>
    buffer_ok (fst (cc_edit_buffer_add_protos mem eb p)) \<and> buffer_ok (fst (cc_edit_buffer_add_defs mem eb d)) \<and>
    buffer_ok (fst (cc_edit_buffer_apply qsort mem eb)) \<and>
    (\<not> (so \<le> eo \<and> eo \<le> src_len eb) \<longrightarrow> cc_edit_buffer_add mem dup eb so eo r pr pa = (eb, False))"
proof -
  have "mset (qsort (edits eb)) = mset (edits eb)" using assms(2) by (simp add: qsort_spec_def)
  then have "buffer_ok (eb\<lparr>edits := qsort (edits eb)\<rparr>)"
    using assms(1) list_all_mset [of "qsort (edits eb)" "edits eb"] mset_eq_length [of "qsort (edits eb)" "edits eb"]
    by (simp add: buffer_ok_def)
  then have "buffer_ok (fst (cc_edit_buffer_apply qsort mem eb))"
    using assms(1) by (simp add: cc_edit_buffer_apply_def Let_def split: option.split)
  moreover have "buffer_ok (fst (cc_edit_buffer_add mem dup eb so eo r pr pa))"
    using assms(1) by (simp add: cc_edit_buffer_add_def buffer_ok_def edit_ok_def Let_def)
  moreover have "buffer_ok (cc_edit_buffer_init s)" by (simp add: buffer_ok_def cc_edit_buffer_init_def)
  moreover have "buffer_ok (fst (cc_edit_buffer_add_protos mem eb p))" "buffer_ok (fst (cc_edit_buffer_add_defs mem eb d))"
    using assms(1) by (simp_all add: buffer_ok_def cc_edit_buffer_add_protos_def cc_edit_buffer_add_defs_def)
  moreover have "cc_edit_buffer_add mem dup eb so eo r pr pa = (eb, False)" if "\<not> (so \<le> eo \<and> eo \<le> src_len eb)"
    using that by (simp add: cc_edit_buffer_add_def not_le)
  ultimately show ?thesis by blast
qed

definition demo_edits :: edit_buffer where
  "demo_edits = \<lparr>edits = [\<lparr>start_off = 0, end_off = 3, replacement = ''long'', priority = 0, pass_name = None\<rparr>,
      \<lparr>start_off = 4, end_off = 5, replacement = ''y'', priority = 0, pass_name = None\<rparr>],
    capacity = 64, protos = ''p;'', defs = ''d;'', src = Some ''int x;''\<rparr>"

text \<open>A sort that meets the specification of the library sort.\<close>

definition edit_key :: "edit \<Rightarrow> edit \<Rightarrow> bool" where
  "edit_key a b = (edit_cmp a b \<le> 0)"

fun insert_edit :: "edit \<Rightarrow> edit list \<Rightarrow> edit list" where
  "insert_edit e [] = [e]"
| "insert_edit e (x # xs) = (if edit_key e x then e # x # xs else x # insert_edit e xs)"

definition sort_edits :: "edit list \<Rightarrow> edit list" where
  "sort_edits es = foldr insert_edit es []"

lemma edit_key_total: "\<not> edit_key a b \<Longrightarrow> edit_key b a"
  by (simp add: edit_key_def edit_cmp_def split: if_splits)

lemma edit_key_trans: "edit_key a b \<Longrightarrow> edit_key b c \<Longrightarrow> edit_key a c"
  by (simp add: edit_key_def edit_cmp_def split: if_splits)

lemma insert_edit_mset: "mset (insert_edit e xs) = add_mset e (mset xs)"
  by (induction xs) auto

lemma insert_edit_sorted: "sorted_wrt edit_key xs \<Longrightarrow> sorted_wrt edit_key (insert_edit e xs)"
proof (induction xs)
  case (Cons x xs)
  have "set (insert_edit e xs) = insert e (set xs)" using insert_edit_mset [of e xs] by (metis set_mset_mset set_mset_add_mset_insert)
  then show ?case using Cons edit_key_total [of e x] edit_key_trans [of e x] by auto
qed simp

lemma sort_edits_spec: "qsort_spec sort_edits"
proof -
  have "mset (sort_edits es) = mset es" "sorted_wrt edit_key (sort_edits es)" for es
    by (induction es) (simp_all add: sort_edits_def insert_edit_mset insert_edit_sorted)
  moreover have "edit_key = (\<lambda>a b. edit_cmp a b \<le> 0)" by (intro ext) (simp add: edit_key_def)
  ultimately show ?thesis by (simp add: qsort_spec_def)
qed

theorem edit_buffer_well_formed_witness:
  "buffer_ok (fst (cc_edit_buffer_add True True demo_edits 5 5 None 1 None))"
  using edit_buffer_well_formed [of demo_edits sort_edits None True True 5 5 None 1 None "[]" "[]"] sort_edits_spec
  by (simp add: buffer_ok_def demo_edits_def edit_ok_def src_len_def)

section \<open>Splicing\<close>

text \<open>What the edits mean: going through the source from left to right, the text between the edits is
  kept and each edited range is replaced.\<close>

fun splice :: "string \<Rightarrow> nat \<Rightarrow> edit list \<Rightarrow> string" where
  "splice w pos [] = drop pos w"
| "splice w pos (e # es) = drop pos (take (start_off e) w) @ replacement e @ splice w (end_off e) es"

text \<open>Edits from left to right that do not overlap, from one position up to another.\<close>

fun ascending :: "nat \<Rightarrow> edit list \<Rightarrow> nat \<Rightarrow> bool" where
  "ascending pos [] k = (pos \<le> k)"
| "ascending pos (e # es) k = (pos \<le> start_off e \<and> start_off e \<le> end_off e \<and> ascending (end_off e) es k)"

lemma ascending_le: "ascending pos es k \<Longrightarrow> pos \<le> k"
  by (induction es arbitrary: pos) (auto intro: le_trans)

lemma ascending_mono: "ascending pos es k \<Longrightarrow> k \<le> m \<Longrightarrow> ascending pos es m"
  by (induction es arbitrary: pos) auto

lemma ascending_snoc:
  "ascending pos (es @ [e]) k \<longleftrightarrow> ascending pos es (start_off e) \<and> start_off e \<le> end_off e \<and> end_off e \<le> k"
  by (induction es arbitrary: pos) auto

lemma splice_take:
  "ascending pos es k \<Longrightarrow> k \<le> length w \<Longrightarrow> splice (take k w @ z) pos es = splice (take k w) pos es @ z"
proof (induction es arbitrary: pos)
  case (Cons e es)
  have "start_off e \<le> k" using Cons.prems(1) ascending_le [of "end_off e" es k] by simp
  then show ?case using Cons by (simp add: min_def)
qed simp

lemma splice_snoc:
  "ascending pos es (start_off e) \<Longrightarrow> start_off e \<le> length w \<Longrightarrow>
    splice w pos (es @ [e]) = splice (take (start_off e) w) pos es @ replacement e @ drop (end_off e) w"
proof (induction es arbitrary: pos)
  case (Cons x es)
  have "start_off x \<le> start_off e" using Cons.prems(1) ascending_le [of "end_off x" es "start_off e"] by simp
  then show ?case using Cons by (simp add: min_def)
qed simp

lemma apply_from_end:
  "ascending 0 (rev es) (length w) \<Longrightarrow> foldl apply_edit w es = splice w 0 (rev es)"
proof (induction es arbitrary: w)
  case (Cons e es)
  have a: "ascending 0 (rev es) (start_off e)" "start_off e \<le> end_off e" "end_off e \<le> length w"
    using Cons.prems by (simp_all add: ascending_snoc)
  have w: "apply_edit w e = take (start_off e) w @ (replacement e @ drop (end_off e) w)" by (simp add: apply_edit_def)
  have le: "start_off e \<le> length w" using a by simp
  have "ascending 0 (rev es) (length (apply_edit w e))" by (rule ascending_mono [OF a(1)]) (use le in \<open>simp add: w\<close>)
  from Cons.IH [OF this] have "foldl apply_edit w (e # es) = splice (apply_edit w e) 0 (rev es)" by simp
  also have "\<dots> = splice (take (start_off e) w) 0 (rev es) @ replacement e @ drop (end_off e) w"
    unfolding w by (rule splice_take [OF a(1) le])
  also have "\<dots> = splice w 0 (rev (e # es))" using splice_snoc [OF a(1) le] by simp
  finally show ?case .
qed simp

lemma not_overlapping_ascending:
  "es \<noteq> [] \<Longrightarrow> \<not> overlapping es \<Longrightarrow> list_all (edit_ok n) es \<Longrightarrow> ascending 0 (rev es) (end_off (hd es))"
proof (induction es rule: overlapping.induct)
  case (1 a b es)
  then have "ascending 0 (rev (b # es)) (end_off b)" "end_off b \<le> start_off a" by auto
  then have "ascending 0 (rev (b # es)) (start_off a)" by (rule ascending_mono)
  then have "ascending 0 (rev (b # es) @ [a]) (end_off a)" using 1(4) by (simp only: ascending_snoc) (simp add: edit_ok_def)
  then show ?case by simp
qed (auto simp: edit_ok_def)

lemma overlap_splice:
  assumes "list_all (edit_ok (length w)) es" "\<not> overlapping es"
  shows "foldl apply_edit w es = splice w 0 (rev es)" "ascending 0 (rev es) (length w)"
proof -
  show asc: "ascending 0 (rev es) (length w)"
  proof (cases es)
    case (Cons e es')
    then have "ascending 0 (rev es) (end_off e)" using not_overlapping_ascending [of es "length w"] assms by simp
    moreover have "end_off e \<le> length w" using assms(1) by (simp add: Cons edit_ok_def)
    ultimately show ?thesis by (rule ascending_mono)
  qed simp
  show "foldl apply_edit w es = splice w 0 (rev es)" by (rule apply_from_end [OF asc])
qed

text \<open>C10: Applying the edits from the end of the source to its start gives what they mean from left to
  right: the result is the source with every edited range replaced, the prototypes
  inserted and the definitions appended, where all edits refer to offsets of the
  original source.  Whatever order the sort gives to edits that compare equal, they
  do not overlap.\<close>
theorem edits_apply_as_splice:
  assumes "buffer_ok eb" "qsort_spec qsort" "src eb = Some s" "cc_edit_buffer_apply qsort mem eb = (eb', Some out)"
  shows "mset (edits eb') = mset (edits eb) \<and> ascending 0 (rev (edits eb')) (length s) \<and>
    out = insert_protos (protos eb) (splice s 0 (rev (edits eb'))) @ defs eb"
proof -
  let ?es = "if 1 < length (edits eb) then qsort (edits eb) else edits eb"
  have perm: "mset ?es = mset (edits eb)" using assms(2) by (simp add: qsort_spec_def)
  have res: "edits eb' = ?es" "\<not> overlapping ?es" "out = insert_protos (protos eb) (foldl apply_edit s ?es) @ defs eb"
    using assms(3,4) by (auto simp: cc_edit_buffer_apply_def Let_def split: if_splits)
  have "list_all (edit_ok (length s)) ?es"
    using assms(1,3) list_all_mset [OF perm] by (simp add: buffer_ok_def src_len_def)
  note S = overlap_splice [OF this res(2)]
  show ?thesis using S res(1,3) perm by simp
qed

theorem edits_apply_as_splice_witness:
  "snd (cc_edit_buffer_apply sort_edits True demo_edits) = Some (insert_protos ''p;'' (splice ''int x;'' 0 (rev (edits (fst
    (cc_edit_buffer_apply sort_edits True demo_edits))))) @ ''d;'')"
proof -
  obtain eb' out where r: "cc_edit_buffer_apply sort_edits True demo_edits = (eb', Some out)"
    by (simp add: cc_edit_buffer_apply_def demo_edits_def sort_edits_def edit_key_def edit_cmp_def Let_def)
  have "buffer_ok demo_edits" "src demo_edits = Some ''int x;''" "protos demo_edits = ''p;''" "defs demo_edits = ''d;''"
    by (simp_all add: buffer_ok_def demo_edits_def edit_ok_def src_len_def)
  then show ?thesis using edits_apply_as_splice [OF _ sort_edits_spec _ r] r by simp
qed

text \<open>The sorted edits overlap somewhere exactly when two neighbours do.\<close>

lemma sorted_starts:
  assumes "sorted_wrt (\<lambda>a b. edit_cmp a b \<le> 0) es"
  shows "sorted_wrt (\<lambda>a b. start_off b \<le> start_off a) es"
  by (rule sorted_wrt_mono_rel [OF _ assms]) (auto simp: edit_cmp_def split: if_splits)

lemma not_overlapping_pairs:
  "sorted_wrt (\<lambda>a b. start_off b \<le> start_off a) es \<Longrightarrow> list_all (edit_ok n) es \<Longrightarrow>
    \<not> overlapping es \<longleftrightarrow> sorted_wrt (\<lambda>a b. end_off b \<le> start_off a) es"
proof (induction es rule: overlapping.induct)
  case (1 a b es)
  then have IH: "\<not> overlapping (b # es) \<longleftrightarrow> sorted_wrt (\<lambda>a b. end_off b \<le> start_off a) (b # es)" by simp
  have "start_off b \<le> end_off b" using 1(3) by (simp add: edit_ok_def)
  then show ?case using IH by (fastforce simp: not_less)
qed simp_all

text \<open>C11: With edits that start at different offsets, the buffer refuses to apply them exactly when two
  of them overlap, that is, when one starts inside the range of the other; then no
  output is produced.\<close>
theorem overlap_detected:
  assumes "buffer_ok eb" "qsort_spec qsort" "src eb = Some s" "distinct (map start_off (edits eb))"
  shows "snd (cc_edit_buffer_apply qsort True eb) = None \<longleftrightarrow>
    (\<exists>a b. a \<in> set (edits eb) \<and> b \<in> set (edits eb) \<and> start_off b < start_off a \<and> start_off a < end_off b)"
proof -
  let ?es = "if 1 < length (edits eb) then qsort (edits eb) else edits eb"
  have perm: "mset ?es = mset (edits eb)" using assms(2) by (simp add: qsort_spec_def)
  then have set: "set ?es = set (edits eb)" by (metis set_mset_mset)
  have ok: "list_all (edit_ok (src_len eb)) ?es" using assms(1) list_all_mset [OF perm] by (simp add: buffer_ok_def)
  have "sorted_wrt (\<lambda>a b. edit_cmp a b \<le> 0) ?es"
    using assms(2) by (cases "edits eb") (auto simp: qsort_spec_def)
  then have so: "sorted_wrt (\<lambda>a b. start_off b \<le> start_off a) ?es" by (rule sorted_starts)
  have "mset (map start_off ?es) = mset (map start_off (edits eb))" using perm by (metis mset_map)
  then have di: "distinct (map start_off ?es)" using assms(4) mset_eq_imp_distinct_iff by blast
  have "sorted_wrt (\<lambda>a b. end_off b \<le> start_off a) es \<longleftrightarrow>
      \<not> (\<exists>a b. a \<in> set es \<and> b \<in> set es \<and> start_off b < start_off a \<and> start_off a < end_off b)"
    if "sorted_wrt (\<lambda>a b. start_off b \<le> start_off a) es" "distinct (map start_off es)" for es
    using that
  proof (induction es)
    case (Cons e es)
    have lt: "start_off b < start_off e" if "b \<in> set es" for b
    proof -
      have "start_off b \<le> start_off e" "start_off b \<in> start_off ` set es" "start_off e \<notin> start_off ` set es"
        using Cons.prems that by auto
      then show ?thesis by (metis order.order_iff_strict)
    qed
    show ?case
    proof
      assume "sorted_wrt (\<lambda>a b. end_off b \<le> start_off a) (e # es)"
      then show "\<not> (\<exists>a b. a \<in> set (e # es) \<and> b \<in> set (e # es) \<and> start_off b < start_off a \<and> start_off a < end_off b)"
        using Cons lt by (auto simp: not_less)
    next
      assume none: "\<not> (\<exists>a b. a \<in> set (e # es) \<and> b \<in> set (e # es) \<and> start_off b < start_off a \<and> start_off a < end_off b)"
      have "end_off x \<le> start_off e" if "x \<in> set es" for x
        using none lt [OF that] that by (meson leI list.set_intros)
      moreover have "sorted_wrt (\<lambda>a b. end_off b \<le> start_off a) es" using none Cons by auto
      ultimately show "sorted_wrt (\<lambda>a b. end_off b \<le> start_off a) (e # es)" by simp
    qed
  qed simp
  from this [OF so di] not_overlapping_pairs [OF so ok] set show ?thesis
    using assms(3) by (auto simp: cc_edit_buffer_apply_def Let_def)
qed

theorem overlap_detected_witness:
  "snd (cc_edit_buffer_apply sort_edits True demo_edits) \<noteq> None"
  using overlap_detected [of demo_edits sort_edits "''int x;''"] sort_edits_spec
  by (auto simp: buffer_ok_def demo_edits_def edit_ok_def src_len_def)

section \<open>The insertion point\<close>

text \<open>The lines of a text, each with its line end, and what makes a line an include.\<close>

function text_lines :: "string \<Rightarrow> string list" where
  "text_lines cs =
    (if cs = [] then []
     else (takeWhile (\<lambda>c. c \<noteq> newline) cs @ take 1 (dropWhile (\<lambda>c. c \<noteq> newline) cs)) # text_lines (next_line cs))"
  by pat_completeness auto
termination by (relation "measure length") (auto simp: next_line_length(2))

declare text_lines.simps [simp del]

definition include_line :: "string \<Rightarrow> bool" where
  "include_line l = snd (scan_line l)"

lemma text_lines_concat: "concat (text_lines cs) = cs"
proof (induction cs rule: text_lines.induct)
  case (1 cs)
  show ?case
  proof (cases "cs = []")
    case False
    have "concat (text_lines cs) = takeWhile (\<lambda>c. c \<noteq> newline) cs @ take 1 (dropWhile (\<lambda>c. c \<noteq> newline) cs) @ next_line cs"
      using 1 [OF False] False by (subst text_lines.simps) simp
    also have "\<dots> = cs" unfolding next_line_def by (metis append_take_drop_id takeWhile_dropWhile_id)
    finally show ?thesis .
  qed (simp add: text_lines.simps)
qed

text \<open>The scan of a line stays in the line.\<close>

lemma blank_not_newline: "is_blank c \<Longrightarrow> c \<noteq> newline"
  by (auto simp: is_blank_def newline_def)

lemma dropWhile_dropWhile: "(\<And>c. Q c \<Longrightarrow> P c) \<Longrightarrow> dropWhile P (dropWhile Q cs) = dropWhile P cs"
  by (induction cs) auto

lemma dropWhile_line:
  "x = [] \<or> x = [newline] \<Longrightarrow> dropWhile is_blank (takeWhile (\<lambda>c. c \<noteq> newline) cs @ x) =
    takeWhile (\<lambda>c. c \<noteq> newline) (dropWhile is_blank cs) @ x"
  by (induction cs) (auto dest: blank_not_newline)

lemma take_line:
  "newline \<notin> set s \<Longrightarrow> x = [] \<or> x = [newline] \<Longrightarrow>
    take (length s) (takeWhile (\<lambda>c. c \<noteq> newline) u @ x) = s \<longleftrightarrow> take (length s) u = s"
proof (induction s arbitrary: u)
  case (Cons a s)
  then show ?case by (cases u) auto
qed simp

definition line_of :: "string \<Rightarrow> string" where
  "line_of cs = takeWhile (\<lambda>c. c \<noteq> newline) cs @ take 1 (dropWhile (\<lambda>c. c \<noteq> newline) cs)"

lemma line_end: "take 1 (dropWhile (\<lambda>c. c \<noteq> newline) cs) = [] \<or> take 1 (dropWhile (\<lambda>c. c \<noteq> newline) cs) = [newline]"
  by (induction cs) auto

lemma scan_line_next: "next_line (fst (scan_line cs)) = next_line cs"
proof -
  have d: "dropWhile (\<lambda>c. c \<noteq> newline) (dropWhile is_blank ds) = dropWhile (\<lambda>c. c \<noteq> newline) ds" for ds
    by (rule dropWhile_dropWhile) (rule blank_not_newline)
  show ?thesis
  proof (cases "dropWhile is_blank cs")
    case Nil
    then have "scan_line cs = (dropWhile is_blank cs, False)" unfolding scan_line_def Let_def Nil by simp
    then show ?thesis unfolding next_line_def by (simp add: d)
  next
    case (Cons c t)
    show ?thesis
    proof (cases "c = CHR ''#''")
      case True
      then have "fst (scan_line cs) = dropWhile is_blank t" by (simp add: scan_line_def Cons Let_def)
      moreover have "dropWhile (\<lambda>c. c \<noteq> newline) cs = dropWhile (\<lambda>c. c \<noteq> newline) t"
        using d [of cs] True unfolding Cons by (simp add: newline_def)
      ultimately show ?thesis by (simp add: next_line_def d)
    next
      case False
      then have "fst (scan_line cs) = dropWhile is_blank cs" by (simp add: scan_line_def Cons Let_def)
      then show ?thesis by (simp add: next_line_def d)
    qed
  qed
qed

lemma scan_line_include: "snd (scan_line cs) = include_line (line_of cs)"
proof -
  define x where "x = take 1 (dropWhile (\<lambda>c. c \<noteq> newline) cs)"
  have x: "x = [] \<or> x = [newline]" unfolding x_def by (rule line_end)
  have l: "dropWhile is_blank (line_of cs) = takeWhile (\<lambda>c. c \<noteq> newline) (dropWhile is_blank cs) @ x"
    unfolding line_of_def x_def [symmetric] by (rule dropWhile_line [OF x])
  show ?thesis
  proof (cases "\<exists>t. dropWhile is_blank cs = CHR ''#'' # t")
    case True
    then obtain t where t: "dropWhile is_blank cs = CHR ''#'' # t" by blast
    have "dropWhile is_blank (line_of cs) = CHR ''#'' # (takeWhile (\<lambda>c. c \<noteq> newline) t @ x)"
      unfolding l t by (simp add: newline_def)
    moreover have "take 7 (takeWhile (\<lambda>c. c \<noteq> newline) (dropWhile is_blank t) @ x) = ''include'' \<longleftrightarrow>
        take 7 (dropWhile is_blank t) = ''include''"
      using take_line [OF _ x, of "''include''" "dropWhile is_blank t"] by (simp add: newline_def eval_nat_numeral)
    ultimately show ?thesis
      using dropWhile_line [OF x, of t]
      by (simp add: include_line_def scan_line_def Let_def t del: take_append)
  next
    case False
    then have "\<nexists>t. takeWhile (\<lambda>c. c \<noteq> newline) (dropWhile is_blank cs) @ x = CHR ''#'' # t"
    proof -
      have "\<nexists>t. takeWhile (\<lambda>c. c \<noteq> newline) ds @ x = CHR ''#'' # t" if "\<nexists>t. ds = CHR ''#'' # t" for ds
        using that x by (cases ds) (auto simp: newline_def)
      then show ?thesis using False by blast
    qed
    then have "\<nexists>t. dropWhile is_blank (line_of cs) = CHR ''#'' # t" by (simp only: l not_False_eq_True)
    then have "\<not> snd (scan_line (line_of cs))" "\<not> snd (scan_line cs)"
      using False by (auto simp: scan_line_def Let_def split: list.splits)
    then show ?thesis by (simp add: include_line_def)
  qed
qed

fun include_end :: "string list \<Rightarrow> nat \<Rightarrow> nat \<Rightarrow> nat" where
  "include_end [] pos lst = lst"
| "include_end (l # ls) pos lst = include_end ls (pos + length l) (if include_line l then pos + length l else lst)"

lemma protos_scan_lines:
  "length cs \<le> len \<Longrightarrow> protos_scan len cs lst = include_end (text_lines cs) (len - length cs) lst"
proof (induction cs arbitrary: lst rule: length_induct)
  case (1 cs)
  show ?case
  proof (cases "cs = []")
    case True
    then show ?thesis by (simp add: protos_scan.simps text_lines.simps)
  next
    case False
    obtain r inc where sc: "scan_line cs = (r, inc)" by fastforce
    have nl: "next_line r = next_line cs" "inc = include_line (line_of cs)"
      using scan_line_next [of cs] scan_line_include [of cs] sc by auto
    have tl: "text_lines cs = line_of cs # text_lines (next_line cs)"
      using False by (subst text_lines.simps) (simp add: line_of_def)
    have "length (line_of cs) + length (next_line cs) = length cs"
      unfolding line_of_def next_line_def by (metis append.assoc append_take_drop_id length_append takeWhile_dropWhile_id)
    then have pos: "len - length cs + length (line_of cs) = len - length (next_line cs)" "length (next_line cs) \<le> len"
      using 1(2) by simp_all
    have "protos_scan len cs lst = protos_scan len (next_line cs) (if inc then len - length (next_line cs) else lst)"
      using False sc nl(1) by (subst protos_scan.simps) simp
    also have "\<dots> = include_end (text_lines (next_line cs)) (len - length (next_line cs))
        (if inc then len - length (next_line cs) else lst)"
      using 1(1) next_line_length(2) [OF False] pos(2) by blast
    finally show ?thesis using nl(2) by (simp add: tl pos(1))
  qed
qed

lemma include_end_snoc:
  "include_end (ls @ [l]) pos lst = (if include_line l then pos + length (concat (ls @ [l])) else include_end ls pos lst)"
  by (induction ls arbitrary: pos lst) simp_all

lemma include_end_split:
  "\<exists>a b. ls = a @ b \<and> include_end ls pos lst = (if a = [] then lst else pos + length (concat a)) \<and>
    (a = [] \<or> include_line (last a)) \<and> (\<forall>l \<in> set b. \<not> include_line l)"
proof (induction ls rule: rev_induct)
  case (snoc l ls)
  show ?case
  proof (cases "include_line l")
    case True
    then have "ls @ [l] = (ls @ [l]) @ [] \<and> include_end (ls @ [l]) pos lst =
        (if ls @ [l] = [] then lst else pos + length (concat (ls @ [l]))) \<and>
        (ls @ [l] = [] \<or> include_line (last (ls @ [l]))) \<and> (\<forall>l \<in> set []. \<not> include_line l)"
      by (simp add: include_end_snoc)
    then show ?thesis by blast
  next
    case False
    from snoc obtain a b where ab: "ls = a @ b" "include_end ls pos lst = (if a = [] then lst else pos + length (concat a))"
      "a = [] \<or> include_line (last a)" "\<forall>l \<in> set b. \<not> include_line l" by blast
    have "include_end (ls @ [l]) pos lst = include_end ls pos lst" using False by (simp add: include_end_snoc)
    then have "ls @ [l] = a @ (b @ [l]) \<and> include_end (ls @ [l]) pos lst = (if a = [] then lst else pos + length (concat a)) \<and>
        (a = [] \<or> include_line (last a)) \<and> (\<forall>k \<in> set (b @ [l]). \<not> include_line k)"
      using False ab by auto
    then show ?thesis by blast
  qed
qed simp

text \<open>Generated prototypes are inserted between whole lines, right after the last include line, or
  at the start of the text when it has none; no include line comes after them.\<close>
theorem protos_after_includes:
  "\<exists>a b. text_lines w = a @ b \<and> insert_protos p w = concat a @ p @ concat b \<and>
    (a = [] \<or> include_line (last a) \<or> p = []) \<and> (p = [] \<or> list_all (\<lambda>l. \<not> include_line l) b)"
proof -
  obtain a b where ab: "text_lines w = a @ b" "include_end (text_lines w) 0 0 = (if a = [] then 0 else 0 + length (concat a))"
    "a = [] \<or> include_line (last a)" "\<forall>l \<in> set b. \<not> include_line l"
    using include_end_split [of "text_lines w" 0 0] by blast
  have "find_protos_insertion_point w = length (concat a)"
    using protos_scan_lines [of w "length w" 0] ab(2) by (simp add: find_protos_insertion_point_def)
  moreover have "w = concat a @ concat b" using text_lines_concat [of w] ab(1) by simp
  ultimately have "insert_protos p w = concat a @ p @ concat b" by (simp add: insert_protos_def Let_def)
  then show ?thesis using ab(1,3,4) unfolding list_all_iff by blast
qed

end
