(* ===== verification/Ir.thy ===== *)
theory Ir
  imports Text_Scan
begin

text \<open>
  The intermediate representation of a translation unit (ir/ir.c, ir/ir.h) and its
  differential verifier (ir/verifier.c): the bump arena with 64-bit sizes, nodes and
  child arrays, the backward scan for the operand of an unwrap sigil, the forward
  scan for its bound name and body, the loop that carves a source into opaque text and
  unwrap nodes, the emitter and the comparison of two outputs.  The first argument
  of an allocating function tells which block allocations succeed, by
  the number of blocks the arena has.  The debug dump only prints.
\<close>

unbundle bit_operations_syntax

section \<open>Arena\<close>

record ir_block =
  blk_cap :: u64
  blk_used :: u64

text \<open>The blocks of an arena, newest first; a region is given by the number of older blocks, an offset
  and a length.\<close>

record ir_arena =
  blocks :: "ir_block list"
  total_bytes :: u64
  next_id :: u32

type_synonym region = "nat \<times> u64 \<times> u64"

definition CC_IR_ARENA_BLOCK_DEFAULT :: u64 where
  "CC_IR_ARENA_BLOCK_DEFAULT = 64 * 1024"

definition cc_ir_arena_new_block :: "bool \<Rightarrow> u64 \<Rightarrow> ir_block option" where
  "cc_ir_arena_new_block mem min_bytes =
    (let cp = (if CC_IR_ARENA_BLOCK_DEFAULT < min_bytes then min_bytes else CC_IR_ARENA_BLOCK_DEFAULT)
     in if mem then Some \<lparr>blk_cap = cp, blk_used = 0\<rparr> else None)"

definition cc_ir_arena_create :: "bool \<Rightarrow> (nat \<Rightarrow> bool) \<Rightarrow> ir_arena option" where
  "cc_ir_arena_create mem ok =
    (if \<not> mem then None
     else case cc_ir_arena_new_block (ok 0) CC_IR_ARENA_BLOCK_DEFAULT of
       None \<Rightarrow> None
     | Some b \<Rightarrow> Some \<lparr>blocks = [b], total_bytes = 0, next_id = 1\<rparr>)"

definition cc_ir_align :: "u64 \<Rightarrow> u64" where
  "cc_ir_align n = (n + 7) AND NOT 7"

definition cc_ir_alloc :: "(nat \<Rightarrow> bool) \<Rightarrow> ir_arena \<Rightarrow> u64 \<Rightarrow> ir_arena \<times> region option" where
  "cc_ir_alloc ok a n =
    (if n = 0 then (a, None)
     else
      (let n = cc_ir_align n; b = hd (blocks a); older = tl (blocks a);
           head = (if blk_cap b < blk_used b + n
                   then map_option (\<lambda>nb. (nb, b # older)) (cc_ir_arena_new_block (ok (length (blocks a))) n)
                   else Some (b, older))
       in case head of
            None \<Rightarrow> (a, None)
          | Some (b, older) \<Rightarrow>
              (a\<lparr>blocks := b\<lparr>blk_used := blk_used b + n\<rparr> # older, total_bytes := total_bytes a + n\<rparr>,
               Some (length older, blk_used b, n))))"

text \<open>The copy of a string: only the room it takes matters to the arena.\<close>

definition cc_ir_strndup :: "(nat \<Rightarrow> bool) \<Rightarrow> ir_arena \<Rightarrow> string \<Rightarrow> ir_arena \<times> string option" where
  "cc_ir_strndup ok a s =
    (case cc_ir_alloc ok a (of_nat (length s) + 1) of (a, r) \<Rightarrow> (a, map_option (\<lambda>_. s) r))"

definition cc_ir_arena_bytes :: "ir_arena option \<Rightarrow> u64" where
  "cc_ir_arena_bytes a = (case a of Some a \<Rightarrow> total_bytes a | None \<Rightarrow> 0)"

section \<open>Nodes\<close>

datatype ir_kind = CC_IR_INVALID | CC_IR_FILE | CC_IR_OPAQUE_TEXT | CC_IR_UNWRAP_BANG | CC_IR_UNWRAP_Q

record ir_span =
  byte_start :: nat
  byte_end :: nat
  orig_line :: int
  orig_col :: int

record ir_unwrap =
  lhs_text :: "string option"
  binder_name :: "string option"
  body_text :: "string option"
  stmt_position :: bool

datatype ir_node = Node (nd_id: u32) (nd_kind: ir_kind) (nd_span: ir_span) (nd_raw: string)
  (nd_children: "ir_node list") (nd_cap: nat) (nd_unwrap: ir_unwrap)

definition no_unwrap :: ir_unwrap where
  "no_unwrap = \<lparr>lhs_text = None, binder_name = None, body_text = None, stmt_position = False\<rparr>"

text \<open>The size of a node on a 64-bit system.\<close>

definition sizeof_node :: u64 where "sizeof_node = 152"

definition cc_ir_node_new :: "(nat \<Rightarrow> bool) \<Rightarrow> ir_arena \<Rightarrow> ir_kind \<Rightarrow> ir_span \<Rightarrow> ir_arena \<times> ir_node option" where
  "cc_ir_node_new ok a k sp =
    (case cc_ir_alloc ok a sizeof_node of
       (a, None) \<Rightarrow> (a, None)
     | (a, Some _) \<Rightarrow> (a\<lparr>next_id := next_id a + 1\<rparr>, Some (Node (next_id a) k sp [] [] 0 no_unwrap)))"

text \<open>None is the error return.\<close>

definition cc_ir_node_append_child :: "(nat \<Rightarrow> bool) \<Rightarrow> ir_arena \<Rightarrow> ir_node \<Rightarrow> ir_node \<Rightarrow> ir_arena \<times> ir_node option" where
  "cc_ir_node_append_child ok a p c =
    (case p of Node i k sp raw cs cp u \<Rightarrow>
       if cp \<le> length cs then
         (let new_cap = (if cp \<noteq> 0 then cp * 2 else 4) in
          case cc_ir_alloc ok a (of_nat new_cap * 8) of
            (a, None) \<Rightarrow> (a, None)
          | (a, Some _) \<Rightarrow> (a, Some (Node i k sp raw (cs @ [c]) new_cap u)))
       else (a, Some (Node i k sp raw (cs @ [c]) cp u)))"

section \<open>The backward scan for the operand\<close>

fun block_back :: "string \<Rightarrow> nat \<Rightarrow> nat \<Rightarrow> nat" where
  "block_back s i 0 = 0"
| "block_back s i (Suc k) =
    (if s ! k = CHR ''/'' \<and> k + 1 < i \<and> s ! (k + 1) = CHR ''*'' then k else block_back s i k)"

definition cc_ir_skip_block_comment_backward :: "string \<Rightarrow> nat \<Rightarrow> nat" where
  "cc_ir_skip_block_comment_backward s i = (if i < 1 then 0 else block_back s i (i - 1))"

text \<open>The number of backslashes right before a position.\<close>

definition backslashes :: "string \<Rightarrow> nat \<Rightarrow> nat" where
  "backslashes s m = length (takeWhile (\<lambda>c. c = backslash) (rev (take m s)))"

fun str_back :: "string \<Rightarrow> char \<Rightarrow> nat \<Rightarrow> nat" where
  "str_back s q 0 = 0"
| "str_back s q (Suc k) = (if s ! k = q \<and> even (backslashes s k) then k else str_back s q k)"

definition cc_ir_skip_str_backward :: "string \<Rightarrow> nat \<Rightarrow> nat" where
  "cc_ir_skip_str_backward s i = (if i = 0 then i else str_back s (s ! i) i)"

text \<open>The scan of the line up to the position, with the open quote if any.\<close>

function line_comment_scan :: "char option \<Rightarrow> string \<Rightarrow> bool" where
  "line_comment_scan q [] = False"
| "line_comment_scan q (c # cs) =
    (case q of
       Some qch \<Rightarrow>
         (if c = backslash \<and> cs \<noteq> [] then line_comment_scan q (tl cs)
          else if c = qch then line_comment_scan None cs else line_comment_scan q cs)
     | None \<Rightarrow>
         (if c = dquote \<or> c = squote then line_comment_scan (Some c) cs
          else if c = CHR ''/'' \<and> peek cs = Some (CHR ''/'') then True
          else line_comment_scan None cs))"
  by pat_completeness auto
termination by (relation "measure (\<lambda>(q, cs). length cs)") auto

definition cc_ir_pos_in_line_comment :: "string \<Rightarrow> nat \<Rightarrow> bool" where
  "cc_ir_pos_in_line_comment s pos =
    (let line_start = pos - length (takeWhile (\<lambda>c. c \<noteq> newline) (rev (take pos s)))
     in line_comment_scan None (slice s line_start pos))"

definition cc_ir_eq_is_boundary :: "string \<Rightarrow> nat \<Rightarrow> nat \<Rightarrow> bool" where
  "cc_ir_eq_is_boundary s end_exclusive pos =
    (if pos = 0 then True
     else if s ! (pos - 1) \<in> {CHR ''='', CHR ''!'', CHR ''<'', CHR ''>''} then False
     else if pos + 1 < end_exclusive \<and> s ! (pos + 1) = CHR ''='' then False
     else True)"

definition cc_ir_is_ident :: "char \<Rightarrow> bool" where
  "cc_ir_is_ident c =
    (c = CHR ''_'' \<or> between (CHR ''0'') (CHR ''9'') c \<or> between (CHR ''A'') (CHR ''Z'') c \<or>
     between (CHR ''a'') (CHR ''z'') c)"

text \<open>\<^verbatim>\<open>while (i > 0 && s[i] != '\n') i--\<close>.\<close>

fun line_back :: "string \<Rightarrow> nat \<Rightarrow> nat" where
  "line_back s 0 = 0"
| "line_back s (Suc i) = (if s ! Suc i = newline then Suc i else line_back s i)"

lemma block_back_le: "block_back s i k \<le> k"
  by (induction k) auto

lemma skip_block_comment_backward_le: "cc_ir_skip_block_comment_backward s i \<le> i"
  using block_back_le [of s i "i - 1"] by (auto simp: cc_ir_skip_block_comment_backward_def)

lemma str_back_le: "str_back s q k \<le> k"
  by (induction k) auto

lemma skip_str_backward_le: "cc_ir_skip_str_backward s i \<le> i"
  by (simp add: cc_ir_skip_str_backward_def str_back_le)

lemma line_back_le: "line_back s i \<le> i"
  by (induction i) auto

lemmas back_le = skip_block_comment_backward_le skip_str_backward_le line_back_le

text \<open>The characters at which the scan stops outside brackets, with the flag of a statement boundary; the
  second argument is the start of the scan.\<close>

definition lhs_stop :: "string \<Rightarrow> nat \<Rightarrow> nat \<Rightarrow> bool option" where
  "lhs_stop s from i =
    (let c = s ! i in
     if c = CHR '';'' \<or> c = CHR ''{'' \<or> c = CHR ''}'' then Some True
     else if c = CHR ''@'' \<and> i + 1 < from \<and> cc_is_ident_start (s ! (i + 1)) then None
     else if c = CHR '','' \<or> c = CHR ''?'' \<or> c = CHR '':'' \<or> c = CHR ''@'' then Some False
     else if c = CHR ''='' \<and> cc_ir_eq_is_boundary s from i then Some False
     else if c = CHR ''&'' \<and> 0 < i \<and> s ! (i - 1) = CHR ''&'' then Some False
     else if c = CHR ''|'' \<and> 0 < i \<and> s ! (i - 1) = CHR ''|'' then Some False
     else None)"

text \<open>The loop below index \<^verbatim>\<open>i\<close>: the start of the operand and whether a statement starts there.\<close>

function lhs_loop :: "string \<Rightarrow> nat \<Rightarrow> nat \<Rightarrow> nat \<Rightarrow> nat \<Rightarrow> nat \<times> bool" where
  "lhs_loop s from pr bk 0 = (0, True)"
| "lhs_loop s from pr bk (Suc i) =
    (let c = s ! i in
     if c = CHR ''/'' \<and> 0 < i \<and> s ! (i - 1) = CHR ''*''
     then lhs_loop s from pr bk (cc_ir_skip_block_comment_backward s i)
     else if c \<noteq> newline \<and> cc_ir_pos_in_line_comment s i then lhs_loop s from pr bk (line_back s i)
     else if c = dquote \<or> c = squote then lhs_loop s from pr bk (cc_ir_skip_str_backward s i)
     else if c = CHR '')'' then lhs_loop s from (pr + 1) bk i
     else if c = CHR ''('' then (if 0 < pr then lhs_loop s from (pr - 1) bk i else (i + 1, False))
     else if c = CHR '']'' then lhs_loop s from pr (bk + 1) i
     else if c = CHR ''['' then (if 0 < bk then lhs_loop s from pr (bk - 1) i else (i + 1, False))
     else if 0 < pr \<or> 0 < bk then lhs_loop s from pr bk i
     else case lhs_stop s from i of Some stmt \<Rightarrow> (i + 1, stmt) | None \<Rightarrow> lhs_loop s from pr bk i)"
  by pat_completeness auto
termination
  by (relation "measure (\<lambda>(s, from, pr, bk, i). i)") (auto simp: le_imp_less_Suc back_le)

definition cc_ir_find_lhs_start_ex :: "string \<Rightarrow> nat \<Rightarrow> nat \<times> bool" where
  "cc_ir_find_lhs_start_ex s from_pos = lhs_loop s from_pos 0 0 from_pos"

definition cc_ir_trim_ws_left :: "string \<Rightarrow> nat \<Rightarrow> nat \<Rightarrow> nat" where
  "cc_ir_trim_ws_left s a b = a + length (takeWhile is_ws (slice s a b))"

definition cc_ir_trim_ws_right :: "string \<Rightarrow> nat \<Rightarrow> nat \<Rightarrow> nat" where
  "cc_ir_trim_ws_right s a b = b - length (takeWhile is_ws (rev (slice s a b)))"

definition cc_ir_lhs_starts_with_return :: "string \<Rightarrow> nat \<Rightarrow> nat \<Rightarrow> bool" where
  "cc_ir_lhs_starts_with_return s a b =
    (let a = cc_ir_trim_ws_left s a b in
     if b < a + 6 then False
     else if \<not> at s ''return'' a then False
     else if a + 6 < b \<and> cc_ir_is_ident (s ! (a + 6)) then False
     else if 0 < a \<and> cc_ir_is_ident (s ! (a - 1)) then False
     else True)"

section \<open>The forward scan for bound name and body\<close>

definition cc_ir_range_is_ident :: "string \<Rightarrow> nat \<Rightarrow> nat \<Rightarrow> bool" where
  "cc_ir_range_is_ident s a b =
    (a < b \<and> cc_is_ident_start (s ! a) \<and> list_all (\<lambda>i. cc_is_ident_char (s ! i)) [a + 1..<b])"

text \<open>One code character of the scan for the end of an expression: stop, or the new depths.\<close>

definition rhs_step :: "depth \<Rightarrow> char \<Rightarrow> char option \<Rightarrow> depth option" where
  "rhs_step d c c2 =
    (if c = CHR ''('' \<or> c = CHR ''['' \<or> c = CHR ''{'' then Some (depth_step d c)
     else if c = CHR '')'' then (if par d = 0 then None else Some (depth_step d c))
     else if c = CHR '']'' then (if brk d = 0 then None else Some (depth_step d c))
     else if c = CHR ''}'' then (if br d = 0 then None else Some (depth_step d c))
     else if 0 < par d \<or> 0 < brk d \<or> 0 < br d then Some d
     else if c = CHR '';'' \<or> c = CHR '','' \<or> c = CHR ''?'' \<or> c = CHR '':'' then None
     else if c = CHR ''&'' \<and> c2 = Some (CHR ''&'') then None
     else if c = CHR ''|'' \<and> c2 = Some (CHR ''|'') then None
     else Some d)"

function rhs_loop :: "lex_mode \<Rightarrow> depth \<Rightarrow> string \<Rightarrow> nat \<Rightarrow> nat" where
  "rhs_loop m d [] p = p"
| "rhs_loop m d (c # cs) p =
    (case lex_step False m c (peek cs) of (m', skip, code) \<Rightarrow>
       if code then (case rhs_step d c (peek cs) of None \<Rightarrow> p | Some d \<Rightarrow> rhs_loop m' d cs (p + 1))
       else if skip then rhs_loop m' d (tl cs) (p + 2)
       else rhs_loop m' d cs (p + 1))"
  by pat_completeness auto
termination by (relation "measure (\<lambda>(m, d, cs, p). length cs)") auto

definition cc_ir_find_rhs_end :: "string \<Rightarrow> nat \<Rightarrow> nat \<Rightarrow> nat" where
  "cc_ir_find_rhs_end s n from = rhs_loop Code zero_depth (slice s from n) from"

definition cc_ir_find_top_level_semi :: "string \<Rightarrow> nat \<Rightarrow> nat \<Rightarrow> nat" where
  "cc_ir_find_top_level_semi s n from =
    found_or n (top_loop (CHR '';'') Code zero_depth (slice s from n) from)"

record ir_tail =
  bound_at :: "(nat \<times> nat) option"
  body_a :: nat
  body_b :: nat
  span_end :: nat
  is_block :: bool

text \<open>The part after the bound name.\<close>

definition scan_body :: "string \<Rightarrow> nat \<Rightarrow> ir_kind \<Rightarrow> (nat \<times> nat) option \<Rightarrow> nat \<Rightarrow> ir_tail option" where
  "scan_body s n k bnd p =
    (let tail = (\<lambda>a b e blk. Some \<lparr>bound_at = bnd, body_a = a, body_b = b, span_end = e, is_block = blk\<rparr>) in
     if k = CC_IR_UNWRAP_BANG then
       (if s ! p = CHR '';'' then tail p p (p + 1) False
        else if s ! p = CHR ''{'' then
          (case cc_find_matching_brace s n p of
             None \<Rightarrow> None
           | Some rbrace \<Rightarrow>
               (let q = cc_skip_ws_len s n (rbrace + 1)
                in tail (p + 1) rbrace (if q < n \<and> s ! q = CHR '';'' then q + 1 else rbrace + 1) True))
        else (let semi = cc_ir_find_top_level_semi s n p
              in if n \<le> semi then None else tail p semi (semi + 1) False))
     else (let e = cc_ir_find_rhs_end s n p in tail p e e False))"

definition cc_ir_scan_tail :: "string \<Rightarrow> nat \<Rightarrow> nat \<Rightarrow> ir_kind \<Rightarrow> ir_tail option" where
  "cc_ir_scan_tail s n after_sigil k =
    (let p = cc_skip_ws_len s n after_sigil in
     if n \<le> p then None
     else if s ! p = CHR ''('' then
       (case cc_find_matching_paren s n p of
          None \<Rightarrow> None
        | Some rpar \<Rightarrow>
            (let ba = cc_ir_trim_ws_left s (p + 1) rpar; bb = cc_ir_trim_ws_right s ba rpar in
             if bb \<le> ba \<or> \<not> cc_ir_range_is_ident s ba bb then None
             else (let p = cc_skip_ws_len s n (rpar + 1)
                   in if n \<le> p then None else scan_body s n k (Some (ba, bb)) p)))
     else scan_body s n k None p)"

section \<open>Carving a source\<close>

definition cc_ir_append_opaque ::
  "(nat \<Rightarrow> bool) \<Rightarrow> ir_arena \<Rightarrow> ir_node \<Rightarrow> string \<Rightarrow> nat \<Rightarrow> nat \<Rightarrow> ir_arena \<times> ir_node option" where
  "cc_ir_append_opaque ok a file src b e =
    (if e \<le> b then (a, Some file)
     else case cc_ir_node_new ok a CC_IR_OPAQUE_TEXT \<lparr>byte_start = b, byte_end = e, orig_line = 0, orig_col = 0\<rparr> of
       (a, None) \<Rightarrow> (a, None)
     | (a, Some (Node i k sp _ cs cp u)) \<Rightarrow>
         (case cc_ir_strndup ok a (slice src b e) of
            (a, None) \<Rightarrow> (a, None)
          | (a, Some raw) \<Rightarrow> cc_ir_node_append_child ok a file (Node i k sp raw cs cp u)))"

definition cc_ir_lhs_is_parenless :: "string \<Rightarrow> nat \<Rightarrow> nat \<Rightarrow> bool" where
  "cc_ir_lhs_is_parenless s a b =
    (a < b \<and> list_all (\<lambda>(p, c). c \<noteq> CHR ''('' \<and> c \<noteq> CHR '')'') (code_chars False Code (slice s a b) a))"

text \<open>An optional copy, made only if the range is not empty; the outer None is a failed allocation.\<close>

definition dup_range ::
  "(nat \<Rightarrow> bool) \<Rightarrow> ir_arena \<Rightarrow> string \<Rightarrow> nat \<Rightarrow> nat \<Rightarrow> ir_arena \<times> string option option" where
  "dup_range ok a src x y =
    (if x < y then (case cc_ir_strndup ok a (slice src x y) of (a, r) \<Rightarrow> (a, map_option Some r))
     else (a, Some None))"

text \<open>The unwrap node of one sigil: the node with its copies, in the order the code makes them.\<close>

definition unwrap_node ::
  "(nat \<Rightarrow> bool) \<Rightarrow> ir_arena \<Rightarrow> string \<Rightarrow> ir_kind \<Rightarrow> nat \<Rightarrow> nat \<Rightarrow> nat \<Rightarrow> nat \<Rightarrow> bool \<Rightarrow> ir_tail option \<Rightarrow>
   ir_arena \<times> ir_node option" where
  "unwrap_node ok a src k lhs_start e la lb is_stmt tail =
    (case cc_ir_node_new ok a k \<lparr>byte_start = lhs_start, byte_end = e, orig_line = 0, orig_col = 0\<rparr> of
       (a, None) \<Rightarrow> (a, None)
     | (a, Some (Node i k sp _ cs cp _)) \<Rightarrow>
       (case cc_ir_strndup ok a (slice src lhs_start e) of
          (a, None) \<Rightarrow> (a, None)
        | (a, Some raw) \<Rightarrow>
          (case dup_range ok a src la lb of
             (a, None) \<Rightarrow> (a, None)
           | (a, Some lhs) \<Rightarrow>
             (case tail of
                None \<Rightarrow> (a, Some (Node i k sp raw cs cp
                  \<lparr>lhs_text = lhs, binder_name = None, body_text = None, stmt_position = is_stmt\<rparr>))
              | Some t \<Rightarrow>
                (case (case bound_at t of Some (x, y) \<Rightarrow> dup_range ok a src x y | None \<Rightarrow> (a, Some None)) of
                   (a, None) \<Rightarrow> (a, None)
                 | (a, Some bnd) \<Rightarrow>
                   (case dup_range ok a src (body_a t) (body_b t) of
                      (a, None) \<Rightarrow> (a, None)
                    | (a, Some bdy) \<Rightarrow> (a, Some (Node i k sp raw cs cp
                        \<lparr>lhs_text = lhs, binder_name = bnd, body_text = bdy, stmt_position = is_stmt\<rparr>))))))))"

text \<open>The start of the operand of the sigil at a position: not before the cursor, and after a leading
  \<^verbatim>\<open>return\<close>.\<close>

definition carve_lhs :: "string \<Rightarrow> nat \<Rightarrow> nat \<Rightarrow> nat \<times> bool" where
  "carve_lhs src cursor sig =
    (let (l, is_stmt) = cc_ir_find_lhs_start_ex src sig;
         l = (if l < cursor then cursor else l);
         l = (if cc_ir_lhs_starts_with_return src l sig then cc_ir_trim_ws_left src l sig + 6 else l)
     in (l, is_stmt))"

definition next_sigil :: "string \<Rightarrow> nat \<Rightarrow> nat \<Rightarrow> nat" where
  "next_sigil src cursor n =
    (let bang = cc_find_substr_top_level src cursor n ''!>'';
         qmrk = cc_find_substr_top_level src cursor n ''?>''
     in if bang < qmrk then bang else qmrk)"

definition is_declarator :: "string \<Rightarrow> nat \<Rightarrow> nat \<Rightarrow> nat \<Rightarrow> nat \<Rightarrow> bool \<Rightarrow> bool" where
  "is_declarator src n la lb sigil_end is_stmt =
    (is_stmt \<and> la < lb \<and> cc_ir_lhs_is_parenless src la lb \<and>
     (let post = cc_skip_ws_len src n sigil_end in post < n \<and> src ! post = CHR ''(''))"

text \<open>What one round of the loop does: fail, end with the last slice, or go on at a new cursor.\<close>

datatype carve_result = Carve_Fail | Carve_End ir_node | Carve_Next ir_node nat

definition carve_step ::
  "(nat \<Rightarrow> bool) \<Rightarrow> ir_arena \<Rightarrow> ir_node \<Rightarrow> string \<Rightarrow> nat \<Rightarrow> nat \<Rightarrow> ir_arena \<times> carve_result" where
  "carve_step ok a file src n cursor =
    (let sig = next_sigil src cursor n in
     if n \<le> sig then
       (case cc_ir_append_opaque ok a file src cursor n of
          (a, None) \<Rightarrow> (a, Carve_Fail)
        | (a, Some file) \<Rightarrow> (a, Carve_End file))
     else
      (let (lhs_start, is_stmt) = carve_lhs src cursor sig;
           la = cc_ir_trim_ws_left src lhs_start sig;
           lb = cc_ir_trim_ws_right src la sig;
           k = (if src ! sig = CHR ''!'' then CC_IR_UNWRAP_BANG else CC_IR_UNWRAP_Q);
           sigil_end = sig + 2
       in if is_declarator src n la lb sigil_end is_stmt then
            (case cc_ir_append_opaque ok a file src cursor sigil_end of
               (a, None) \<Rightarrow> (a, Carve_Fail)
             | (a, Some file) \<Rightarrow> (a, Carve_Next file sigil_end))
          else
           (let tail = cc_ir_scan_tail src n sigil_end k;
                e = (case tail of Some t \<Rightarrow> span_end t | None \<Rightarrow> sigil_end)
            in case cc_ir_append_opaque ok a file src cursor lhs_start of
                 (a, None) \<Rightarrow> (a, Carve_Fail)
               | (a, Some file) \<Rightarrow>
                 (case unwrap_node ok a src k lhs_start e la lb is_stmt tail of
                    (a, None) \<Rightarrow> (a, Carve_Fail)
                  | (a, Some un) \<Rightarrow>
                    (case cc_ir_node_append_child ok a file un of
                       (a, None) \<Rightarrow> (a, Carve_Fail)
                     | (a, Some file) \<Rightarrow> (a, Carve_Next file e))))))"

section \<open>Ranges of the scans\<close>

lemma slice_length: "length (slice s a b) = min b (length s) - a"
  by (simp add: slice_def)

lemma slice_le: "b \<le> length s \<Longrightarrow> a \<le> b \<Longrightarrow> a + length (slice s a b) = b"
  by (simp add: slice_length)

lemma slice_append: "a \<le> b \<Longrightarrow> b \<le> c \<Longrightarrow> slice s a b @ slice s b c = slice s a c"
proof -
  assume "a \<le> b" "b \<le> c"
  then obtain i j where bc: "b = a + i" "c = a + i + j" by (metis le_Suc_ex)
  have "slice s a (a + k) = take k (drop a s)" "slice s (a + i) (a + i + k) = take k (drop i (drop a s))" for k
    by (simp_all add: slice_def drop_take add.commute)
  from this(1) [of i] this(2) [of j] this(1) [of "i + j"] show ?thesis
    unfolding bc by (simp only: take_add add.assoc)
qed

lemma slice_all: "slice s 0 (length s) = s"
  by (simp add: slice_def)

lemma slice_empty [simp]: "slice s a a = []"
  by (simp add: slice_def)

lemma match_loop_bounds: "match_loop cl sel m d cs p = Some q \<Longrightarrow> p \<le> q \<and> q < p + length cs"
proof (induction cs arbitrary: m d p rule: length_induct)
  case (1 cs)
  show ?case
  proof (cases cs)
    case (Cons c rest)
    obtain m' skip code where st: "lex_step False m c (peek rest) = (m', skip, code)" by (metis prod_cases3)
    have IH: "match_loop cl sel m' d' ys p' = Some q \<Longrightarrow> length ys < length cs \<Longrightarrow> p' \<le> q \<and> q < p' + length ys" for ys d' p'
      using 1(1) by blast
    show ?thesis
    proof (cases code)
      case True
      then show ?thesis using 1(2) st IH [of "depth_step d c" rest "p + 1"] by (auto simp: Cons split: if_splits)
    next
      case False
      show ?thesis
      proof (cases skip)
        case True
        then obtain y ys where "rest = y # ys" using skip_peek [OF st] by blast
        then show ?thesis using 1(2) st False True IH [of d "tl rest" "p + 2"] by (auto simp: Cons)
      next
        case no: False
        then show ?thesis using 1(2) st False IH [of d rest "p + 1"] by (auto simp: Cons)
      qed
    qed
  qed (use 1(2) in simp)
qed

lemma top_loop_bounds: "top_loop ch m d cs p = Some q \<Longrightarrow> p \<le> q \<and> q < p + length cs"
proof -
  have "top_scan ch d L = Some q \<Longrightarrow> q \<in> fst ` set L" for L
    by (induction L arbitrary: d) (force split: if_splits)+
  then have "top_scan ch d L = Some q \<Longrightarrow> \<exists>x. (q, x) \<in> set L" for L by force
  then show "top_loop ch m d cs p = Some q \<Longrightarrow> p \<le> q \<and> q < p + length cs"
    unfolding top_loop_code using code_chars_range by blast
qed

lemma rhs_loop_bounds: "p \<le> rhs_loop m d cs p \<and> rhs_loop m d cs p \<le> p + length cs"
proof (induction cs arbitrary: m d p rule: length_induct)
  case (1 cs)
  show ?case
  proof (cases cs)
    case (Cons c rest)
    obtain m' skip code where st: "lex_step False m c (peek rest) = (m', skip, code)" by (metis prod_cases3)
    have IH: "length ys < length cs \<Longrightarrow> p' \<le> rhs_loop m' d' ys p' \<and> rhs_loop m' d' ys p' \<le> p' + length ys" for ys d' p'
      using 1(1) by blast
    have a: "p + 1 \<le> rhs_loop m' d' rest (p + 1) \<and> rhs_loop m' d' rest (p + 1) \<le> p + 1 + length rest" for d'
      using IH [of rest "p + 1" d'] by (simp add: Cons)
    have b: "p + 2 \<le> rhs_loop m' d (tl rest) (p + 2) \<and> rhs_loop m' d (tl rest) (p + 2) \<le> p + 1 + length rest" if skip
      using IH [of "tl rest" "p + 2" d] skip_peek [OF st that] by (auto simp: Cons)
    show ?thesis
    proof (cases code)
      case True
      show ?thesis
      proof (cases "rhs_step d c (peek rest)")
        case None
        then show ?thesis using st True by (simp add: Cons)
      next
        case (Some d')
        then show ?thesis using st True a [of d'] by (simp add: Cons)
      qed
    next
      case False
      show ?thesis
      proof (cases skip)
        case True
        then show ?thesis using st False b by (simp add: Cons)
      next
        case no: False
        then show ?thesis using st False a [of d] by (simp add: Cons)
      qed
    qed
  qed simp
qed

lemma skip_ws_len_bounds:
  "i \<le> cc_skip_ws_len s n i" "i \<le> n \<Longrightarrow> n \<le> length s \<Longrightarrow> cc_skip_ws_len s n i \<le> n"
proof -
  show "i \<le> cc_skip_ws_len s n i" by (simp add: cc_skip_ws_len_def)
  have "length (takeWhile is_ws (drop i (take n s))) \<le> length (drop i (take n s))" by (rule length_takeWhile_le)
  then show "i \<le> n \<Longrightarrow> n \<le> length s \<Longrightarrow> cc_skip_ws_len s n i \<le> n"
    by (simp add: cc_skip_ws_len_def)
qed

lemma trim_ws_left_bounds: "a \<le> cc_ir_trim_ws_left s a b" "a \<le> b \<Longrightarrow> cc_ir_trim_ws_left s a b \<le> b"
proof -
  show "a \<le> cc_ir_trim_ws_left s a b" by (simp add: cc_ir_trim_ws_left_def)
  have "length (takeWhile is_ws (slice s a b)) \<le> length (slice s a b)" by (rule length_takeWhile_le)
  then show "a \<le> b \<Longrightarrow> cc_ir_trim_ws_left s a b \<le> b" by (simp add: cc_ir_trim_ws_left_def slice_length)
qed

lemma matching_bounds:
  assumes "cc_find_matching_paren s n p = Some q \<or> cc_find_matching_brace s n p = Some q"
  shows "p < q" "q < n"
proof -
  have "p + 1 \<le> q \<and> q < p + 1 + length (drop (p + 1) (take n s))" "p < n"
    using assms
    by (auto simp: cc_find_matching_paren_def cc_find_matching_brace_def split: if_splits dest!: match_loop_bounds)
  then show "p < q" "q < n" by auto
qed

lemma lhs_loop_le: "fst (lhs_loop s from pr bk i) \<le> i"
proof (induction i arbitrary: pr bk rule: less_induct)
  case (less i)
  show ?case
  proof (cases i)
    case (Suc j)
    have IH: "fst (lhs_loop s from x y k) \<le> Suc j" if "k \<le> j" for x y k
      using less [of k x y] that Suc by simp
    show ?thesis
      by (simp add: Suc Let_def IH back_le split: option.split)
  qed simp
qed

text \<open>The start found is right after a boundary, whose kind the flag tells.\<close>

lemma lhs_stop_chars:
  "lhs_stop s from i = Some stmt \<Longrightarrow>
    (stmt \<longleftrightarrow> s ! i \<in> {CHR '';'', CHR ''{'', CHR ''}''}) \<and>
    s ! i \<in> {CHR '';'', CHR ''{'', CHR ''}'', CHR '','', CHR ''?'', CHR '':'', CHR ''@'', CHR ''='', CHR ''&'', CHR ''|''}"
  by (auto simp: lhs_stop_def Let_def split: if_splits)

lemma lhs_loop_boundary:
  assumes "lhs_loop s from pr bk i = (r, stmt)"
  shows "if r = 0 then stmt
    else (stmt \<longleftrightarrow> s ! (r - 1) \<in> {CHR '';'', CHR ''{'', CHR ''}''}) \<and>
      s ! (r - 1) \<in> {CHR '';'', CHR ''{'', CHR ''}'', CHR ''('', CHR ''['', CHR '','', CHR ''?'', CHR '':'', CHR ''@'', CHR ''='',
        CHR ''&'', CHR ''|''}"
  using assms
proof (induction i arbitrary: pr bk rule: less_induct)
  case (less i)
  show ?case
  proof (cases i)
    case 0
    then show ?thesis using less.prems by simp
  next
    case (Suc j)
    have IH: ?thesis if "lhs_loop s from x y k = (r, stmt)" "k \<le> j" for x y k
      using less.IH [of k x y] that Suc by simp
    show ?thesis
    proof (cases "\<exists>x y k. k \<le> j \<and> lhs_loop s from x y k = (r, stmt)")
      case True
      then show ?thesis using IH by blast
    next
      case False
      then have no: "lhs_loop s from x y k \<noteq> (r, stmt)" if "k \<le> j" for x y k using that by blast
      have "r = Suc j \<and> (s ! j \<in> {CHR ''('', CHR ''[''} \<and> \<not> stmt \<or> lhs_stop s from j = Some stmt)"
        using less.prems by (auto simp: Suc Let_def no back_le split: if_splits option.splits)
      then show ?thesis using lhs_stop_chars [of s "from" j stmt] by auto
    qed
  qed
qed

lemma carve_lhs_bounds:
  assumes "carve_lhs src cursor sig = (l, st)" "cursor \<le> sig"
  shows "cursor \<le> l" "l \<le> sig"
proof -
  obtain l0 st0 where l0: "cc_ir_find_lhs_start_ex src sig = (l0, st0)" by fastforce
  have "l0 \<le> sig" using lhs_loop_le [of src sig 0 0 sig] l0 by (simp add: cc_ir_find_lhs_start_ex_def)
  moreover have "cc_ir_trim_ws_left src x sig + 6 \<le> sig" if "cc_ir_lhs_starts_with_return src x sig" for x
    using that by (auto simp: cc_ir_lhs_starts_with_return_def Let_def split: if_splits)
  ultimately show "cursor \<le> l" "l \<le> sig"
    using assms l0 trim_ws_left_bounds(1) [of "if l0 < cursor then cursor else l0" src sig]
    by (auto simp: carve_lhs_def Let_def split: if_splits)
qed

text \<open>The next sigil starts in code, and fits before the end.\<close>

lemma find_substr_bounds:
  assumes "cc_find_substr_top_level src start n needle = p" "p < n" "start \<le> n" "n \<le> length src" "needle \<noteq> []"
  shows "start \<le> p" "p + length needle \<le> n" "at src needle p"
    "\<exists>c. (p, c) \<in> set (code_chars False Code (slice src start n) start)"
proof -
  have "0 < length needle" using assms(5) by simp
  note sub = sub_loop_code [OF this, of "at src needle" Code "slice src start n" start]
  obtain q where q: "sub_loop (length needle) (at src needle) Code (slice src start n) start = Some q" "p = q"
    using assms(1,2) by (auto simp: cc_find_substr_top_level_def found_or_def split: if_splits option.splits)
  obtain x where x: "(q, x) \<in> set (code_chars False Code (slice src start n) start)"
    "q + length needle \<le> start + length (slice src start n)" "at src needle q"
    using first_hit_Some [OF sub [symmetric, THEN trans, OF q(1)]] by auto
  then show "start \<le> p" "p + length needle \<le> n" "at src needle p"
    "\<exists>c. (p, c) \<in> set (code_chars False Code (slice src start n) start)"
    using code_chars_range [OF x(1)] slice_le [OF assms(4,3)] q(2) by auto
qed

lemma next_sigil_bounds:
  assumes "next_sigil src cursor n = sig" "sig < n" "cursor \<le> n" "n \<le> length src"
  shows "cursor \<le> sig" "sig + 2 \<le> n" "at src ''!>'' sig \<or> at src ''?>'' sig"
    "\<exists>c. (sig, c) \<in> set (code_chars False Code (slice src cursor n) cursor)"
proof -
  have "cc_find_substr_top_level src cursor n ''!>'' = sig \<or> cc_find_substr_top_level src cursor n ''?>'' = sig"
    using assms(1) by (auto simp: next_sigil_def Let_def split: if_splits)
  then show "cursor \<le> sig" "sig + 2 \<le> n" "at src ''!>'' sig \<or> at src ''?>'' sig"
    "\<exists>c. (sig, c) \<in> set (code_chars False Code (slice src cursor n) cursor)"
    using find_substr_bounds [OF _ assms(2-4), of "''!>''"] find_substr_bounds [OF _ assms(2-4), of "''?>''"] by auto
qed

lemma semi_bounds:
  assumes "cc_ir_find_top_level_semi s n p < n"
  shows "p \<le> cc_ir_find_top_level_semi s n p"
  using assms top_loop_bounds [of "CHR '';''" Code zero_depth "slice s p n" p]
  by (auto simp: cc_ir_find_top_level_semi_def found_or_def split: option.splits)

lemma rhs_end_bounds:
  "p \<le> cc_ir_find_rhs_end s n p" "p \<le> n \<Longrightarrow> n \<le> length s \<Longrightarrow> cc_ir_find_rhs_end s n p \<le> n"
  using rhs_loop_bounds [of p Code zero_depth "slice s p n"] slice_le [of n s p]
  by (simp_all add: cc_ir_find_rhs_end_def)

lemma scan_body_bounds:
  assumes "scan_body s n k bnd p = Some t" "p < n"
  shows "p \<le> span_end t \<and> (n \<le> length s \<longrightarrow> span_end t \<le> n)"
proof (cases "k = CC_IR_UNWRAP_BANG")
  case bang: True
  show ?thesis
  proof (cases "s ! p = CHR ''{''")
    case True
    then obtain r where r: "cc_find_matching_brace s n p = Some r"
      using assms(1) bang by (auto simp: scan_body_def Let_def split: option.splits)
    have "span_end t = (let q = cc_skip_ws_len s n (r + 1) in if q < n \<and> s ! q = CHR '';'' then q + 1 else r + 1)"
      using assms(1) bang True r by (auto simp: scan_body_def Let_def)
    moreover have "p < r" "r < n" using matching_bounds [OF disjI2, OF r] by auto
    moreover have "r + 1 \<le> cc_skip_ws_len s n (r + 1)" by (rule skip_ws_len_bounds(1))
    ultimately show ?thesis by (auto simp: Let_def)
  next
    case False
    then show ?thesis
      using assms bang semi_bounds [of s n p] by (auto simp: scan_body_def Let_def split: if_splits)
  qed
next
  case False
  then show ?thesis
    using assms rhs_end_bounds(1) [of p s n] rhs_end_bounds(2) [of p n s] by (auto simp: scan_body_def Let_def)
qed

lemma scan_tail_bounds:
  assumes "cc_ir_scan_tail s n i k = Some t"
  shows "i \<le> span_end t \<and> (n \<le> length s \<longrightarrow> span_end t \<le> n)"
proof -
  let ?p = "cc_skip_ws_len s n i"
  have i: "i \<le> ?p" by (rule skip_ws_len_bounds(1))
  have p: "?p < n" using assms by (auto simp: cc_ir_scan_tail_def Let_def split: if_splits)
  show ?thesis
  proof (cases "s ! ?p = CHR ''(''")
    case False
    then show ?thesis
      using assms p i scan_body_bounds [of s n k None ?p t] by (auto simp: cc_ir_scan_tail_def Let_def)
  next
    case True
    then obtain r bnd where r: "cc_find_matching_paren s n ?p = Some r"
      "cc_skip_ws_len s n (r + 1) < n" "scan_body s n k bnd (cc_skip_ws_len s n (r + 1)) = Some t"
      using assms p by (auto simp: cc_ir_scan_tail_def Let_def split: if_splits option.splits)
    have "?p < r" using matching_bounds(1) [OF disjI1, OF r(1)] .
    moreover have "r + 1 \<le> cc_skip_ws_len s n (r + 1)" by (rule skip_ws_len_bounds(1))
    ultimately show ?thesis using scan_body_bounds [OF r(3,2)] i by auto
  qed
qed

lemma carve_step_advances:
  assumes "carve_step ok a file src n cursor = (a', Carve_Next file' c)" "cursor < n" "n \<le> length src"
  shows "cursor < c \<and> c \<le> n"
proof -
  let ?sig = "next_sigil src cursor n"
  have "?sig < n" using assms(1) by (auto simp: carve_step_def Let_def split: if_splits option.splits prod.splits)
  note sg = next_sigil_bounds [OF refl this less_imp_le [OF assms(2)] assms(3)]
  have "c = ?sig + 2 \<or> (\<exists>k t. cc_ir_scan_tail src n (?sig + 2) k = Some t \<and> c = span_end t)"
    using assms(1) by (auto simp: carve_step_def Let_def split: if_splits option.splits prod.splits)
  then show ?thesis using sg(1,2) scan_tail_bounds [of src n "?sig + 2"] assms(3) by fastforce
qed

section \<open>Building and emitting\<close>

text \<open>\<^verbatim>\<open>cc_ir_carve_sigils\<close>: the loop, which moves the cursor forward in each round.\<close>

function cc_ir_carve_sigils ::
  "(nat \<Rightarrow> bool) \<Rightarrow> ir_arena \<Rightarrow> ir_node \<Rightarrow> string \<Rightarrow> nat \<Rightarrow> ir_arena \<times> ir_node option" where
  "cc_ir_carve_sigils ok a file src cursor =
    (if cursor < length src then
       (case carve_step ok a file src (length src) cursor of
          (a, Carve_Fail) \<Rightarrow> (a, None)
        | (a, Carve_End file) \<Rightarrow> (a, Some file)
        | (a, Carve_Next file c) \<Rightarrow> cc_ir_carve_sigils ok a file src c)
     else (a, Some file))"
  by pat_completeness auto
termination
proof (relation "measure (\<lambda>(ok, a, file, src, cursor). length src - cursor)")
  fix ok a fl src cursor x y f c
  assume "cursor < length src" "(x, y) = carve_step ok a fl src (length src) cursor" "y = Carve_Next f c"
  then show "((ok, x, f, src, c), ok, a, fl, src, cursor)
      \<in> measure (\<lambda>(ok, a, file, src, cursor). length src - cursor)"
    using carve_step_advances [of ok a fl src "length src" cursor x f c] by auto
qed simp

declare cc_ir_carve_sigils.simps [simp del]

text \<open>A NULL source has length zero.\<close>

definition cc_ir_build_from_stub ::
  "(nat \<Rightarrow> bool) \<Rightarrow> ir_arena option \<Rightarrow> string \<Rightarrow> ir_arena option \<times> ir_node option" where
  "cc_ir_build_from_stub ok arena src =
    (case arena of
       None \<Rightarrow> (None, None)
     | Some a \<Rightarrow>
       (case cc_ir_node_new ok a CC_IR_FILE \<lparr>byte_start = 0, byte_end = length src, orig_line = 0, orig_col = 0\<rparr> of
          (a, None) \<Rightarrow> (Some a, None)
        | (a, Some (Node i k sp _ cs cp u)) \<Rightarrow>
          (case cc_ir_strndup ok a src of
             (a, None) \<Rightarrow> (Some a, None)
           | (a, Some raw) \<Rightarrow>
             (let file = Node i k sp raw cs cp u in
              if src \<noteq> [] then (case cc_ir_carve_sigils ok a file src 0 of (a, r) \<Rightarrow> (Some a, r))
              else (Some a, Some file)))))"

text \<open>The output buffer is its text and its capacity; the first argument tells which sizes can be
  allocated.\<close>

type_synonym ir_out = "string \<times> nat"

definition cc_ir_emit_append :: "(nat \<Rightarrow> bool) \<Rightarrow> ir_out \<Rightarrow> string \<Rightarrow> ir_out option" where
  "cc_ir_emit_append mem out s =
    (case out of (text, cp) \<Rightarrow>
       if s = [] then Some (text, cp)
       else if cp < length text + length s + 1 then
         (let new_cap = grow_cap (if cp \<noteq> 0 then cp else 1024) (length text + length s + 1)
          in if mem new_cap then Some (text @ s, new_cap) else None)
       else Some (text @ s, cp))"

fun cc_ir_emit_node :: "(nat \<Rightarrow> bool) \<Rightarrow> ir_node \<Rightarrow> ir_out \<Rightarrow> ir_out option"
  and emit_children :: "(nat \<Rightarrow> bool) \<Rightarrow> ir_node list \<Rightarrow> ir_out \<Rightarrow> ir_out option" where
  "cc_ir_emit_node mem (Node i k sp raw cs cp u) out =
    (case k of
       CC_IR_FILE \<Rightarrow> emit_children mem cs out
     | CC_IR_OPAQUE_TEXT \<Rightarrow> cc_ir_emit_append mem out raw
     | CC_IR_UNWRAP_BANG \<Rightarrow> cc_ir_emit_append mem out raw
     | CC_IR_UNWRAP_Q \<Rightarrow> cc_ir_emit_append mem out raw
     | CC_IR_INVALID \<Rightarrow> None)"
| "emit_children mem [] out = Some out"
| "emit_children mem (c # cs) out =
    (case cc_ir_emit_node mem c out of None \<Rightarrow> None | Some out \<Rightarrow> emit_children mem cs out)"

definition cc_ir_emit_text :: "(nat \<Rightarrow> bool) \<Rightarrow> ir_node option \<Rightarrow> string option" where
  "cc_ir_emit_text mem root =
    (case root of
       None \<Rightarrow> None
     | Some r \<Rightarrow>
         (case cc_ir_emit_node mem r ([], 0) of
            None \<Rightarrow> None
          | Some (text, cp) \<Rightarrow> (if cp = 0 \<and> \<not> mem 1 then None else Some text)))"

text \<open>The verifier: the first differing byte, and the verdict on two outputs of a pass.\<close>

definition cc_ir_verify_first_diff :: "string \<Rightarrow> string \<Rightarrow> nat option" where
  "cc_ir_verify_first_diff a b =
    (let m = min (length a) (length b) in
     case filter (\<lambda>i. a ! i \<noteq> b ! i) [0..<m] of
       i # _ \<Rightarrow> Some i
     | [] \<Rightarrow> (if length a \<noteq> length b then Some m else None))"

definition cc_ir_verify_diff :: "bool \<Rightarrow> string \<Rightarrow> string \<Rightarrow> int" where
  "cc_ir_verify_diff active a b =
    (if \<not> active then 0 else case cc_ir_verify_first_diff a b of None \<Rightarrow> 0 | Some _ \<Rightarrow> - 1)"

section \<open>Emitting the tree gives back the source\<close>

text \<open>The children tile a range of the source: each starts where the one before ends and carries its
  slice.  An unwrap node has a sigil of its kind in its range, after its operand.\<close>

definition is_unwrap :: "ir_kind \<Rightarrow> bool" where
  "is_unwrap k = (k \<in> {CC_IR_UNWRAP_BANG, CC_IR_UNWRAP_Q})"

definition sigil_of :: "ir_kind \<Rightarrow> string" where
  "sigil_of k = (if k = CC_IR_UNWRAP_BANG then ''!>'' else ''?>'')"

definition node_ok :: "string \<Rightarrow> ir_node \<Rightarrow> bool" where
  "node_ok src c =
    (byte_start (nd_span c) < byte_end (nd_span c) \<and> nd_raw c = slice src (byte_start (nd_span c)) (byte_end (nd_span c)) \<and>
     (nd_kind c = CC_IR_OPAQUE_TEXT \<or>
      is_unwrap (nd_kind c) \<and>
      (\<exists>p. byte_start (nd_span c) \<le> p \<and> p + 2 \<le> byte_end (nd_span c) \<and> at src (sigil_of (nd_kind c)) p)))"

fun tiles :: "string \<Rightarrow> nat \<Rightarrow> nat \<Rightarrow> ir_node list \<Rightarrow> bool" where
  "tiles src x y [] = (x = y)"
| "tiles src x y (c # cs) = (byte_start (nd_span c) = x \<and> node_ok src c \<and> tiles src (byte_end (nd_span c)) y cs)"

lemma tiles_snoc:
  "tiles src x y cs \<Longrightarrow> node_ok src c \<Longrightarrow> byte_start (nd_span c) = y \<Longrightarrow> byte_end (nd_span c) = z \<Longrightarrow>
    tiles src x z (cs @ [c])"
  by (induction cs arbitrary: x) auto

lemma tiles_le: "tiles src x y cs \<Longrightarrow> x \<le> y"
  by (induction cs arbitrary: x) (auto simp: node_ok_def dest: order_trans [OF less_imp_le])

lemma tiles_text: "tiles src x y cs \<Longrightarrow> concat (map nd_raw cs) = slice src x y"
proof (induction cs arbitrary: x)
  case (Cons c cs)
  have "tiles src (byte_end (nd_span c)) y cs" using Cons.prems by simp
  from Cons.IH [OF this] tiles_le [OF this] Cons.prems show ?case
    by (auto simp: node_ok_def slice_append)
qed simp

lemma emit_append: "cc_ir_emit_append (\<lambda>_. True) (t, cp) s = Some (t @ s, if s = [] then cp else (if cp < length t + length s + 1
    then grow_cap (if cp \<noteq> 0 then cp else 1024) (length t + length s + 1) else cp))"
  by (auto simp: cc_ir_emit_append_def Let_def)

lemma emit_node_raw:
  assumes "node_ok src c"
  shows "\<exists>cp'. cc_ir_emit_node (\<lambda>_. True) c (t, cp) = Some (t @ nd_raw c, cp')"
  using assms by (cases c; cases "nd_kind c") (auto simp: node_ok_def is_unwrap_def emit_append)

lemma emit_tiles:
  "tiles src x y cs \<Longrightarrow> \<exists>cp'. emit_children (\<lambda>_. True) cs (t, cp) = Some (t @ concat (map nd_raw cs), cp')"
proof (induction cs arbitrary: x t cp)
  case (Cons c cs)
  obtain cp1 where e: "cc_ir_emit_node (\<lambda>_. True) c (t, cp) = Some (t @ nd_raw c, cp1)"
    using emit_node_raw [of src c t cp] Cons.prems by auto
  show ?case using Cons.IH [of "byte_end (nd_span c)" "t @ nd_raw c" cp1] Cons.prems e by auto
qed simp

text \<open>One round keeps the tiling.\<close>

definition file_ok :: "string \<Rightarrow> nat \<Rightarrow> ir_node \<Rightarrow> bool" where
  "file_ok src c file = (nd_kind file = CC_IR_FILE \<and> tiles src 0 c (nd_children file))"

lemma node_append_child_ok:
  assumes "cc_ir_node_append_child ok a file c = (a', Some file')" "file_ok src x file" "node_ok src c"
    "byte_start (nd_span c) = x"
  shows "file_ok src (byte_end (nd_span c)) file'"
  using assms tiles_snoc [of src 0 x "nd_children file" c "byte_end (nd_span c)"]
  by (cases "file") (auto simp: cc_ir_node_append_child_def file_ok_def Let_def split: if_splits prod.splits option.splits)

lemma strndup_Some: "cc_ir_strndup ok a s = (a', Some t) \<Longrightarrow> t = s"
  by (auto simp: cc_ir_strndup_def split: prod.splits)

lemma node_new_Some:
  "cc_ir_node_new ok a k sp = (a', Some c) \<Longrightarrow> c = Node (next_id a) k sp [] [] 0 no_unwrap \<or>
    (\<exists>i. c = Node i k sp [] [] 0 no_unwrap)"
  by (auto simp: cc_ir_node_new_def split: prod.splits option.splits)

lemma append_opaque_ok:
  assumes "cc_ir_append_opaque ok a file src x y = (a', Some file')" "file_ok src x file" "x \<le> y"
  shows "file_ok src y file'"
proof (cases "y \<le> x")
  case True
  then show ?thesis using assms by (auto simp: cc_ir_append_opaque_def)
next
  case False
  let ?sp = "\<lparr>byte_start = x, byte_end = y, orig_line = 0, orig_col = 0\<rparr>"
  obtain a1 c a2 raw where c: "cc_ir_node_new ok a CC_IR_OPAQUE_TEXT ?sp = (a1, Some c)"
    "cc_ir_strndup ok a1 (slice src x y) = (a2, Some raw)"
    using assms(1) False by (auto simp: cc_ir_append_opaque_def split: prod.splits option.splits ir_node.splits)
  obtain i where i: "c = Node i CC_IR_OPAQUE_TEXT ?sp [] [] 0 no_unwrap" using node_new_Some [OF c(1)] by blast
  let ?c = "Node i CC_IR_OPAQUE_TEXT ?sp (slice src x y) [] 0 no_unwrap"
  have ap: "cc_ir_node_append_child ok a2 file ?c = (a', Some file')"
    using assms(1) False c strndup_Some [OF c(2)] by (simp add: cc_ir_append_opaque_def i)
  have "node_ok src ?c" using False by (simp add: node_ok_def)
  from node_append_child_ok [OF ap assms(2) this] show ?thesis by simp
qed

lemma unwrap_node_ok:
  assumes "unwrap_node ok a src k x y la lb st t = (a', Some c)"
  shows "nd_kind c = k \<and> nd_span c = \<lparr>byte_start = x, byte_end = y, orig_line = 0, orig_col = 0\<rparr> \<and>
    nd_raw c = slice src x y \<and> nd_children c = []"
proof -
  let ?sp = "\<lparr>byte_start = x, byte_end = y, orig_line = 0, orig_col = 0\<rparr>"
  obtain a1 n a2 raw where n: "cc_ir_node_new ok a k ?sp = (a1, Some n)"
    "cc_ir_strndup ok a1 (slice src x y) = (a2, Some raw)"
    using assms by (auto simp: unwrap_node_def split: prod.splits option.splits ir_node.splits)
  obtain i where i: "n = Node i k ?sp [] [] 0 no_unwrap" using node_new_Some [OF n(1)] by blast
  show ?thesis
    using assms n strndup_Some [OF n(2)]
    by (auto simp: unwrap_node_def i split: prod.splits option.splits)
qed

lemma sigil_kind:
  assumes "at src ''!>'' p \<or> at src ''?>'' p" "p + 2 \<le> length src"
  shows "at src (sigil_of (if src ! p = CHR ''!'' then CC_IR_UNWRAP_BANG else CC_IR_UNWRAP_Q)) p"
proof -
  have "take 2 (drop p src) = [src ! p, src ! (p + 1)]"
    using assms(2) by (simp add: numeral_2_eq_2 take_Suc_conv_app_nth)
  then show ?thesis using assms(1) by (auto simp: at_def sigil_of_def numeral_2_eq_2)
qed

lemma carve_step_unwrap:
  assumes "next_sigil src cursor n < n" "carve_lhs src cursor (next_sigil src cursor n) = (l, st)"
    and "la = cc_ir_trim_ws_left src l (next_sigil src cursor n)"
    and "lb = cc_ir_trim_ws_right src la (next_sigil src cursor n)"
    and "k = (if src ! next_sigil src cursor n = CHR ''!'' then CC_IR_UNWRAP_BANG else CC_IR_UNWRAP_Q)"
    and "t = cc_ir_scan_tail src n (next_sigil src cursor n + 2) k"
    and "e = (case t of Some t \<Rightarrow> span_end t | None \<Rightarrow> next_sigil src cursor n + 2)"
    and "\<not> is_declarator src n la lb (next_sigil src cursor n + 2) st"
  shows "carve_step ok a file src n cursor =
    (case cc_ir_append_opaque ok a file src cursor l of
       (a, None) \<Rightarrow> (a, Carve_Fail)
     | (a, Some file) \<Rightarrow>
         (case unwrap_node ok a src k l e la lb st t of
            (a, None) \<Rightarrow> (a, Carve_Fail)
          | (a, Some un) \<Rightarrow>
              (case cc_ir_node_append_child ok a file un of
                 (a, None) \<Rightarrow> (a, Carve_Fail)
               | (a, Some file) \<Rightarrow> (a, Carve_Next file e))))"
proof -
  have ne: "\<not> n \<le> next_sigil src cursor n" using assms(1) by simp
  show ?thesis
    by (simp only: carve_step_def Let_def assms(2) prod.case assms(3-7) [symmetric] if_not_P [OF assms(8)] if_not_P [OF ne])
qed

lemma carve_step_ok:
  assumes "carve_step ok a file src (length src) cursor = (a', r)" "cursor < length src" "file_ok src cursor file"
  shows "(\<forall>f. r = Carve_End f \<longrightarrow> file_ok src (length src) f) \<and> (\<forall>f c. r = Carve_Next f c \<longrightarrow> file_ok src c f)"
proof -
  let ?n = "length src" let ?sig = "next_sigil src cursor ?n"
  show ?thesis
  proof (cases "?n \<le> ?sig")
    case True
    then show ?thesis
      using assms append_opaque_ok [of ok a "file" src cursor ?n]
      by (auto simp: carve_step_def Let_def split: prod.splits option.splits)
  next
    case False
    then have "?sig < ?n" by simp
    note sg = next_sigil_bounds [OF refl this less_imp_le [OF assms(2)] order_refl]
    obtain l st where l: "carve_lhs src cursor ?sig = (l, st)" by fastforce
    note lb = carve_lhs_bounds [OF l sg(1)]
    let ?la = "cc_ir_trim_ws_left src l ?sig"
    let ?lb = "cc_ir_trim_ws_right src ?la ?sig"
    let ?k = "if src ! ?sig = CHR ''!'' then CC_IR_UNWRAP_BANG else CC_IR_UNWRAP_Q"
    let ?t = "cc_ir_scan_tail src ?n (?sig + 2) ?k"
    let ?e = "case ?t of Some t \<Rightarrow> span_end t | None \<Rightarrow> ?sig + 2"
    have e: "?sig + 2 \<le> ?e" using scan_tail_bounds [of src ?n "?sig + 2" ?k] by (auto split: option.split)
    show ?thesis
    proof (cases "is_declarator src ?n ?la ?lb (?sig + 2) st")
      case True
      then show ?thesis
        using assms False l sg(1) append_opaque_ok [of ok a "file" src cursor "?sig + 2"]
        by (auto simp: carve_step_def Let_def split: prod.splits option.splits)
    next
      case no: False
      define k t e where k: "k = ?k" and t: "t = cc_ir_scan_tail src ?n (?sig + 2) k"
        and e_def: "e = (case t of Some t \<Rightarrow> span_end t | None \<Rightarrow> ?sig + 2)"
      have eq: "carve_step ok a file src ?n cursor = (a', r)" by (rule assms(1))
      note un = carve_step_unwrap [OF \<open>?sig < ?n\<close> l refl refl k t e_def no, of ok a "file"]
      have "file_ok src c f" if r: "r = Carve_Next f c" for f c
      proof -
        obtain a1 f1 a2 un where st: "cc_ir_append_opaque ok a file src cursor l = (a1, Some f1)"
          "unwrap_node ok a1 src k l e ?la ?lb st t = (a2, Some un)"
          "cc_ir_node_append_child ok a2 f1 un = (a', Some f)" "c = e"
          using eq unfolding un r by (auto split: prod.splits option.splits)
        note un = unwrap_node_ok [OF st(2)]
        have "l < e" "?sig + 2 \<le> e" using lb(2) e by (auto simp: e_def t k)
        then have "node_ok src un"
          unfolding node_ok_def using un sigil_kind [OF sg(3,2)] lb(2) by (auto simp: is_unwrap_def k intro!: exI [of _ ?sig])
        from node_append_child_ok [OF st(3) append_opaque_ok [OF st(1) assms(3) lb(1)] this] show ?thesis
          using un st(4) by simp
      qed
      moreover have "r \<noteq> Carve_End f" for f
        using eq unfolding un by (auto split: prod.splits option.splits)
      ultimately show ?thesis by blast
    qed
  qed
qed

lemma carve_ok:
  "cc_ir_carve_sigils ok a file src cursor = (a', Some file') \<Longrightarrow> cursor \<le> length src \<Longrightarrow> file_ok src cursor file \<Longrightarrow>
    file_ok src (length src) file'"
proof (induction "length src - cursor" arbitrary: a "file" cursor rule: less_induct)
  case less
  show ?case
  proof (cases "cursor < length src")
    case False
    then show ?thesis using less.prems by (simp add: cc_ir_carve_sigils.simps)
  next
    case True
    obtain a1 r where st: "carve_step ok a file src (length src) cursor = (a1, r)" by fastforce
    note R = carve_step_ok [OF st True less.prems(3)]
    show ?thesis
    proof (cases r)
      case (Carve_Next f c)
      have adv: "cursor < c" "c \<le> length src" using carve_step_advances [of ok a "file" src "length src" cursor a1 f c] st True Carve_Next by auto
      have "cc_ir_carve_sigils ok a1 f src c = (a', Some file')"
        using less.prems(1) True st Carve_Next by (simp add: cc_ir_carve_sigils.simps [of ok a "file"])
      from less.hyps [OF _ this adv(2)] show ?thesis using adv True R Carve_Next by auto
    qed (use less.prems(1) True st R in \<open>auto simp: cc_ir_carve_sigils.simps [of ok a "file"]\<close>)
  qed
qed

lemma build_ok:
  assumes "cc_ir_build_from_stub ok a src = (a', Some file)"
  shows "file_ok src (length src) file"
proof -
  let ?sp = "\<lparr>byte_start = 0, byte_end = length src, orig_line = 0, orig_col = 0\<rparr>"
  obtain a0 a1 c a2 raw where n: "a = Some a0" "cc_ir_node_new ok a0 CC_IR_FILE ?sp = (a1, Some c)" "cc_ir_strndup ok a1 src = (a2, Some raw)"
    using assms by (auto simp: cc_ir_build_from_stub_def split: prod.splits option.splits ir_node.splits)
  obtain i where i: "c = Node i CC_IR_FILE ?sp [] [] 0 no_unwrap" using node_new_Some [OF n(2)] by blast
  have "file_ok src 0 (Node i CC_IR_FILE ?sp raw [] 0 no_unwrap)" by (simp add: file_ok_def)
  then show ?thesis
    using assms n i carve_ok [of ok a2 "Node i CC_IR_FILE ?sp raw [] 0 no_unwrap" src 0]
    by (auto simp: cc_ir_build_from_stub_def Let_def split: if_splits prod.splits)
qed

text \<open>Allocation succeeds as long as blocks can be allocated and sizes do not wrap.\<close>

lemma alloc_Some: "n \<noteq> 0 \<Longrightarrow> \<exists>r. snd (cc_ir_alloc (\<lambda>_. True) a n) = Some r"
  by (auto simp: cc_ir_alloc_def Let_def cc_ir_arena_new_block_def split: option.split)

lemma alloc_next_id: "next_id (fst (cc_ir_alloc ok a n)) = next_id a"
  by (auto simp: cc_ir_alloc_def Let_def split: option.split)

lemma of_nat_ne: "0 < n \<Longrightarrow> n < 2 ^ 64 \<Longrightarrow> (of_nat n :: u64) \<noteq> 0"
  by (metis neq0_conv unat_0 unat_of_nat_small)

lemma strndup_total:
  assumes "length s + 1 < 2 ^ 64"
  shows "\<exists>a'. cc_ir_strndup (\<lambda>_. True) a s = (a', Some s)"
proof -
  have "(of_nat (length s + 1) :: u64) \<noteq> 0" by (rule of_nat_ne) (use assms in auto)
  then have "(of_nat (length s) + 1 :: u64) \<noteq> 0" by (simp add: add.commute)
  from alloc_Some [OF this, of a] show ?thesis
    by (cases "cc_ir_alloc (\<lambda>_. True) a (of_nat (length s) + 1)") (auto simp: cc_ir_strndup_def)
qed

lemma node_new_total: "\<exists>a' i. cc_ir_node_new (\<lambda>_. True) a k sp = (a', Some (Node i k sp [] [] 0 no_unwrap))"
  using alloc_Some [of sizeof_node a]
  by (cases "cc_ir_alloc (\<lambda>_. True) a sizeof_node") (auto simp: cc_ir_node_new_def sizeof_node_def)

text \<open>The capacity of a child array stays within twice the number of children.\<close>

definition cap_ok :: "ir_node \<Rightarrow> bool" where
  "cap_ok f = (nd_cap f \<le> 4 + 2 * length (nd_children f))"

lemma tiles_length: "tiles src x y cs \<Longrightarrow> x + length cs \<le> y"
  by (induction cs arbitrary: x) (fastforce simp: node_ok_def)+

lemma append_child_total:
  assumes "cap_ok f" "length (nd_children f) < 2 ^ 58"
  shows "\<exists>a' f'. cc_ir_node_append_child (\<lambda>_. True) a f c = (a', Some f') \<and> cap_ok f'"
proof -
  obtain i k sp raw cs cp u where f: "f = Node i k sp raw cs cp u" by (cases f)
  let ?m = "if cp \<noteq> 0 then cp * 2 else 4"
  have "(of_nat (?m * 8) :: u64) \<noteq> 0"
    by (rule of_nat_ne) (use assms in \<open>auto simp: f cap_ok_def\<close>)
  then have "(of_nat ?m * 8 :: u64) \<noteq> 0" by simp
  from alloc_Some [OF this, of a] show ?thesis
    using assms(1) by (cases "cc_ir_alloc (\<lambda>_. True) a (of_nat ?m * 8)")
      (auto simp: f cc_ir_node_append_child_def Let_def cap_ok_def)
qed

lemma dup_range_total:
  assumes "length src + 1 < 2 ^ 64"
  shows "\<exists>a' r. dup_range (\<lambda>_. True) a src x y = (a', Some r)"
proof -
  have "length (slice src x y) + 1 < 2 ^ 64" using assms by (simp add: slice_length)
  from strndup_total [OF this, of a] show ?thesis by (auto simp: dup_range_def split: prod.split)
qed

lemma append_opaque_total:
  assumes "cap_ok f" "length (nd_children f) < 2 ^ 58" "length src < 2 ^ 58"
  shows "\<exists>a' f'. cc_ir_append_opaque (\<lambda>_. True) a f src x y = (a', Some f') \<and> cap_ok f'"
proof (cases "y \<le> x")
  case True
  then show ?thesis using assms by (simp add: cc_ir_append_opaque_def)
next
  case False
  let ?sp = "\<lparr>byte_start = x, byte_end = y, orig_line = 0, orig_col = 0\<rparr>"
  obtain a1 i where n: "cc_ir_node_new (\<lambda>_. True) a CC_IR_OPAQUE_TEXT ?sp = (a1, Some (Node i CC_IR_OPAQUE_TEXT ?sp [] [] 0 no_unwrap))"
    using node_new_total by blast
  have "length (slice src x y) + 1 < 2 ^ 64" using assms(3) by (simp add: slice_length)
  then obtain a2 where s: "cc_ir_strndup (\<lambda>_. True) a1 (slice src x y) = (a2, Some (slice src x y))"
    using strndup_total by blast
  show ?thesis
    using append_child_total [OF assms(1,2), of a2 "Node i CC_IR_OPAQUE_TEXT ?sp (slice src x y) [] 0 no_unwrap"] False n s
    by (simp add: cc_ir_append_opaque_def)
qed

lemma unwrap_node_total:
  assumes "length src < 2 ^ 58"
  shows "\<exists>a' c. unwrap_node (\<lambda>_. True) a src k x y la lb st t = (a', Some c)"
proof -
  let ?sp = "\<lparr>byte_start = x, byte_end = y, orig_line = 0, orig_col = 0\<rparr>"
  have len: "length src + 1 < 2 ^ 64" "length (slice src x y) + 1 < 2 ^ 64" using assms by (simp_all add: slice_length)
  obtain a1 i where n: "cc_ir_node_new (\<lambda>_. True) a k ?sp = (a1, Some (Node i k ?sp [] [] 0 no_unwrap))"
    using node_new_total by blast
  obtain a2 where s: "cc_ir_strndup (\<lambda>_. True) a1 (slice src x y) = (a2, Some (slice src x y))"
    using strndup_total [OF len(2)] by blast
  obtain a3 lhs where l: "dup_range (\<lambda>_. True) a2 src la lb = (a3, Some lhs)" using dup_range_total [OF len(1)] by blast
  show ?thesis
  proof (cases t)
    case None
    then show ?thesis using n s l by (simp add: unwrap_node_def)
  next
    case (Some tl)
    have "\<exists>a4 bnd. (case bound_at tl of Some (x, y) \<Rightarrow> dup_range (\<lambda>_. True) a3 src x y | None \<Rightarrow> (a3, Some None)) = (a4, Some bnd)"
      using dup_range_total [OF len(1), of a3] by (auto split: option.split)
    then obtain a4 bnd where b: "(case bound_at tl of Some (x, y) \<Rightarrow> dup_range (\<lambda>_. True) a3 src x y | None \<Rightarrow> (a3, Some None)) = (a4, Some bnd)"
      by blast
    obtain a5 bdy where "dup_range (\<lambda>_. True) a4 src (body_a tl) (body_b tl) = (a5, Some bdy)"
      using dup_range_total [OF len(1)] by blast
    then show ?thesis using n s l b Some by (simp add: unwrap_node_def)
  qed
qed

lemma file_ok_children: "file_ok src x f \<Longrightarrow> x \<le> length src \<Longrightarrow> length src < 2 ^ 58 \<Longrightarrow> length (nd_children f) < 2 ^ 58"
  using tiles_length [of src 0 x "nd_children f"] by (auto simp: file_ok_def)

lemma carve_step_total:
  assumes "cap_ok f" "file_ok src cursor f" "cursor < length src" "length src < 2 ^ 58"
  shows "\<exists>a' r. carve_step (\<lambda>_. True) a f src (length src) cursor = (a', r) \<and> r \<noteq> Carve_Fail \<and>
    (\<forall>g c. r = Carve_Next g c \<longrightarrow> cap_ok g)"
proof -
  let ?n = "length src" let ?sig = "next_sigil src cursor ?n"
  have kids: "length (nd_children f) < 2 ^ 58" by (rule file_ok_children [OF assms(2)]) (use assms in auto)
  note O = append_opaque_total [OF assms(1) kids assms(4)]
  show ?thesis
  proof (cases "?n \<le> ?sig")
    case True
    then show ?thesis using O [of a cursor ?n] by (auto simp: carve_step_def Let_def)
  next
    case False
    then have "?sig < ?n" by simp
    note sg = next_sigil_bounds [OF refl this less_imp_le [OF assms(3)] order_refl]
    obtain l st where l: "carve_lhs src cursor ?sig = (l, st)" by fastforce
    note lb = carve_lhs_bounds [OF l sg(1)]
    let ?la = "cc_ir_trim_ws_left src l ?sig"
    let ?lb = "cc_ir_trim_ws_right src ?la ?sig"
    let ?k = "if src ! ?sig = CHR ''!'' then CC_IR_UNWRAP_BANG else CC_IR_UNWRAP_Q"
    let ?t = "cc_ir_scan_tail src ?n (?sig + 2) ?k"
    let ?e = "case ?t of Some t \<Rightarrow> span_end t | None \<Rightarrow> ?sig + 2"
    obtain a1 f1 where p: "cc_ir_append_opaque (\<lambda>_. True) a f src cursor l = (a1, Some f1)" "cap_ok f1" using O by blast
    have f1: "file_ok src l f1" by (rule append_opaque_ok [OF p(1) assms(2) lb(1)])
    have kids1: "length (nd_children f1) < 2 ^ 58"
      by (rule file_ok_children [OF f1]) (use lb sg assms(4) in auto)
    obtain a2 un where u: "unwrap_node (\<lambda>_. True) a1 src ?k l ?e ?la ?lb st ?t = (a2, Some un)"
      using unwrap_node_total [OF assms(4)] by blast
    obtain a3 f3 where ap: "cc_ir_node_append_child (\<lambda>_. True) a2 f1 un = (a3, Some f3)" "cap_ok f3"
      using append_child_total [OF p(2) kids1] by blast
    show ?thesis
      using False l p u ap O [of a cursor "?sig + 2"] by (auto simp: carve_step_def Let_def simp del: add_2_eq_Suc')
  qed
qed

lemma carve_total:
  "cap_ok f \<Longrightarrow> file_ok src cursor f \<Longrightarrow> cursor \<le> length src \<Longrightarrow> length src < 2 ^ 58 \<Longrightarrow>
    \<exists>a' f'. cc_ir_carve_sigils (\<lambda>_. True) a f src cursor = (a', Some f')"
proof (induction "length src - cursor" arbitrary: a f cursor rule: less_induct)
  case less
  show ?case
  proof (cases "cursor < length src")
    case False
    then show ?thesis by (simp add: cc_ir_carve_sigils.simps)
  next
    case True
    obtain a1 r where st: "carve_step (\<lambda>_. True) a f src (length src) cursor = (a1, r)" "r \<noteq> Carve_Fail"
      "\<And>g c. r = Carve_Next g c \<Longrightarrow> cap_ok g"
      using carve_step_total [OF less.prems(1,2) True less.prems(4)] by blast
    show ?thesis
    proof (cases r)
      case (Carve_Next g c)
      have adv: "cursor < c" "c \<le> length src" using carve_step_advances [of "\<lambda>_. True" a f src "length src" cursor a1 g c] st True Carve_Next by auto
      have "\<exists>a' f'. cc_ir_carve_sigils (\<lambda>_. True) a1 g src c = (a', Some f')"
        using less.hyps [of c g a1] adv True st(3) [OF Carve_Next] carve_step_ok [OF st(1) True less.prems(2)] Carve_Next less.prems(4)
        by auto
      then show ?thesis using True st(1) Carve_Next by (simp add: cc_ir_carve_sigils.simps [of _ a f])
    qed (use True st in \<open>auto simp: cc_ir_carve_sigils.simps [of _ a f]\<close>)
  qed
qed

text \<open>C13: Building the tree of a source and emitting it gives back the source, byte for byte.  With memory,
  building and emitting succeed on every source below $2^{58}$ bytes; and whenever building
  succeeds, the children of the root tile the source: consecutive nonempty slices, each an opaque
  text or an unwrap node with its sigil inside.\<close>
theorem ir_emit_build_roundtrip:
  "(length src < 2 ^ 58 \<longrightarrow> (\<exists>file. snd (cc_ir_build_from_stub (\<lambda>_. True) (Some a) src) = Some file)) \<and>
   (\<forall>ok file. snd (cc_ir_build_from_stub ok (Some a) src) = Some file \<longrightarrow>
      cc_ir_emit_text (\<lambda>_. True) (Some file) = Some src \<and> tiles src 0 (length src) (nd_children file))"
proof (intro conjI impI allI)
  assume len: "length src < 2 ^ 58"
  let ?sp = "\<lparr>byte_start = 0, byte_end = length src, orig_line = 0, orig_col = 0\<rparr>"
  obtain a1 i where n: "cc_ir_node_new (\<lambda>_. True) a CC_IR_FILE ?sp = (a1, Some (Node i CC_IR_FILE ?sp [] [] 0 no_unwrap))"
    using node_new_total by blast
  obtain a2 where s: "cc_ir_strndup (\<lambda>_. True) a1 src = (a2, Some src)" using strndup_total [of src a1] len by auto
  let ?f = "Node i CC_IR_FILE ?sp src [] 0 no_unwrap"
  obtain a3 f where "cc_ir_carve_sigils (\<lambda>_. True) a2 ?f src 0 = (a3, Some f)"
    using carve_total [of ?f src 0 a2] len by (auto simp: cap_ok_def file_ok_def)
  then show "\<exists>file. snd (cc_ir_build_from_stub (\<lambda>_. True) (Some a) src) = Some file"
    using n s by (simp add: cc_ir_build_from_stub_def Let_def)
next
  fix ok "file"
  assume "snd (cc_ir_build_from_stub ok (Some a) src) = Some file"
  then have "file_ok src (length src) file" using build_ok [of ok "Some a" src _ "file"] by (metis prod.collapse)
  then show t: "tiles src 0 (length src) (nd_children file)" by (simp add: file_ok_def)
  obtain cp where "emit_children (\<lambda>_. True) (nd_children file) ([], 0) = Some (src, cp)"
    using emit_tiles [OF t, of "[]" 0] tiles_text [OF t] by (auto simp: slice_all)
  then show "cc_ir_emit_text (\<lambda>_. True) (Some file) = Some src"
    using \<open>file_ok src (length src) file\<close> by (cases "file") (simp add: cc_ir_emit_text_def file_ok_def)
qed

definition demo_ir_src :: string where
  "demo_ir_src = ''int x = f(a) !> return 1; y = g(b) ?> 0, z; T !>(E) h(int);''"

theorem ir_emit_build_roundtrip_witness:
  "\<exists>file. snd (cc_ir_build_from_stub (\<lambda>_. True) (cc_ir_arena_create True (\<lambda>_. True)) demo_ir_src) = Some file \<and>
     map nd_kind (nd_children file) = [CC_IR_OPAQUE_TEXT, CC_IR_UNWRAP_BANG, CC_IR_OPAQUE_TEXT, CC_IR_UNWRAP_Q, CC_IR_OPAQUE_TEXT, CC_IR_OPAQUE_TEXT] \<and>
     cc_ir_emit_text (\<lambda>_. True) (Some file) = Some demo_ir_src"
proof -
  have d: "map_option (\<lambda>file. map nd_kind (nd_children file))
      (snd (cc_ir_build_from_stub (\<lambda>_. True) (cc_ir_arena_create True (\<lambda>_. True)) demo_ir_src)) =
    Some [CC_IR_OPAQUE_TEXT, CC_IR_UNWRAP_BANG, CC_IR_OPAQUE_TEXT, CC_IR_UNWRAP_Q, CC_IR_OPAQUE_TEXT, CC_IR_OPAQUE_TEXT]"
    by code_simp
  obtain a where a: "cc_ir_arena_create True (\<lambda>_. True) = Some a"
    by (simp add: cc_ir_arena_create_def cc_ir_arena_new_block_def)
  show ?thesis using d ir_emit_build_roundtrip [of demo_ir_src a] unfolding a by auto
qed

text \<open>The verifier accepts two outputs exactly when they are equal or it is switched off; otherwise
  the reported position is the length of their longest common prefix.\<close>
theorem verify_diff_exact:
  "(cc_ir_verify_diff active a b = 0 \<longleftrightarrow> \<not> active \<or> a = b) \<and>
   (cc_ir_verify_first_diff a b = Some i \<longleftrightarrow>
      a \<noteq> b \<and> i \<le> length a \<and> i \<le> length b \<and> take i a = take i b \<and> (i < length a \<and> i < length b \<longrightarrow> a ! i \<noteq> b ! i))"
proof -
  let ?m = "min (length a) (length b)"
  let ?D = "filter (\<lambda>i. a ! i \<noteq> b ! i) [0..<?m]"
  have eq: "take i a = take i b \<longleftrightarrow> (\<forall>j < i. a ! j = b ! j)" if "i \<le> ?m" for i
    using that by (auto simp: list_eq_iff_nth_eq)
  show ?thesis
  proof (cases ?D)
    case Nil
    then have same: "a ! j = b ! j" if "j < ?m" for j using that by (auto simp: filter_empty_conv)
    then have "a = b \<longleftrightarrow> length a = length b" by (auto simp: list_eq_iff_nth_eq)
    moreover have "take ?m a = take ?m b" using eq [of ?m] same by simp
    moreover have "i \<le> length a \<and> i \<le> length b \<and> take i a = take i b \<and> (i < length a \<and> i < length b \<longrightarrow> a ! i \<noteq> b ! i) \<longleftrightarrow> i = ?m"
      using same \<open>take ?m a = take ?m b\<close> by (auto simp: min_def)
    moreover have "cc_ir_verify_first_diff a b = (if length a \<noteq> length b then Some ?m else None)"
      using Nil by (simp only: cc_ir_verify_first_diff_def Let_def list.case)
    ultimately show ?thesis by (auto simp: cc_ir_verify_diff_def)
  next
    case (Cons d ds)
    then obtain us vs where sp: "[0..<?m] = us @ d # vs" "\<forall>u \<in> set us. a ! u = b ! u" "a ! d \<noteq> b ! d"
      by (auto simp: filter_eq_Cons_iff)
    have "length us < length [0..<?m]" unfolding sp(1) by simp
    then have lu: "length us < ?m" by simp
    then have "d = length us" using arg_cong [OF sp(1), of "\<lambda>l. l ! length us"] by simp
    moreover have "us = take (length us) [0..<?m]" unfolding sp(1) by simp
    moreover have "take k [0..<?m] = [0..<k]" if "k < ?m" for k using that by simp
    ultimately have "us = [0..<d]" "d < ?m" using lu by metis+
    then have us: "set us = {..<d}" "d < ?m" by (metis atLeast_upt, blast)
    have first: "a ! j = b ! j" if "j < d" for j using sp(2) us that by auto
    have "a \<noteq> b" using sp(3) by auto
    have "i = d" if "i \<le> ?m" "\<forall>j < i. a ! j = b ! j" "i < length a \<and> i < length b \<longrightarrow> a ! i \<noteq> b ! i" for i
      using that sp(3) us(2) first by (metis min_less_iff_conj nat_neq_iff not_le order_less_le_trans)
    then show ?thesis
      using Cons \<open>a \<noteq> b\<close> eq first us(2) sp(3)
      by (auto simp: cc_ir_verify_diff_def cc_ir_verify_first_diff_def Let_def)
  qed
qed

section \<open>The arena\<close>

lemma align_unat:
  assumes "unat n + 7 < 2 ^ 64"
  shows "unat (cc_ir_align n) = (unat n + 7) div 8 * 8"
proof -
  let ?w = "n + 7"
  have w: "unat ?w = unat n + 7" using assms by (simp add: unat_word_ariths)
  have "(?w AND 7) + (?w AND NOT 7) = (?w AND 7) OR (?w AND NOT 7)"
    by (rule disjunctive_add) (simp add: bit_simps)
  also have "\<dots> = ?w" by (rule bit_word_eqI) (auto simp: bit_simps)
  finally have "?w AND NOT 7 = ?w - (?w AND 7)" by (metis add_diff_cancel_left')
  moreover have m: "unat (?w AND 7) = unat ?w mod 8" using and_mask_mod [of 3 ?w] by simp
  moreover have "?w AND 7 \<le> ?w" using m by (simp add: word_le_nat_alt)
  ultimately have "unat (?w AND NOT 7) = unat ?w - unat ?w mod 8" by (simp add: unat_sub)
  then show ?thesis by (simp add: cc_ir_align_def w minus_mod_eq_div_mult)
qed

text \<open>Block \<^verbatim>\<open>i\<close> counts from the oldest.\<close>

definition blk :: "ir_arena \<Rightarrow> nat \<Rightarrow> ir_block" where
  "blk a i = rev (blocks a) ! i"

definition block_ok :: "ir_block \<Rightarrow> bool" where
  "block_ok b = (unat (blk_used b) \<le> unat (blk_cap b) \<and> unat (blk_cap b) \<le> 2 ^ 62 \<and> 8 dvd unat (blk_used b))"

definition arena_ok :: "ir_arena \<Rightarrow> bool" where
  "arena_ok a = (blocks a \<noteq> [] \<and> (\<forall>b \<in> set (blocks a). block_ok b))"

definition fits :: "ir_arena \<Rightarrow> region \<Rightarrow> bool" where
  "fits a r = (case r of (i, off, len) \<Rightarrow>
    i < length (blocks a) \<and> unat off + unat len \<le> unat (blk_used (blk a i)))"

definition disjoint :: "region \<Rightarrow> region \<Rightarrow> bool" where
  "disjoint r1 r2 = (case (r1, r2) of ((i, x, n), (j, y, m)) \<Rightarrow>
    i \<noteq> j \<or> unat x + unat n \<le> unat y \<or> unat y + unat m \<le> unat x)"

lemma create_ok: "cc_ir_arena_create True ok = Some a \<Longrightarrow> arena_ok a"
  by (auto simp: cc_ir_arena_create_def cc_ir_arena_new_block_def arena_ok_def block_ok_def
      CC_IR_ARENA_BLOCK_DEFAULT_def split: if_splits)

lemma new_block_ok:
  assumes "cc_ir_arena_new_block m n = Some b" "unat n \<le> 2 ^ 62"
  shows "block_ok b" "blk_used b = 0" "unat n \<le> unat (blk_cap b)"
  using assms by (auto simp: cc_ir_arena_new_block_def block_ok_def CC_IR_ARENA_BLOCK_DEFAULT_def Let_def word_le_nat_alt
      word_less_nat_alt split: if_splits)

text \<open>The head block an allocation uses, and its effect.\<close>

lemma alloc_head:
  assumes "arena_ok a" "0 < unat n" "unat n \<le> 2 ^ 62 - 8" "cc_ir_alloc ok a n = (a', Some (i, off, len))"
  obtains b older where "blocks a' = b\<lparr>blk_used := blk_used b + len\<rparr> # older" "i = length older" "off = blk_used b"
    "len = cc_ir_align n" "block_ok b" "unat (blk_used b) + unat len \<le> unat (blk_cap b)"
    "b # older = blocks a \<or> older = blocks a \<and> blk_used b = 0"
proof -
  let ?n = "cc_ir_align n" let ?b = "hd (blocks a)"
  have nu: "unat ?n = (unat n + 7) div 8 * 8" using align_unat [of n] assms(3) by simp
  then have n62: "unat ?n \<le> 2 ^ 62" using assms(3) by simp
  have n0: "n \<noteq> 0" using assms(2) by auto
  obtain b0 old0 where b0: "blocks a = b0 # old0" "block_ok b0"
    using assms(1) by (cases "blocks a") (auto simp: arena_ok_def)
  have add: "unat (blk_used b0 + ?n) = unat (blk_used b0) + unat ?n"
    using b0(2) n62 by (simp add: block_ok_def unat_word_ariths)
  show thesis
  proof (cases "blk_cap b0 < blk_used b0 + ?n")
    case False
    then have "unat (blk_used b0) + unat ?n \<le> unat (blk_cap b0)" using add by (simp add: word_less_nat_alt)
    then show thesis using assms(4) n0 b0 False by (intro that [of b0 old0]) (auto simp: cc_ir_alloc_def Let_def)
  next
    case True
    then obtain nb where nb: "cc_ir_arena_new_block (ok (length (blocks a))) ?n = Some nb"
      using assms(4) n0 b0 by (auto simp: cc_ir_alloc_def Let_def split: option.splits)
    show thesis
      using assms(4) n0 b0 True nb new_block_ok [OF nb n62]
      by (intro that [of nb "blocks a"]) (auto simp: cc_ir_alloc_def Let_def)
  qed
qed

lemma alloc_ok:
  assumes "arena_ok a" "0 < unat n" "unat n \<le> 2 ^ 62 - 8" "cc_ir_alloc ok a n = (a', Some (i, off, len))"
  shows "arena_ok a'" "fits a' (i, off, len)" "8 dvd unat off" "unat n \<le> unat len"
    "fits a r \<Longrightarrow> fits a' r \<and> disjoint r (i, off, len)"
proof -
  from alloc_head [OF assms] obtain b older where A: "blocks a' = b\<lparr>blk_used := blk_used b + len\<rparr> # older" "i = length older"
    "off = blk_used b" "len = cc_ir_align n" "block_ok b" "unat (blk_used b) + unat len \<le> unat (blk_cap b)"
    "b # older = blocks a \<or> older = blocks a \<and> blk_used b = 0" by blast
  have nu: "unat len = (unat n + 7) div 8 * 8" using align_unat [of n] assms(3) A(4) by simp
  have cap: "unat (blk_cap b) \<le> 2 ^ 62" "8 dvd unat (blk_used b)" using A(5) by (auto simp: block_ok_def)
  have add: "unat (blk_used b + len) = unat (blk_used b) + unat len" using A(6) cap by (simp add: unat_word_ariths)
  have old: "\<forall>x \<in> set older. block_ok x" using assms(1) A(7) by (auto simp: arena_ok_def dest: sym)
  show "arena_ok a'" using A cap add nu old by (auto simp: arena_ok_def block_ok_def)
  have head: "blk a' (length older) = b\<lparr>blk_used := blk_used b + len\<rparr>" by (simp add: blk_def A(1) nth_append)
  show "fits a' (i, off, len)" using A(1,2,3) add head by (simp add: fits_def)
  show "8 dvd unat off" using A(3) cap by simp
  show "unat n \<le> unat len" using nu by linarith
  show "fits a' r \<and> disjoint r (i, off, len)" if f: "fits a r"
  proof -
    obtain j x m where r: "r = (j, x, m)" by (cases r)
    have j: "j < length (blocks a)" "unat x + unat m \<le> unat (blk_used (blk a j))" using f by (auto simp: fits_def r)
    have A7: "blocks a = b # older \<or> blocks a = older" using A(7) by auto
    have len: "length (blocks a) \<le> length (blocks a')" using A(1) A7 by auto
    show ?thesis
    proof (cases "j = length older")
      case True
      then have "blocks a = b # older" using A7 j(1) by auto
      then have "blk a j = b" using True by (simp add: blk_def nth_append)
      then show ?thesis using j True A(1,2,3) head add by (auto simp: fits_def disjoint_def r)
    next
      case False
      then have lt: "j < length older" using j(1) A7 by auto
      have "blk a' j = rev older ! j" using lt by (simp add: blk_def A(1) nth_append)
      moreover have "blk a j = rev older ! j" using lt A7 by (auto simp: blk_def nth_append)
      ultimately show ?thesis using j False len A(2) by (auto simp: fits_def disjoint_def r)
    qed
  qed
qed

text \<open>A sequence of allocations and the regions they return.\<close>

fun alloc_run :: "(nat \<Rightarrow> bool) \<Rightarrow> ir_arena \<Rightarrow> u64 list \<Rightarrow> ir_arena \<times> region list" where
  "alloc_run ok a [] = (a, [])"
| "alloc_run ok a (n # ns) =
    (case cc_ir_alloc ok a n of (a, r) \<Rightarrow>
       (case alloc_run ok a ns of (a, rs) \<Rightarrow> (a, (case r of Some r \<Rightarrow> r # rs | None \<Rightarrow> rs))))"

lemma alloc_None_same: "cc_ir_alloc ok a n = (a', None) \<Longrightarrow> a' = a"
  by (auto simp: cc_ir_alloc_def Let_def split: if_splits option.splits)

lemma alloc_run_ok:
  "alloc_run ok a ns = (a', rs) \<Longrightarrow> arena_ok a \<Longrightarrow> list_all (\<lambda>n. 0 < unat n \<and> unat n \<le> 2 ^ 62 - 8) ns \<Longrightarrow>
    arena_ok a' \<and> (\<forall>r. fits a r \<longrightarrow> fits a' r \<and> (\<forall>x \<in> set rs. disjoint r x)) \<and>
    sorted_wrt disjoint rs \<and> (\<forall>(i, off, len) \<in> set rs. fits a' (i, off, len) \<and> 8 dvd unat off)"
proof (induction ns arbitrary: a rs)
  case (Cons n ns)
  obtain a1 r where al: "cc_ir_alloc ok a n = (a1, r)" by fastforce
  obtain rs1 where run: "alloc_run ok a1 ns = (a', rs1)" using Cons.prems(1) al by (auto split: prod.splits)
  have rs: "rs = (case r of Some r \<Rightarrow> r # rs1 | None \<Rightarrow> rs1)" using Cons.prems(1) al run by simp
  show ?case
  proof (cases r)
    case None
    then have "a1 = a" "rs = rs1" using alloc_None_same al rs by auto
    then show ?thesis using Cons.IH [OF run] Cons.prems(2,3) by simp
  next
    case (Some x)
    obtain i off len where x: "x = (i, off, len)" by (cases x)
    note A = alloc_ok [OF Cons.prems(2), of n ok a1 i off len]
    have ok: "arena_ok a1" "fits a1 x" "8 dvd unat off" "\<And>r. fits a r \<Longrightarrow> fits a1 r \<and> disjoint r x"
      using A Cons.prems(3) al Some x by auto
    from Cons.IH [OF run ok(1)] Cons.prems(3) show ?thesis using ok rs Some x by auto
  qed
qed simp

text \<open>C17: The regions an arena hands out never overlap: whatever sizes below $2^{62}$ are requested, each
  region is aligned to eight bytes, lies inside its block and is disjoint from all others; with memory every
  request is served with at least the size asked for.\<close>
theorem arena_regions_disjoint:
  assumes "cc_ir_arena_create True ok = Some a" "list_all (\<lambda>n. 0 < unat n \<and> unat n \<le> 2 ^ 62 - 8) ns"
    and "alloc_run ok a ns = (a', rs)"
  shows "sorted_wrt disjoint rs \<and>
    list_all (\<lambda>(i, off, len). i < length (blocks a') \<and> 8 dvd unat off \<and> unat off + unat len \<le> unat (blk_cap (blk a' i))) rs \<and>
    ((\<forall>i. ok i) \<longrightarrow> list_all2 (\<lambda>n (_, _, len). unat n \<le> unat len) ns rs)"
proof -
  note R = alloc_run_ok [OF assms(3) create_ok [OF assms(1)] assms(2)]
  have "block_ok (blk a' i)" if "i < length (blocks a')" for i
  proof -
    have "blk a' i \<in> set (rev (blocks a'))" unfolding blk_def by (rule nth_mem) (simp add: that)
    then show ?thesis using R by (simp add: arena_ok_def)
  qed
  then have inside: "list_all (\<lambda>(i, off, len). i < length (blocks a') \<and> 8 dvd unat off \<and> unat off + unat len \<le> unat (blk_cap (blk a' i))) rs"
    using R by (fastforce simp: list_all_iff fits_def block_ok_def)
  have "list_all2 (\<lambda>n (_, _, len). unat n \<le> unat len) ns rs" if ok: "\<forall>i. ok i"
    using assms(2,3) create_ok [OF assms(1)]
  proof (induction ns arbitrary: a rs)
    case (Cons n ns)
    have "ok = (\<lambda>_. True)" using ok by auto
    moreover have "n \<noteq> 0" using Cons.prems(1) by auto
    ultimately obtain a1 i off len where al: "cc_ir_alloc ok a n = (a1, Some (i, off, len))"
      using alloc_Some [of n a] by (metis prod.collapse prod_cases3)
    have n: "0 < unat n" "unat n \<le> 2 ^ 62 - 8" using Cons.prems(1) by auto
    note A = alloc_ok [OF Cons.prems(3) n al]
    obtain rs1 where run: "alloc_run ok a1 ns = (a', rs1)" "rs = (i, off, len) # rs1"
      using Cons.prems(2) al by (auto split: prod.splits)
    show ?case using Cons.IH [OF _ run(1) A(1)] Cons.prems(1) A(4) run(2) by auto
  qed simp
  then show ?thesis using R inside by blast
qed

theorem arena_regions_disjoint_witness:
  "\<exists>a. cc_ir_arena_create True (\<lambda>_. True) = Some a \<and>
    list_all (\<lambda>(i, off, len). 8 dvd unat off) (snd (alloc_run (\<lambda>_. True) a [152, 3, 100000]))"
proof -
  obtain a where a: "cc_ir_arena_create True (\<lambda>_. True) = Some a"
    by (simp add: cc_ir_arena_create_def cc_ir_arena_new_block_def)
  obtain a' rs where r: "alloc_run (\<lambda>_. True) a [152, 3, 100000] = (a', rs)" by fastforce
  have "list_all (\<lambda>n. 0 < unat n \<and> unat n \<le> 2 ^ 62 - 8) [152 :: u64, 3, 100000]" by simp
  from arena_regions_disjoint [OF a this r] show ?thesis using a r by (auto simp: list_all_iff)
qed

text \<open>Above that range the rounding wraps: a request within seven bytes of $2^{64}$ is answered with
  an empty region.\<close>

lemma alloc_rounding_wraps:
  assumes "arena_ok a" "2 ^ 64 - 7 \<le> unat n"
  shows "\<exists>a' i off. cc_ir_alloc ok a n = (a', Some (i, off, 0))"
proof -
  have lt: "unat n < 2 ^ 64" using unsigned_less [of n] by simp
  have "(unat n + 7) mod 2 ^ 64 = unat n + 7 - 2 ^ 64" using assms(2) lt by (subst mod_if) (simp add: mod_less)
  then have "unat (n + 7) = unat n + 7 - 2 ^ 64" by (simp add: unat_word_ariths)
  then have "unat (n + 7) < 8" using lt by linarith
  then have small: "unat ((n + 7) AND 7) = unat (n + 7)" using and_mask_mod [of 3 "n + 7"] by simp
  have "(n + 7) AND NOT 7 = 0"
  proof -
    have e: "(n + 7) AND 7 = n + 7" using small by (metis word_unat_eq_iff)
    have "((n + 7) AND 7) AND NOT 7 = 0" by (simp add: and.assoc)
    then show ?thesis by (simp only: e)
  qed
  moreover obtain b older where "blocks a = b # older" "block_ok b"
    using assms(1) by (cases "blocks a") (auto simp: arena_ok_def)
  moreover have "n \<noteq> 0" using assms(2) by auto
  ultimately show ?thesis
    by (simp add: cc_ir_alloc_def cc_ir_align_def Let_def block_ok_def word_less_nat_alt word_le_nat_alt not_less)
qed



end
