(* ===== verification/Name_Tables.thy ===== *)
theory Name_Tables
  imports Text_Scan
begin

text \<open>
  The name tables of the compiler: the string set and the string map of the passes
  (util/string_set.h), the registry of functions that return results
  (util/result_fn_registry.c) and the specifications of result types with their mangled names
  (result_spec.c).  The tables are arrays searched from the front.  Two
  interfaces describe them, a set of names and a map with a rule for a second entry of
  the same name, and every table is shown to implement one of them.  A flag tells whether an
  allocation succeeds.  Clearing a table gives the empty one.
\<close>

section \<open>Interfaces\<close>

locale name_set =
  fixes empty :: 's and add :: "'s \<Rightarrow> string \<Rightarrow> 's" and contains :: "'s \<Rightarrow> string \<Rightarrow> bool"
    and ok :: "'s \<Rightarrow> bool" and valid :: "string \<Rightarrow> bool"
  assumes ok_empty: "ok empty"
    and ok_add: "ok s \<Longrightarrow> ok (add s n)"
    and contains_empty: "\<not> contains empty n"
    and contains_add: "ok s \<Longrightarrow> valid n \<Longrightarrow> valid m \<Longrightarrow> contains (add s n) m \<longleftrightarrow> m = n \<or> contains s m"
begin

lemma ok_adds: "ok s \<Longrightarrow> ok (foldl add s ns)"
  by (induction ns arbitrary: s) (simp_all add: ok_add)

lemma contains_adds_from:
  "ok s \<Longrightarrow> list_all valid ns \<Longrightarrow> valid m \<Longrightarrow> contains (foldl add s ns) m \<longleftrightarrow> m \<in> set ns \<or> contains s m"
  by (induction ns arbitrary: s) (auto simp: ok_add contains_add)

lemma contains_adds: "list_all valid ns \<Longrightarrow> valid m \<Longrightarrow> contains (foldl add empty ns) m \<longleftrightarrow> m \<in> set ns"
  by (simp add: contains_adds_from ok_empty contains_empty)

end

text \<open>The rule \<^verbatim>\<open>merge\<close> gives the value kept when a name that may have one already is set.\<close>

locale name_map =
  fixes empty :: 's and set_entry :: "'s \<Rightarrow> 'k \<Rightarrow> 'v \<Rightarrow> 's" and get :: "'s \<Rightarrow> 'k \<Rightarrow> 'v option"
    and merge :: "'v option \<Rightarrow> 'v \<Rightarrow> 'v" and ok :: "'s \<Rightarrow> bool" and valid :: "'k \<Rightarrow> 'v \<Rightarrow> bool"
  assumes ok_empty: "ok empty"
    and ok_set: "ok m \<Longrightarrow> ok (set_entry m k v)"
    and get_empty: "get empty k = None"
    and get_set: "ok m \<Longrightarrow> valid k v \<Longrightarrow> valid k' w \<Longrightarrow>
      get (set_entry m k v) k' = (if k' = k then Some (merge (get m k) v) else get m k')"
begin

definition merged :: "'v option \<Rightarrow> 'v list \<Rightarrow> 'v option" where
  "merged = foldl (\<lambda>o' v. Some (merge o' v))"

lemma ok_sets: "ok m \<Longrightarrow> ok (foldl (\<lambda>m (k, v). set_entry m k v) m kvs)"
  by (induction kvs arbitrary: m) (auto simp: ok_set)

lemma get_sets_from:
  "ok m \<Longrightarrow> list_all (\<lambda>(k, v). valid k v) kvs \<Longrightarrow> valid k w \<Longrightarrow>
   get (foldl (\<lambda>m (k, v). set_entry m k v) m kvs) k = merged (get m k) (map snd (filter (\<lambda>(k', _). k' = k) kvs))"
proof (induction kvs arbitrary: m)
  case (Cons a kvs)
  obtain ka va where a: "a = (ka, va)" by force
  show ?case
    using Cons.IH [of "set_entry m ka va"] Cons.prems by (auto simp: a ok_set get_set merged_def)
qed (simp add: merged_def)

lemma get_sets:
  "list_all (\<lambda>(k, v). valid k v) kvs \<Longrightarrow> valid k w \<Longrightarrow>
   get (foldl (\<lambda>m (k, v). set_entry m k v) empty kvs) k = merged None (map snd (filter (\<lambda>(k', _). k' = k) kvs))"
  by (simp add: get_sets_from ok_empty get_empty)

end

text \<open>The usual rules: the last entry counts, or the first.\<close>

definition last_wins :: "'v option \<Rightarrow> 'v \<Rightarrow> 'v" where
  "last_wins old v = v"

definition first_wins :: "'v option \<Rightarrow> 'v \<Rightarrow> 'v" where
  "first_wins old v = (case old of Some u \<Rightarrow> u | None \<Rightarrow> v)"

lemma merge_last: "foldl (\<lambda>o' v. Some (last_wins o' v)) o0 vs = (if vs = [] then o0 else Some (last vs))"
  by (induction vs arbitrary: o0) (auto simp: last_wins_def)

lemma merge_first: "foldl (\<lambda>o' v. Some (first_wins o' v)) o0 vs =
  (case o0 of Some u \<Rightarrow> Some u | None \<Rightarrow> (case vs of [] \<Rightarrow> None | v # _ \<Rightarrow> Some v))"
  by (induction vs arbitrary: o0) (auto simp: first_wins_def split: option.splits list.splits)

section \<open>C strings\<close>

text \<open>What \<^verbatim>\<open>strlen\<close> and the string functions see of a buffer: the bytes before the first zero.\<close>

definition c_str :: "string \<Rightarrow> string" where
  "c_str s = takeWhile (\<lambda>c. c \<noteq> CHR 0x00) s"

definition plain :: "string \<Rightarrow> bool" where
  "plain s = (CHR 0x00 \<notin> set s)"

lemma c_str_plain [simp]: "plain s \<Longrightarrow> c_str s = s"
  by (auto simp: c_str_def plain_def takeWhile_eq_all_conv)

text \<open>\<^verbatim>\<open>snprintf\<close> into a buffer of the given size.\<close>

definition fit :: "nat \<Rightarrow> string \<Rightarrow> string" where
  "fit sz s = take (sz - 1) s"

text \<open>White space in the sense of \<^verbatim>\<open>isspace\<close> removed at both ends.\<close>

definition trim_space :: "string \<Rightarrow> string" where
  "trim_space s = rev (dropWhile lit_space (rev (dropWhile lit_space s)))"

section \<open>String set and string map\<close>

record string_set =
  set_items :: "string list"
  set_cap :: nat

definition cc_string_set_init :: string_set where
  "cc_string_set_init = \<lparr>set_items = [], set_cap = 0\<rparr>"

definition cc_string_set_add :: "string_set \<Rightarrow> string option \<Rightarrow> string_set" where
  "cc_string_set_add s name =
    (case name of
       None \<Rightarrow> s
     | Some n \<Rightarrow>
         (if n \<in> set (set_items s) then s
          else (let new_cap = (if set_cap s \<le> length (set_items s) then (if set_cap s \<noteq> 0 then set_cap s * 2 else 8)
                               else set_cap s)
                in \<lparr>set_items = set_items s @ [n], set_cap = new_cap\<rparr>)))"

definition cc_string_set_contains :: "string_set \<Rightarrow> string option \<Rightarrow> bool" where
  "cc_string_set_contains s name = (case name of None \<Rightarrow> False | Some n \<Rightarrow> n \<in> set (set_items s))"

definition cc_string_set_free :: "string_set \<Rightarrow> string_set" where
  "cc_string_set_free s = \<lparr>set_items = [], set_cap = 0\<rparr>"

text \<open>A map entry holds a value or NULL.\<close>

record string_map =
  map_entries :: "(string \<times> string option) list"
  map_cap :: nat

definition cc_string_map_init :: string_map where
  "cc_string_map_init = \<lparr>map_entries = [], map_cap = 0\<rparr>"

text \<open>The first entry with the key gets the new value.\<close>

fun replace_entry :: "'k \<Rightarrow> 'v \<Rightarrow> ('k \<times> 'v) list \<Rightarrow> ('k \<times> 'v) list" where
  "replace_entry k v [] = []"
| "replace_entry k v ((k', v') # es) = (if k' = k then (k, v) # es else (k', v') # replace_entry k v es)"

definition cc_string_map_set :: "string_map \<Rightarrow> string option \<Rightarrow> string option \<Rightarrow> string_map" where
  "cc_string_map_set m key v =
    (case key of
       None \<Rightarrow> m
     | Some k \<Rightarrow>
         (if k \<in> fst ` set (map_entries m) then m\<lparr>map_entries := replace_entry k v (map_entries m)\<rparr>
          else (let new_cap = (if map_cap m \<le> length (map_entries m) then (if map_cap m \<noteq> 0 then map_cap m * 2 else 16)
                               else map_cap m)
                in \<lparr>map_entries = map_entries m @ [(k, v)], map_cap = new_cap\<rparr>)))"

definition cc_string_map_get :: "string_map \<Rightarrow> string option \<Rightarrow> string option" where
  "cc_string_map_get m key =
    (case key of None \<Rightarrow> None | Some k \<Rightarrow> (case map_of (map_entries m) k of Some v \<Rightarrow> v | None \<Rightarrow> None))"

definition cc_string_map_free :: "string_map \<Rightarrow> string_map" where
  "cc_string_map_free m = \<lparr>map_entries = [], map_cap = 0\<rparr>"

section \<open>Registry of result functions\<close>

record name_table =
  nt_names :: "string list"
  nt_cap :: nat

definition cc__name_set_clear :: "name_table \<Rightarrow> name_table" where
  "cc__name_set_clear s = \<lparr>nt_names = [], nt_cap = 0\<rparr>"

definition same_name :: "string \<Rightarrow> string \<Rightarrow> bool" where
  "same_name stored name = (length (c_str stored) = length name \<and> take (length name) stored = name)"

definition cc__name_set_contains :: "name_table \<Rightarrow> string \<Rightarrow> bool" where
  "cc__name_set_contains s name =
    (name \<noteq> [] \<and> (\<exists>n \<in> set (nt_names s). same_name n name))"

text \<open>The two flags are the results of growing the arrays and of making the copies.\<close>

definition cc__name_set_add :: "bool \<Rightarrow> bool \<Rightarrow> name_table \<Rightarrow> string \<Rightarrow> name_table" where
  "cc__name_set_add grow dup s name =
    (if name = [] then s
     else if cc__name_set_contains s name then s
     else if length (nt_names s) = nt_cap s \<and> \<not> grow then s
     else (let nc = (if length (nt_names s) = nt_cap s then (if nt_cap s \<noteq> 0 then nt_cap s * 2 else 16) else nt_cap s)
           in if \<not> dup then s\<lparr>nt_cap := nc\<rparr> else \<lparr>nt_names = nt_names s @ [name], nt_cap = nc\<rparr>))"

record err_table =
  et_entries :: "(string \<times> string) list"
  et_cap :: nat

definition cc__name_err_map_clear :: "err_table \<Rightarrow> err_table" where
  "cc__name_err_map_clear m = \<lparr>et_entries = [], et_cap = 0\<rparr>"

definition cc__name_err_map_get :: "err_table \<Rightarrow> string \<Rightarrow> string option" where
  "cc__name_err_map_get m name =
    (if name = [] then None else map_option snd (find (\<lambda>(n, e). same_name n name) (et_entries m)))"

definition cc__name_err_map_set :: "bool \<Rightarrow> bool \<Rightarrow> err_table \<Rightarrow> string \<Rightarrow> string \<Rightarrow> err_table" where
  "cc__name_err_map_set grow dup m name err =
    (if name = [] \<or> err = [] then m
     else if \<exists>(n, e) \<in> set (et_entries m). same_name n name then m
     else if length (et_entries m) = et_cap m \<and> \<not> grow then m
     else (let nc = (if length (et_entries m) = et_cap m then (if et_cap m \<noteq> 0 then et_cap m * 2 else 16) else et_cap m)
           in if \<not> dup then m\<lparr>et_cap := nc\<rparr> else \<lparr>et_entries = et_entries m @ [(name, err)], et_cap = nc\<rparr>))"

record fn_registry =
  g_result_fns :: name_table
  g_result_fn_err :: err_table

definition cc_result_fn_registry_clear :: "fn_registry \<Rightarrow> fn_registry" where
  "cc_result_fn_registry_clear r =
    \<lparr>g_result_fns = cc__name_set_clear (g_result_fns r), g_result_fn_err = cc__name_err_map_clear (g_result_fn_err r)\<rparr>"

definition cc_result_fn_registry_contains :: "fn_registry \<Rightarrow> string \<Rightarrow> bool" where
  "cc_result_fn_registry_contains r n = cc__name_set_contains (g_result_fns r) n"

definition cc_result_fn_registry_add :: "bool \<Rightarrow> bool \<Rightarrow> fn_registry \<Rightarrow> string \<Rightarrow> fn_registry" where
  "cc_result_fn_registry_add grow dup r n = r\<lparr>g_result_fns := cc__name_set_add grow dup (g_result_fns r) n\<rparr>"

definition cc_result_fn_registry_add_typed :: "bool \<Rightarrow> bool \<Rightarrow> fn_registry \<Rightarrow> string \<Rightarrow> string \<Rightarrow> fn_registry" where
  "cc_result_fn_registry_add_typed grow dup r n e =
    r\<lparr>g_result_fns := cc__name_set_add grow dup (g_result_fns r) n,
      g_result_fn_err := cc__name_err_map_set grow dup (g_result_fn_err r) n e\<rparr>"

definition cc_result_fn_registry_get_err_type :: "fn_registry \<Rightarrow> string \<Rightarrow> nat \<Rightarrow> string option" where
  "cc_result_fn_registry_get_err_type r name out_sz =
    (if out_sz = 0 then None
     else case cc__name_err_map_get (g_result_fn_err r) name of
       None \<Rightarrow> None
     | Some e \<Rightarrow> (if out_sz < length (c_str e) + 1 then None else Some (c_str e)))"

definition empty_registry :: fn_registry where
  "empty_registry = \<lparr>g_result_fns = \<lparr>nt_names = [], nt_cap = 0\<rparr>, g_result_fn_err = \<lparr>et_entries = [], et_cap = 0\<rparr>\<rparr>"

section \<open>Result specifications\<close>

definition cc__type_aliases :: "(string \<times> string) list" where
  "cc__type_aliases =
    [(''IoError'', ''CCIoError''), (''IoErrorKind'', ''CCIoErrorKind''), (''Error'', ''CCError''), (''ErrorKind'', ''CCErrorKind''),
     (''NetError'', ''CCNetError''), (''Arena'', ''CCArena''), (''File'', ''CCFile''), (''String'', ''CCString''),
     (''Slice'', ''CCSlice'')]"

definition cc__core_builtin_result_types :: "string list" where
  "cc__core_builtin_result_types =
    [''int_CCError'', ''bool_CCError'', ''size_t_CCError'', ''voidptr_CCError'', ''charptr_CCError'', ''void_CCError'']"

record predeclared =
  pre_concrete :: string
  pre_ok :: string
  pre_err :: string
  pre_mangled_ok :: string
  pre_mangled_err :: string

definition predeclare :: "string \<Rightarrow> string \<Rightarrow> string \<Rightarrow> string \<Rightarrow> string \<Rightarrow> predeclared" where
  "predeclare c ty er m e = \<lparr>pre_concrete = c, pre_ok = ty, pre_err = er, pre_mangled_ok = m, pre_mangled_err = e\<rparr>"

definition cc__stdlib_predeclared_result_specs :: "predeclared list" where
  "cc__stdlib_predeclared_result_specs =
    [predeclare ''CCResult_CCSlice_CCIoError'' ''CCSlice'' ''CCIoError'' ''CCSlice'' ''CCIoError'',
     predeclare ''CCResult_size_t_CCIoError'' ''size_t'' ''CCIoError'' ''size_t'' ''CCIoError'',
     predeclare ''CCResult_CCDirIterptr_CCIoError'' ''CCDirIter*'' ''CCIoError'' ''CCDirIterptr'' ''CCIoError'',
     predeclare ''CCResult_CCDirEntry_CCIoError'' ''CCDirEntry'' ''CCIoError'' ''CCDirEntry'' ''CCIoError'',
     predeclare ''CCResult_bool_CCIoError'' ''bool'' ''CCIoError'' ''bool'' ''CCIoError'',
     predeclare ''CCResult_int64_t_CC_I64ParseError'' ''int64_t'' ''CC_I64ParseError'' ''int64_t'' ''CC_I64ParseError'',
     predeclare ''CCResult_uint64_t_CC_U64ParseError'' ''uint64_t'' ''CC_U64ParseError'' ''uint64_t'' ''CC_U64ParseError'',
     predeclare ''CCResult_double_CC_F64ParseError'' ''double'' ''CC_F64ParseError'' ''double'' ''CC_F64ParseError'',
     predeclare ''CCResult_bool_CC_BoolParseError'' ''bool'' ''CC_BoolParseError'' ''bool'' ''CC_BoolParseError'']"

definition cc__normalize_type_name :: "string \<Rightarrow> string" where
  "cc__normalize_type_name name = (case map_of cc__type_aliases name of Some cc \<Rightarrow> fit 128 cc | None \<Rightarrow> name)"

definition underscore :: "string \<Rightarrow> string" where
  "underscore w = (if w \<noteq> [] \<and> hd w \<noteq> CHR ''_'' then CHR ''_'' # w else w)"

text \<open>One character of the mangling loop; the output is held in reverse.\<close>

definition mangle_char :: "nat \<Rightarrow> string \<Rightarrow> char \<Rightarrow> string" where
  "mangle_char out_sz w c =
    (if is_ws c then underscore w
     else if c = CHR ''*'' then (if length w + 3 < out_sz - 1 then ''rtp'' @ w else w)
     else if cc_is_ident_char c then c # w
     else underscore w)"

fun mangle_loop :: "nat \<Rightarrow> string \<Rightarrow> string \<Rightarrow> string" where
  "mangle_loop out_sz w [] = w"
| "mangle_loop out_sz w (c # cs) =
    (if length w < out_sz - 1 then mangle_loop out_sz (mangle_char out_sz w c) cs else w)"

definition cc_result_spec_mangle_type :: "string \<Rightarrow> nat \<Rightarrow> string" where
  "cc_result_spec_mangle_type src out_sz =
    (if src = [] \<or> out_sz = 0 then []
     else (let s = rev (dropWhile is_ws (rev (dropWhile is_ws src)));
               w = dropWhile (\<lambda>c. c = CHR ''_'') (mangle_loop out_sz [] s)
           in cc__normalize_type_name (rev w)))"

definition cc_result_spec_format_name :: "string option \<Rightarrow> string option \<Rightarrow> nat \<Rightarrow> string" where
  "cc_result_spec_format_name mangled_ok mangled_err out_sz =
    (let txt = (\<lambda>x. case x of Some s \<Rightarrow> s | None \<Rightarrow> [])
     in fit out_sz (''CCResult_'' @ txt mangled_ok @ ''_'' @ txt mangled_err))"

definition cc__result_key_matches :: "string list \<Rightarrow> string \<Rightarrow> string \<Rightarrow> bool \<Rightarrow> bool" where
  "cc__result_key_matches ks mangled_ok mangled_err prefixed =
    (let key = (if prefixed then cc_result_spec_format_name (Some mangled_ok) (Some mangled_err) 256
                else fit 256 (mangled_ok @ ''_'' @ mangled_err))
     in key \<in> set ks)"

definition cc_result_spec_is_core_builtin :: "string \<Rightarrow> string \<Rightarrow> bool" where
  "cc_result_spec_is_core_builtin mangled_ok mangled_err =
    cc__result_key_matches cc__core_builtin_result_types mangled_ok mangled_err False"

definition cc_result_spec_is_stdlib_predeclared :: "string \<Rightarrow> string \<Rightarrow> bool" where
  "cc_result_spec_is_stdlib_predeclared mangled_ok mangled_err =
    (cc_result_spec_format_name (Some mangled_ok) (Some mangled_err) 256
       \<in> pre_concrete ` set cc__stdlib_predeclared_result_specs)"

definition cc_result_spec_is_stdlib_predeclared_name :: "string \<Rightarrow> bool" where
  "cc_result_spec_is_stdlib_predeclared_name n = (n \<in> pre_concrete ` set cc__stdlib_predeclared_result_specs)"

definition cc_result_spec_lookup_stdlib_predeclared :: "string \<Rightarrow> predeclared option" where
  "cc_result_spec_lookup_stdlib_predeclared n = find (\<lambda>p. pre_concrete p = n) cc__stdlib_predeclared_result_specs"

definition cc_result_spec_lookup_stdlib_predeclared_by_index :: "int \<Rightarrow> predeclared option" where
  "cc_result_spec_lookup_stdlib_predeclared_by_index i =
    (if i < 0 \<or> int (length cc__stdlib_predeclared_result_specs) \<le> i then None
     else Some (cc__stdlib_predeclared_result_specs ! nat i))"

record result_spec =
  ok_type :: string
  err_type :: string
  mangled_ok :: string
  mangled_err :: string
  concrete_name :: string

record spec_table =
  specs :: "result_spec list"
  spec_cap :: nat

definition cc_result_spec_table_init :: spec_table where
  "cc_result_spec_table_init = \<lparr>specs = [], spec_cap = 0\<rparr>"

definition cc_result_spec_table_reset :: "spec_table \<Rightarrow> spec_table" where
  "cc_result_spec_table_reset t = t\<lparr>specs := []\<rparr>"

definition cc_result_spec_table_free :: "spec_table \<Rightarrow> spec_table" where
  "cc_result_spec_table_free t = \<lparr>specs = [], spec_cap = 0\<rparr>"

definition cc_result_spec_table_get :: "spec_table \<Rightarrow> nat \<Rightarrow> result_spec option" where
  "cc_result_spec_table_get t idx = (if length (specs t) \<le> idx then None else Some (specs t ! idx))"

definition cc_result_spec_table_find_by_name :: "spec_table \<Rightarrow> string \<Rightarrow> result_spec option" where
  "cc_result_spec_table_find_by_name t n = find (\<lambda>s. concrete_name s = n) (specs t)"

definition cc_result_spec_table_find_by_mangled :: "spec_table \<Rightarrow> string \<Rightarrow> string \<Rightarrow> result_spec option" where
  "cc_result_spec_table_find_by_mangled t mo me = find (\<lambda>s. mangled_ok s = mo \<and> mangled_err s = me) (specs t)"

definition make_spec :: "string \<Rightarrow> string \<Rightarrow> string \<Rightarrow> string \<Rightarrow> result_spec" where
  "make_spec ok er mo me =
    \<lparr>ok_type = fit 128 ok, err_type = fit 128 er, mangled_ok = fit 128 mo, mangled_err = fit 128 me,
     concrete_name = cc_result_spec_format_name (Some mo) (Some me) 256\<rparr>"

definition cc_result_spec_table_add ::
  "bool \<Rightarrow> spec_table \<Rightarrow> string \<Rightarrow> string \<Rightarrow> string \<Rightarrow> string \<Rightarrow> spec_table \<times> result_spec option" where
  "cc_result_spec_table_add mem t ok er mo me =
    (case cc_result_spec_table_find_by_mangled t mo me of
       Some s \<Rightarrow> (t, Some s)
     | None \<Rightarrow>
         (if spec_cap t \<le> length (specs t) \<and> \<not> mem then (t, None)
          else (let cp = (if spec_cap t \<le> length (specs t) then (if spec_cap t \<noteq> 0 then spec_cap t * 2 else 16)
                          else spec_cap t);
                    s = make_spec ok er mo me
                in (\<lparr>specs = specs t @ [s], spec_cap = cp\<rparr>, Some s))))"

definition cc_result_spec_emit_decl :: "result_spec \<Rightarrow> nat \<Rightarrow> string" where
  "cc_result_spec_emit_decl s out_sz =
    fit out_sz
     (''#ifndef '' @ concrete_name s @ ''_DEFINED'' @ [newline] @
      ''#define '' @ concrete_name s @ ''_DEFINED 1'' @ [newline] @
      ''CC_DECL_RESULT_SPEC('' @ concrete_name s @ '', '' @ ok_type s @ '', '' @ err_type s @ '')'' @ [newline] @
      ''#endif'' @ [newline])"

section \<open>The tables implement the interfaces\<close>

lemma same_name_iff: "same_name stored name \<longleftrightarrow> c_str stored = name"
  by (metis c_str_def same_name_def takeWhile_eq_take)

interpretation sset: name_set cc_string_set_init "\<lambda>s n. cc_string_set_add s (Some n)"
  "\<lambda>s n. cc_string_set_contains s (Some n)" "\<lambda>s. distinct (set_items s) \<and> length (set_items s) \<le> set_cap s" "\<lambda>_. True"
  by unfold_locales
    (auto simp: cc_string_set_init_def cc_string_set_add_def cc_string_set_contains_def Let_def)

lemma map_of_replace: "k \<in> fst ` set es \<Longrightarrow> map_of (replace_entry k v es) x = (if x = k then Some v else map_of es x)"
  by (induction es) force+

lemma map_of_snoc: "k \<notin> fst ` set es \<Longrightarrow> map_of (es @ [(k, v)]) x = (if x = k then Some v else map_of es x)"
  by (induction es) (auto split: if_splits)

interpretation smap: name_map cc_string_map_init "\<lambda>m k v. cc_string_map_set m (Some k) (Some v)"
  "\<lambda>m k. cc_string_map_get m (Some k)" last_wins "\<lambda>_. True" "\<lambda>_ _. True"
  by unfold_locales
    (auto simp: cc_string_map_init_def cc_string_map_set_def cc_string_map_get_def Let_def last_wins_def map_of_replace map_of_snoc
      simp del: map_of_append)

text \<open>A string set holds exactly the names added to it, and a string map the value set last for a key.\<close>
theorem string_tables_exact:
  "(cc_string_set_contains (foldl (\<lambda>s n. cc_string_set_add s (Some n)) cc_string_set_init ns) (Some n) \<longleftrightarrow> n \<in> set ns) \<and>
   cc_string_map_get (foldl (\<lambda>m (k, v). cc_string_map_set m (Some k) (Some v)) cc_string_map_init kvs) (Some k) =
     (let vs = map snd (filter (\<lambda>(k', _). k' = k) kvs) in if vs = [] then None else Some (last vs))"
proof
  show "cc_string_set_contains (foldl (\<lambda>s n. cc_string_set_add s (Some n)) cc_string_set_init ns) (Some n) \<longleftrightarrow> n \<in> set ns"
    by (rule sset.contains_adds) (simp_all add: list_all_iff)
  show "cc_string_map_get (foldl (\<lambda>m (k, v). cc_string_map_set m (Some k) (Some v)) cc_string_map_init kvs) (Some k) =
      (let vs = map snd (filter (\<lambda>(k', _). k' = k) kvs) in if vs = [] then None else Some (last vs))"
    using smap.get_sets [of kvs k] by (simp add: list_all_iff smap.merged_def merge_last Let_def)
qed

definition name_ok :: "string \<Rightarrow> bool" where
  "name_ok n = (n \<noteq> [] \<and> plain n)"

interpretation fn_set: name_set "\<lparr>nt_names = [], nt_cap = 0\<rparr>" "cc__name_set_add True True" cc__name_set_contains
  "\<lambda>s. length (nt_names s) \<le> nt_cap s" name_ok
  by unfold_locales (auto simp: cc__name_set_add_def cc__name_set_contains_def same_name_iff name_ok_def Let_def)

lemma find_snoc: "find P (xs @ [x]) = (case find P xs of Some y \<Rightarrow> Some y | None \<Rightarrow> if P x then Some x else None)"
  by (induction xs) auto

lemma find_none: "(\<forall>x \<in> set xs. \<not> P x) \<Longrightarrow> find P xs = None"
  by (auto simp: find_None_iff)

interpretation fn_err: name_map "\<lparr>et_entries = [], et_cap = 0\<rparr>" "cc__name_err_map_set True True" cc__name_err_map_get
  first_wins "\<lambda>_. True" "\<lambda>k v. name_ok k \<and> v \<noteq> []"
proof (unfold_locales, goal_cases)
  case (4 m k v k' w)
  show ?case
  proof (cases "find (\<lambda>(n, e). same_name n k) (et_entries m)")
    case None
    then have no: "\<not> (\<exists>(n, e) \<in> set (et_entries m). same_name n k)" by (auto simp: find_None_iff)
    have "cc__name_err_map_get m k = None" using None by (simp add: cc__name_err_map_get_def)
    then show ?thesis
      using 4 None no
      by (auto simp: cc__name_err_map_set_def cc__name_err_map_get_def find_snoc same_name_iff name_ok_def first_wins_def Let_def
        split: option.splits)
  next
    case (Some e)
    then have "\<exists>(n, e) \<in> set (et_entries m). same_name n k" by (auto simp: find_Some_iff) (metis case_prod_conv nth_mem prod.collapse)
    then have "cc__name_err_map_set True True m k v = m" using 4 by (simp add: cc__name_err_map_set_def)
    moreover have "cc__name_err_map_get m k = Some (snd e)" using Some 4 by (simp add: cc__name_err_map_get_def name_ok_def)
    ultimately show ?thesis by (simp add: first_wins_def)
  qed
qed (simp_all add: cc__name_err_map_get_def)

section \<open>The registry\<close>

text \<open>A registration with or without an error type.\<close>

fun register :: "fn_registry \<Rightarrow> string \<times> string option \<Rightarrow> fn_registry" where
  "register r (n, None) = cc_result_fn_registry_add True True r n"
| "register r (n, Some e) = cc_result_fn_registry_add_typed True True r n e"

definition typed :: "(string \<times> string option) list \<Rightarrow> (string \<times> string) list" where
  "typed calls = concat (map (\<lambda>(n, e). case e of Some e \<Rightarrow> [(n, e)] | None \<Rightarrow> []) calls)"

lemma register_tables:
  "g_result_fns (foldl register r calls) = foldl (cc__name_set_add True True) (g_result_fns r) (map fst calls)"
  "g_result_fn_err (foldl register r calls) =
    foldl (\<lambda>m (k, v). cc__name_err_map_set True True m k v) (g_result_fn_err r) (typed calls)"
proof (induction calls arbitrary: r)
  case (Cons c calls)
  obtain n e where c: "c = (n, e)" by force
  { case 1 then show ?case
      by (cases e) (simp_all add: Cons c cc_result_fn_registry_add_def cc_result_fn_registry_add_typed_def) }
  { case 2 then show ?case
      by (cases e) (simp_all add: Cons c typed_def cc_result_fn_registry_add_def cc_result_fn_registry_add_typed_def) }
qed (simp_all add: typed_def)

text \<open>C37: The registry of result functions contains exactly the names registered since it was cleared,
  with or without an error type, and the error type it reports for a function is the first one registered,
  if it fits into the buffer of the caller with its terminator.\<close>
theorem fn_registry_first_type:
  assumes "list_all (\<lambda>(n, e). name_ok n \<and> (case e of Some e \<Rightarrow> e \<noteq> [] \<and> plain e | None \<Rightarrow> True)) calls" "name_ok n"
  shows "(let r = foldl register (cc_result_fn_registry_clear r0) calls in
    (cc_result_fn_registry_contains r n \<longleftrightarrow> n \<in> fst ` set calls) \<and>
    cc_result_fn_registry_get_err_type r n sz =
      (case filter (\<lambda>(n', _). n' = n) (typed calls) of
         [] \<Rightarrow> None
       | (_, e) # _ \<Rightarrow> if length e < sz then Some e else None))"
proof -
  let ?r = "foldl register (cc_result_fn_registry_clear r0) calls"
  let ?t = "filter (\<lambda>(n', _). n' = n) (typed calls)"
  have names: "list_all name_ok (map fst calls)" using assms(1) by (auto simp: list_all_iff)
  have types: "list_all (\<lambda>(k, v). name_ok k \<and> v \<noteq> []) (typed calls)" "\<forall>(k, v) \<in> set (typed calls). plain v"
    using assms(1) by (auto simp: list_all_iff typed_def split: option.splits)
  have "cc_result_fn_registry_contains ?r n \<longleftrightarrow> n \<in> fst ` set calls"
    using fn_set.contains_adds [OF names assms(2)]
    by (simp add: cc_result_fn_registry_contains_def register_tables cc_result_fn_registry_clear_def cc__name_set_clear_def)
  moreover have "cc__name_err_map_get (g_result_fn_err ?r) n = (case map snd ?t of [] \<Rightarrow> None | e # _ \<Rightarrow> Some e)"
    using fn_err.get_sets [OF types(1), of n "''x''"] assms(2)
    by (simp add: register_tables cc_result_fn_registry_clear_def cc__name_err_map_clear_def fn_err.merged_def merge_first)
  moreover have "plain e" if "?t = (k, e) # rest" for k e rest
  proof -
    have "(k, e) \<in> set ?t" unfolding that by simp
    then show ?thesis using types(2) by auto
  qed
  ultimately show ?thesis
    by (auto simp: cc_result_fn_registry_get_err_type_def Let_def split: list.splits prod.splits)
qed

theorem fn_registry_first_type_witness:
  "cc_result_fn_registry_get_err_type
     (foldl register (cc_result_fn_registry_clear empty_registry)
       [(''read'', None), (''open'', Some ''CCIoError''), (''open'', Some ''CCError'')]) ''open'' 256 = Some ''CCIoError''"
  using fn_registry_first_type [of "[(''read'', None), (''open'', Some ''CCIoError''), (''open'', Some ''CCError'')]" "''open''" empty_registry 256]
  by (simp add: name_ok_def plain_def typed_def Let_def)

section \<open>Mangled names\<close>

definition mangled_ok_name :: "string \<Rightarrow> bool" where
  "mangled_ok_name r = (list_all cc_is_ident_char r \<and> (r = [] \<or> last r \<noteq> CHR ''_''))"

lemma mangle_char_bounds:
  "length w < sz - Suc 0 \<Longrightarrow> length (mangle_char sz w c) \<le> sz - Suc 0"
  by (auto simp: mangle_char_def underscore_def)

lemma mangle_char_ident: "list_all cc_is_ident_char w \<Longrightarrow> list_all cc_is_ident_char (mangle_char sz w c)"
  by (auto simp: mangle_char_def underscore_def cc_is_ident_char_def cc_is_ident_start_def between_def)

lemma mangle_loop_bounds:
  "length w \<le> sz - 1 \<Longrightarrow> list_all cc_is_ident_char w \<Longrightarrow>
   length (mangle_loop sz w cs) \<le> sz - 1 \<and> list_all cc_is_ident_char (mangle_loop sz w cs)"
  by (induction cs arbitrary: w) (simp_all add: mangle_char_bounds mangle_char_ident)

lemma ident_not_ws: "cc_is_ident_char c \<Longrightarrow> \<not> is_ws c"
  by (auto simp: cc_is_ident_char_def cc_is_ident_start_def between_def is_ws_def newline_def)

lemma mangle_char_ident_char: "cc_is_ident_char c \<Longrightarrow> mangle_char sz w c = c # w"
  using ident_not_ws [of c]
  by (auto simp: mangle_char_def cc_is_ident_char_def cc_is_ident_start_def between_def)

lemma mangle_loop_ident:
  "list_all cc_is_ident_char cs \<Longrightarrow> length w + length cs \<le> sz - 1 \<Longrightarrow> mangle_loop sz w cs = rev cs @ w"
  by (induction cs arbitrary: w) (simp_all add: mangle_char_ident_char)

lemma normalize_cases: "cc__normalize_type_name n = n \<or> cc__normalize_type_name n \<in> snd ` set cc__type_aliases"
proof (cases "map_of cc__type_aliases n")
  case (Some c)
  then have "(n, c) \<in> set cc__type_aliases" by (rule map_of_SomeD)
  moreover have "\<forall>c \<in> snd ` set cc__type_aliases. fit 128 c = c" by (simp add: cc__type_aliases_def fit_def)
  ultimately show ?thesis using Some by (force simp: cc__normalize_type_name_def)
qed (simp add: cc__normalize_type_name_def)

lemma alias_targets: "\<forall>c \<in> snd ` set cc__type_aliases. mangled_ok_name c \<and> length c < 127 \<and> map_of cc__type_aliases c = None"
  unfolding cc__type_aliases_def mangled_ok_name_def by code_simp

lemma normalize_idem: "cc__normalize_type_name (cc__normalize_type_name n) = cc__normalize_type_name n"
  using normalize_cases [of n] alias_targets by (auto simp: cc__normalize_type_name_def split: option.splits)

lemma mangle_of_mangled:
  assumes "mangled_ok_name r" "length r < sz"
  shows "cc_result_spec_mangle_type r sz = cc__normalize_type_name r"
proof (cases "r = []")
  case True
  then show ?thesis by (simp add: cc_result_spec_mangle_type_def cc__normalize_type_name_def cc__type_aliases_def)
next
  case False
  have idr: "list_all cc_is_ident_char r" and la: "last r \<noteq> CHR ''_''" using assms False by (auto simp: mangled_ok_name_def)
  have "dropWhile is_ws r = r" "dropWhile is_ws (rev r) = rev r" "dropWhile (\<lambda>c. c = CHR ''_'') (rev r) = rev r"
    using idr la False by (simp_all add: dropWhile_eq_self_iff list_all_iff ident_not_ws hd_rev)
  then show ?thesis
    using False assms(2) idr by (simp add: cc_result_spec_mangle_type_def Let_def mangle_loop_ident)
qed



section \<open>The specification table\<close>

definition spec_key_ok :: "string \<times> string \<Rightarrow> string \<times> string \<Rightarrow> bool" where
  "spec_key_ok k v =
    (length (fst k) < 128 \<and> length (snd k) < 128 \<and> length (fst v) < 128 \<and> length (snd v) < 128)"

lemma fit_id: "length s < sz \<Longrightarrow> fit sz s = s"
  by (simp add: fit_def)

interpretation rspec: name_map cc_result_spec_table_init
  "\<lambda>t k v. fst (cc_result_spec_table_add True t (fst v) (snd v) (fst k) (snd k))"
  "\<lambda>t k. map_option (\<lambda>s. (ok_type s, err_type s)) (cc_result_spec_table_find_by_mangled t (fst k) (snd k))"
  first_wins "\<lambda>t. length (specs t) \<le> spec_cap t" spec_key_ok
proof (unfold_locales, goal_cases)
  case (2 m k v)
  then show ?case by (auto simp: cc_result_spec_table_add_def Let_def split: option.splits)
next
  case (4 m k v k' w)
  then show ?case
    by (auto simp: cc_result_spec_table_add_def cc_result_spec_table_find_by_mangled_def find_snoc make_spec_def fit_id spec_key_ok_def
      first_wins_def prod_eq_iff Let_def split: option.splits)
qed (simp_all add: cc_result_spec_table_init_def cc_result_spec_table_find_by_mangled_def)

text \<open>Registering one result type after the other.\<close>

definition add_specs :: "((string \<times> string) \<times> string \<times> string) list \<Rightarrow> spec_table" where
  "add_specs ks = foldl (\<lambda>t (k, v). fst (cc_result_spec_table_add True t (fst v) (snd v) (fst k) (snd k)))
    cc_result_spec_table_init ks"

text \<open>The specification table keeps the first pair of types registered under a pair of mangled
  names, and finds nothing under other names; all names and types are shorter than their fields.\<close>
theorem spec_table_first_types:
  assumes "list_all (\<lambda>(k, v). spec_key_ok k v) ks" "length mo < 128" "length me < 128"
  shows "map_option (\<lambda>s. (ok_type s, err_type s)) (cc_result_spec_table_find_by_mangled (add_specs ks) mo me) =
    (case filter (\<lambda>(k, _). k = (mo, me)) ks of [] \<Rightarrow> None | (_, v) # _ \<Rightarrow> Some v)"
proof -
  have "spec_key_ok (mo, me) ([], [])" using assms by (simp add: spec_key_ok_def)
  from rspec.get_sets [OF assms(1) this]
  have "map_option (\<lambda>s. (ok_type s, err_type s)) (cc_result_spec_table_find_by_mangled (add_specs ks) mo me) =
      (case map snd (filter (\<lambda>(k, _). k = (mo, me)) ks) of [] \<Rightarrow> None | v # _ \<Rightarrow> Some v)"
    by (simp add: add_specs_def rspec.merged_def merge_first)
  then show ?thesis by (simp split: list.splits prod.splits)
qed

theorem spec_table_first_types_witness:
  "map_option (\<lambda>s. (ok_type s, err_type s))
     (cc_result_spec_table_find_by_mangled
       (add_specs [((''int'', ''CCError''), (''int'', ''CCError'')), ((''charptr'', ''CCError''), (''char*'', ''CCError''))]) ''charptr'' ''CCError'') =
   Some (''char*'', ''CCError'')"
  using spec_table_first_types [of "[((''int'', ''CCError''), (''int'', ''CCError'')), ((''charptr'', ''CCError''), (''char*'', ''CCError''))]" "''charptr''" "''CCError''"]
  by (simp add: spec_key_ok_def)

lemma split_last_underscore:
  assumes "a @ CHR ''_'' # b = c @ CHR ''_'' # d" "CHR ''_'' \<notin> set b" "CHR ''_'' \<notin> set d"
  shows "a = c \<and> b = d"
proof -
  have "rev b @ CHR ''_'' # rev a = rev d @ CHR ''_'' # rev c" using arg_cong [OF assms(1), of rev] by simp
  then have "takeWhile (\<lambda>x. x \<noteq> CHR ''_'') (rev b @ CHR ''_'' # rev a) = takeWhile (\<lambda>x. x \<noteq> CHR ''_'') (rev d @ CHR ''_'' # rev c)" by simp
  moreover have "\<forall>x \<in> set b. x \<noteq> CHR ''_''" "\<forall>x \<in> set d. x \<noteq> CHR ''_''" using assms(2,3) by auto
  ultimately have "rev b = rev d" by (simp add: takeWhile_append)
  then show ?thesis using assms(1) by simp
qed

text \<open>C39: The concrete name of a result type identifies its mangled types as long as no mangled error type has an
  underscore and nothing is cut off.  Otherwise two different result types can share one concrete name: the table
  keeps both, finds only the first by name, and the include guards of their declarations are the same.\<close>
theorem concrete_names_collide:
  "(length mo + length me < 246 \<longrightarrow> length mo' + length me' < 246 \<longrightarrow> CHR ''_'' \<notin> set me \<longrightarrow> CHR ''_'' \<notin> set me' \<longrightarrow>
    cc_result_spec_format_name (Some mo) (Some me) 256 = cc_result_spec_format_name (Some mo') (Some me') 256 \<longrightarrow>
    mo = mo' \<and> me = me') \<and>
   (let t = add_specs [((''int'', ''io_err''), (''int'', ''io_err'')), ((''int_io'', ''err''), (''int_io'', ''err''))] in
     map_option concrete_name (cc_result_spec_table_find_by_mangled t ''int'' ''io_err'') =
       map_option concrete_name (cc_result_spec_table_find_by_mangled t ''int_io'' ''err'') \<and>
     map_option ok_type (cc_result_spec_table_find_by_name t ''CCResult_int_io_err'') = Some ''int'' \<and>
     map_option ok_type (cc_result_spec_table_find_by_mangled t ''int_io'' ''err'') = Some ''int_io'')"
proof (intro conjI impI, goal_cases)
  case 1
  then show ?case using split_last_underscore [of mo me mo' me'] by (simp add: cc_result_spec_format_name_def fit_def)
next
  case 2
  then show ?case using split_last_underscore [of mo me mo' me'] by (simp add: cc_result_spec_format_name_def fit_def)
next
  case 3
  show ?case by code_simp
qed

theorem concrete_names_collide_witness:
  "cc_result_spec_format_name (Some ''int'') (Some ''CCError'') 256 \<noteq> cc_result_spec_format_name (Some ''bool'') (Some ''CCError'') 256"
  using concrete_names_collide [of "''int''" "''CCError''" "''bool''" "''CCError''"] by simp

end
