(* ===== verification/Type_Registry.thy ===== *)
theory Type_Registry
  imports Name_Tables
begin

text \<open>
  The type registry of the compiler (preprocess/type_registry.c): tables of variables, aliases,
  struct fields and container instantiations, the normalisation of type names, the lookup
  of a local variable by its lexical scope, and the resolution of a receiver expression
  to its type; with the parser of a declaration statement from util/text.h.  A flag tells whether
  an array can grow; copies of strings are made.  The buffers that a declaration
  parser leaves untouched keep what they held before, which is an argument of the lookup.
\<close>

section \<open>Declarations\<close>

fun skip_quote :: "char \<Rightarrow> string \<Rightarrow> string" where
  "skip_quote q [] = []"
| "skip_quote q [c] = []"
| "skip_quote q (c # c2 # cs) =
    (if c = backslash then skip_quote q cs else if c = q then c2 # cs else skip_quote q (c2 # cs))"

lemma skip_quote_length: "length (skip_quote q cs) \<le> length cs"
  by (induction q cs rule: skip_quote.induct) auto

text \<open>The last identifier before an assignment, as start and length within the statement.\<close>

function name_scan :: "string \<Rightarrow> nat \<Rightarrow> (nat \<times> nat) option \<Rightarrow> (nat \<times> nat) option" where
  "name_scan [] p acc = acc"
| "name_scan (c # cs) p acc =
    (if c = CHR ''/'' \<and> peek cs = Some (CHR ''/'')
     then (let r = dropWhile (\<lambda>x. x \<noteq> newline) (tl cs) in name_scan r (p + length (c # cs) - length r) acc)
     else if c = CHR ''/'' \<and> peek cs = Some (CHR ''*'')
     then (let r = skip_block (tl cs) in name_scan r (p + length (c # cs) - length r) acc)
     else if c = dquote \<or> c = squote
     then (let r = skip_quote c cs in name_scan r (p + length (c # cs) - length r) acc)
     else if c = CHR ''='' \<or> c = CHR '';'' then acc
     else if \<not> cc_is_ident_start c then name_scan cs (p + 1) acc
     else (let w = takeWhile cc_is_ident_char cs
           in name_scan (dropWhile cc_is_ident_char cs) (p + 1 + length w) (Some (p, 1 + length w))))"
  by pat_completeness auto
termination
  by (relation "measure (\<lambda>(cs, p, acc). length cs)")
    (auto simp: le_imp_less_Suc dropWhile_length skip_quote_length le_trans [OF dropWhile_length] le_trans [OF skip_block_length] le_SucI)

text \<open>The characters of a statement outside comments, as the second loop visits them: a string
  literal is not skipped, and an unclosed comment runs to the end.\<close>

function decl_chars :: "string \<Rightarrow> nat \<Rightarrow> (nat \<times> char) list" where
  "decl_chars [] p = []"
| "decl_chars (c # cs) p =
    (if c = CHR ''/'' \<and> peek cs = Some (CHR ''/'')
     then (let r = tl (dropWhile (\<lambda>x. x \<noteq> newline) (tl cs)) in decl_chars r (p + length (c # cs) - length r))
     else if c = CHR ''/'' \<and> peek cs = Some (CHR ''*'')
     then (let r = skip_block_ptr (tl cs) in decl_chars r (p + length (c # cs) - length r))
     else (p, c) # decl_chars cs (p + 1))"
  by pat_completeness auto
termination
  by (relation "measure (\<lambda>(cs, p). length cs)")
    (auto simp: le_imp_less_Suc le_trans [OF diff_le_self] le_trans [OF dropWhile_length] le_trans [OF skip_block_ptr_length] le_SucI)

definition first_pos :: "char \<Rightarrow> (nat \<times> char) list \<Rightarrow> nat option" where
  "first_pos c L = map_option fst (find (\<lambda>(p, x). x = c) L)"

text \<open>The name and the type; None stands for buffers that are left as they were.\<close>

definition cc_parse_decl_name_and_type :: "string \<Rightarrow> nat \<Rightarrow> nat \<Rightarrow> (string \<times> string) option" where
  "cc_parse_decl_name_and_type stmt name_sz type_sz =
    (if stmt = [] then None
     else
      (let cs = skip_blank stmt; none = Some ([], []) in
       if cs = [] then none
       else case name_scan cs 0 None of
         None \<Rightarrow> none
       | Some (ns, nn) \<Rightarrow>
          (let chars = decl_chars cs 0; eq = first_pos (CHR ''='') chars; lp = first_pos (CHR ''('') chars;
               after = dropWhile is_ws (drop (ns + nn) cs) in
           if \<exists>(i, c) \<in> set chars. c = CHR ''.'' \<or> c = CHR ''>'' \<and> 0 < i \<and> cs ! (i - 1) = CHR ''-'' then none
           else if after \<noteq> [] \<and> hd after \<notin> {CHR ''='', CHR '';'', CHR ''[''} then none
           else if (case lp of
                      None \<Rightarrow> False
                    | Some l \<Rightarrow> l < ns \<and> (case eq of None \<Rightarrow> True | Some e \<Rightarrow> l < e) \<and>
                        (let m = rev (takeWhile cc_is_ident_char (rev (take l cs)))
                         in \<not> (5 \<le> length m \<and> take 5 m = ''__CC_'')))
           then none
           else (let ty = rev (dropWhile is_ws (rev (take ns cs)))
                 in if ty = [] then none
                    else Some (fit name_sz (take nn (drop ns cs)), fit type_sz ty)))))"

section \<open>Tables\<close>

datatype container_kind = CC_CONTAINER_VEC | CC_CONTAINER_MAP | CC_CONTAINER_CHANNEL

record type_inst =
  inst_kind :: container_kind
  mangled_name :: string
  type1 :: string
  type2 :: "string option"

record type_registry =
  vars :: "(string \<times> string) list"
  var_capacity :: nat
  aliases :: "(string \<times> string) list"
  alias_capacity :: nat
  reg_fields :: "((string \<times> string) \<times> string) list"
  field_capacity :: nat
  vecs :: "type_inst list"
  vec_capacity :: nat
  maps :: "type_inst list"
  map_capacity :: nat
  channels :: "type_inst list"
  chan_capacity :: nat

definition cc_type_registry_new :: type_registry where
  "cc_type_registry_new =
    \<lparr>vars = [], var_capacity = 0, aliases = [], alias_capacity = 0, reg_fields = [], field_capacity = 0, vecs = [], vec_capacity = 0,
     maps = [], map_capacity = 0, channels = [], chan_capacity = 0\<rparr>"

definition cc_type_registry_clear :: "type_registry \<Rightarrow> type_registry" where
  "cc_type_registry_clear reg = reg\<lparr>vars := [], aliases := [], reg_fields := [], vecs := [], maps := [], channels := []\<rparr>"

text \<open>Growing an array whose first capacity is given; None is the error return.\<close>

definition grown :: "nat \<Rightarrow> bool \<Rightarrow> nat \<Rightarrow> nat \<Rightarrow> nat option" where
  "grown first mem cp needed =
    (if needed \<le> cp then Some cp
     else if mem then Some (grow_cap (if cp \<noteq> 0 then cp * 2 else first) needed) else None)"

definition ensure_var_capacity :: "bool \<Rightarrow> type_registry \<Rightarrow> nat \<Rightarrow> type_registry option" where
  "ensure_var_capacity mem reg needed = map_option (\<lambda>c. reg\<lparr>var_capacity := c\<rparr>) (grown 16 mem (var_capacity reg) needed)"

definition ensure_field_capacity :: "bool \<Rightarrow> type_registry \<Rightarrow> nat \<Rightarrow> type_registry option" where
  "ensure_field_capacity mem reg needed = map_option (\<lambda>c. reg\<lparr>field_capacity := c\<rparr>) (grown 32 mem (field_capacity reg) needed)"

definition ensure_alias_capacity :: "bool \<Rightarrow> type_registry \<Rightarrow> nat \<Rightarrow> type_registry option" where
  "ensure_alias_capacity mem reg needed = map_option (\<lambda>c. reg\<lparr>alias_capacity := c\<rparr>) (grown 16 mem (alias_capacity reg) needed)"

definition ensure_vec_capacity :: "bool \<Rightarrow> type_registry \<Rightarrow> nat \<Rightarrow> type_registry option" where
  "ensure_vec_capacity mem reg needed = map_option (\<lambda>c. reg\<lparr>vec_capacity := c\<rparr>) (grown 8 mem (vec_capacity reg) needed)"

definition ensure_map_capacity :: "bool \<Rightarrow> type_registry \<Rightarrow> nat \<Rightarrow> type_registry option" where
  "ensure_map_capacity mem reg needed = map_option (\<lambda>c. reg\<lparr>map_capacity := c\<rparr>) (grown 8 mem (map_capacity reg) needed)"

definition ensure_chan_capacity :: "bool \<Rightarrow> type_registry \<Rightarrow> nat \<Rightarrow> type_registry option" where
  "ensure_chan_capacity mem reg needed = map_option (\<lambda>c. reg\<lparr>chan_capacity := c\<rparr>) (grown 8 mem (chan_capacity reg) needed)"

definition cc__is_parser_placeholder_type :: "string \<Rightarrow> bool" where
  "cc__is_parser_placeholder_type t =
    (t \<in> {''__CCVecGeneric'', ''__CCVecGeneric*'', ''__CCMapGeneric'', ''__CCMapGeneric*'', ''__CCResultGeneric'',
          ''__CCResultGeneric*''})"

definition starts :: "string \<Rightarrow> string \<Rightarrow> bool" where
  "starts pre s = (take (length pre) s = pre)"

text \<open>The result is the registry and the return value 0 or -1.\<close>

definition cc_type_registry_add_var :: "bool \<Rightarrow> type_registry \<Rightarrow> string \<Rightarrow> string \<Rightarrow> type_registry \<times> int" where
  "cc_type_registry_add_var mem reg n t =
    (case map_of (vars reg) n of
       Some old \<Rightarrow>
         (if starts ''CCChanTx_'' old \<and> t = ''CCChanTx'' \<or> starts ''CCChanRx_'' old \<and> t = ''CCChanRx'' then (reg, 0)
          else if \<not> cc__is_parser_placeholder_type old \<and> old \<noteq> t then (reg, 0)
          else (reg\<lparr>vars := replace_entry n t (vars reg)\<rparr>, 0))
     | None \<Rightarrow>
         (case ensure_var_capacity mem reg (length (vars reg) + 1) of
            None \<Rightarrow> (reg, -1)
          | Some reg \<Rightarrow> (reg\<lparr>vars := vars reg @ [(n, t)]\<rparr>, 0)))"

definition cc_type_registry_lookup_var :: "type_registry \<Rightarrow> string \<Rightarrow> string option" where
  "cc_type_registry_lookup_var reg n = map_of (vars reg) n"

definition cc_type_registry_add_alias :: "bool \<Rightarrow> type_registry \<Rightarrow> string \<Rightarrow> string \<Rightarrow> type_registry \<times> int" where
  "cc_type_registry_add_alias mem reg n t =
    (case map_of (aliases reg) n of
       Some old \<Rightarrow> (if old = t then (reg, 0) else (reg\<lparr>aliases := replace_entry n t (aliases reg)\<rparr>, 0))
     | None \<Rightarrow>
         (case ensure_alias_capacity mem reg (length (aliases reg) + 1) of
            None \<Rightarrow> (reg, -1)
          | Some reg \<Rightarrow> (reg\<lparr>aliases := aliases reg @ [(n, t)]\<rparr>, 0)))"

definition cc_type_registry_lookup_alias :: "type_registry \<Rightarrow> string \<Rightarrow> string option" where
  "cc_type_registry_lookup_alias reg n = map_of (aliases reg) n"

definition cc_type_registry_add_field :: "bool \<Rightarrow> type_registry \<Rightarrow> string \<Rightarrow> string \<Rightarrow> string \<Rightarrow> type_registry \<times> int" where
  "cc_type_registry_add_field mem reg s f t =
    (case map_of (reg_fields reg) (s, f) of
       Some old \<Rightarrow>
         (if \<not> cc__is_parser_placeholder_type old \<and> cc__is_parser_placeholder_type t then (reg, 0)
          else if \<not> cc__is_parser_placeholder_type old \<and> old \<noteq> t then (reg, 0)
          else (reg\<lparr>reg_fields := replace_entry (s, f) t (reg_fields reg)\<rparr>, 0))
     | None \<Rightarrow>
         (case ensure_field_capacity mem reg (length (reg_fields reg) + 1) of
            None \<Rightarrow> (reg, -1)
          | Some reg \<Rightarrow> (reg\<lparr>reg_fields := reg_fields reg @ [((s, f), t)]\<rparr>, 0)))"

definition cc_type_registry_lookup_field :: "type_registry \<Rightarrow> string \<Rightarrow> string \<Rightarrow> string option" where
  "cc_type_registry_lookup_field reg s f = map_of (reg_fields reg) (s, f)"

definition cc_type_registry_add_vec :: "bool \<Rightarrow> type_registry \<Rightarrow> string \<Rightarrow> string \<Rightarrow> type_registry \<times> int" where
  "cc_type_registry_add_vec mem reg elem mangled =
    (if \<exists>e \<in> set (vecs reg). mangled_name e = mangled then (reg, 0)
     else case ensure_vec_capacity mem reg (length (vecs reg) + 1) of
       None \<Rightarrow> (reg, -1)
     | Some reg \<Rightarrow> (reg\<lparr>vecs := vecs reg @ [\<lparr>inst_kind = CC_CONTAINER_VEC, mangled_name = mangled, type1 = elem, type2 = None\<rparr>]\<rparr>, 0))"

definition cc_type_registry_add_map :: "bool \<Rightarrow> type_registry \<Rightarrow> string \<Rightarrow> string \<Rightarrow> string \<Rightarrow> type_registry \<times> int" where
  "cc_type_registry_add_map mem reg key v mangled =
    (if \<exists>e \<in> set (maps reg). mangled_name e = mangled then (reg, 0)
     else case ensure_map_capacity mem reg (length (maps reg) + 1) of
       None \<Rightarrow> (reg, -1)
     | Some reg \<Rightarrow> (reg\<lparr>maps := maps reg @ [\<lparr>inst_kind = CC_CONTAINER_MAP, mangled_name = mangled, type1 = key, type2 = Some v\<rparr>]\<rparr>, 0))"

definition cc_type_registry_add_channel :: "bool \<Rightarrow> type_registry \<Rightarrow> string \<Rightarrow> string \<Rightarrow> type_registry \<times> int" where
  "cc_type_registry_add_channel mem reg elem mangled =
    (if \<exists>e \<in> set (channels reg). mangled_name e = mangled then (reg, 0)
     else case ensure_chan_capacity mem reg (length (channels reg) + 1) of
       None \<Rightarrow> (reg, -1)
     | Some reg \<Rightarrow>
         (reg\<lparr>channels := channels reg @ [\<lparr>inst_kind = CC_CONTAINER_CHANNEL, mangled_name = mangled, type1 = elem, type2 = None\<rparr>]\<rparr>, 0))"

definition cc_type_registry_vec_count :: "type_registry \<Rightarrow> nat" where
  "cc_type_registry_vec_count reg = length (vecs reg)"

definition cc_type_registry_get_vec :: "type_registry \<Rightarrow> nat \<Rightarrow> type_inst option" where
  "cc_type_registry_get_vec reg idx = (if length (vecs reg) \<le> idx then None else Some (vecs reg ! idx))"

definition cc_type_registry_map_count :: "type_registry \<Rightarrow> nat" where
  "cc_type_registry_map_count reg = length (maps reg)"

definition cc_type_registry_get_map :: "type_registry \<Rightarrow> nat \<Rightarrow> type_inst option" where
  "cc_type_registry_get_map reg idx = (if length (maps reg) \<le> idx then None else Some (maps reg ! idx))"

definition cc_type_registry_channel_count :: "type_registry \<Rightarrow> nat" where
  "cc_type_registry_channel_count reg = length (channels reg)"

definition cc_type_registry_get_channel :: "type_registry \<Rightarrow> nat \<Rightarrow> type_inst option" where
  "cc_type_registry_get_channel reg idx = (if length (channels reg) \<le> idx then None else Some (channels reg ! idx))"

definition cc_type_registry_lookup_channel_elem_type :: "type_registry \<Rightarrow> string \<Rightarrow> string option" where
  "cc_type_registry_lookup_channel_elem_type reg h =
    (if starts ''CCChanTx_'' h \<or> starts ''CCChanRx_'' h then
       (let mangled = drop 9 h
        in if mangled = [] then None else map_option type1 (find (\<lambda>e. mangled_name e = mangled) (channels reg)))
     else None)"

section \<open>Type names\<close>

definition cc__copy_type_base :: "nat \<Rightarrow> string \<Rightarrow> string" where
  "cc__copy_type_base out_sz t =
    fit out_sz (rev (dropWhile is_blank (dropWhile (\<lambda>c. c = CHR ''*'') (dropWhile is_blank (rev t)))))"

definition cc__trim_type_text :: "string \<Rightarrow> string" where
  "cc__trim_type_text t = trim_space t"

definition cc__trim_type_span :: "string \<Rightarrow> string" where
  "cc__trim_type_span t = trim_space t"

text \<open>The element type of a channel type such as \<^verbatim>\<open>T[~N >]\<close>, with the flag of the sending side.\<close>

definition channel_elem :: "string \<Rightarrow> (bool \<times> string) option" where
  "channel_elem t =
    (let chan = dropWhile (\<lambda>c. c \<noteq> CHR ''['') t; inside = takeWhile (\<lambda>c. c \<noteq> CHR '']'') chan;
         tx = CHR ''>'' \<in> set inside; rx = CHR ''<'' \<in> set inside;
         elem = cc__trim_type_span (takeWhile (\<lambda>c. c \<noteq> CHR ''['') t);
         m = cc_result_spec_mangle_type elem 128 in
     if CHR '']'' \<in> set chan \<and> CHR ''~'' \<in> set inside \<and> (tx \<or> rx) \<and> elem \<noteq> [] \<and> m \<noteq> [] then Some (tx, m) else None)"

text \<open>The error type after the exclamation mark of a result type.\<close>

definition error_part :: "string \<Rightarrow> string" where
  "error_part s =
    (let e = dropWhile is_blank s in
     if peek e = Some (CHR ''>'') then
       (let e1 = dropWhile is_blank (tl e)
        in if peek e1 = Some (CHR ''('') then takeWhile (\<lambda>c. c \<noteq> CHR '')'') (tl e1) else e1)
     else takeWhile cc_is_ident_char e)"

definition cc__normalize_local_decl_type :: "nat \<Rightarrow> string \<Rightarrow> string" where
  "cc__normalize_local_decl_type out_sz t =
    (if out_sz = 0 \<or> t = [] then []
     else case channel_elem t of
       Some (tx, m) \<Rightarrow> fit out_sz ((if tx then ''CCChanTx'' else ''CCChanRx'') @ ''_'' @ m)
     | None \<Rightarrow>
        (let bang = dropWhile (\<lambda>c. c \<noteq> CHR ''!'') t in
         if bang = [] \<or> peek (tl bang) = Some (CHR ''='') then fit out_sz t
         else
          (let ok = cc__trim_type_span (takeWhile (\<lambda>c. c \<noteq> CHR ''!'') t);
               er = cc__trim_type_span (error_part (tl bang));
               mo = cc_result_spec_mangle_type ok 128; me = cc_result_spec_mangle_type er 128 in
           if ok = [] \<or> er = [] then fit out_sz t
           else if mo = [] \<or> me = [] then fit out_sz t
           else fit out_sz (''CCResult_'' @ mo @ ''_'' @ me))))"

function strip_ptrs :: "string \<Rightarrow> nat \<times> string" where
  "strip_ptrs w =
    (if w \<noteq> [] \<and> last w = CHR ''*'' then (case strip_ptrs (cc__trim_type_text (butlast w)) of (n, w) \<Rightarrow> (n + 1, w))
     else (0, w))"
  by pat_completeness auto
termination
proof (relation "measure length", simp, goal_cases)
  case (1 w)
  have "length (trim_space (butlast w)) \<le> length (butlast w)"
    unfolding trim_space_def using dropWhile_length [of lit_space "rev (dropWhile lit_space (butlast w))"]
      dropWhile_length [of lit_space "butlast w"] by simp
  then show ?case using 1 by (cases w) (auto simp: cc__trim_type_text_def)
qed

declare strip_ptrs.simps [simp del]

definition add_ptrs :: "nat \<Rightarrow> nat \<Rightarrow> string \<Rightarrow> string" where
  "add_ptrs out_sz n s = s @ replicate (min n (out_sz - 1 - length s)) (CHR ''*'')"

definition ends :: "char \<Rightarrow> string \<Rightarrow> bool" where
  "ends c s = (s \<noteq> [] \<and> last s = c)"

text \<open>The length of the prefix of a vector or map type in one of its surface forms.\<close>

definition vec_prefix :: "string \<Rightarrow> nat option" where
  "vec_prefix w =
    (if starts ''Vec::['' w \<and> ends (CHR '']'') w \<or> starts ''Vec<'' w \<and> ends (CHR ''>'') w \<or>
        starts ''CCVec::['' w \<and> ends (CHR '']'') w \<or> starts ''CCVec<'' w \<and> ends (CHR ''>'') w \<or>
        starts ''__CC_VEC('' w \<and> ends (CHR '')'') w
     then Some (if starts ''__CC_VEC('' w then 9 else if starts ''CCVec::['' w then 8 else if starts ''CCVec<'' w then 6
                else if w ! 3 = CHR '':'' then 6 else 4)
     else None)"

definition map_prefix :: "string \<Rightarrow> nat option" where
  "map_prefix w =
    (if starts ''Map::['' w \<and> ends (CHR '']'') w \<or> starts ''Map<'' w \<and> ends (CHR ''>'') w \<or>
        starts ''__CC_MAP('' w \<and> ends (CHR '')'') w
     then Some (if starts ''__CC_MAP('' w then 9 else if w ! 3 = CHR '':'' then 6 else 4)
     else None)"

text \<open>The split at the first comma outside brackets.\<close>

fun comma_split :: "int \<Rightarrow> string \<Rightarrow> string \<Rightarrow> (string \<times> string) option" where
  "comma_split d pre [] = None"
| "comma_split d pre (c # cs) =
    (if c \<in> set ''<[({'' then comma_split (d + 1) (c # pre) cs
     else if c \<in> set ''>])}'' then comma_split (d - 1) (c # pre) cs
     else if c = CHR '','' \<and> d = 0 then Some (rev pre, cs)
     else comma_split d (c # pre) cs)"

text \<open>The concrete name of a container type, where \<^verbatim>\<open>norm\<close> normalises a parameter.\<close>

definition container_name :: "(string \<Rightarrow> string) \<Rightarrow> string \<Rightarrow> string" where
  "container_name norm w =
    (case vec_prefix w of
       Some p \<Rightarrow>
         (let inner = fit 256 (take (length w - p - 1) (drop p w));
              m = cc_result_spec_mangle_type (norm inner) 128
          in if m \<noteq> [] then fit 256 (''CCVec_'' @ m) else w)
     | None \<Rightarrow>
         (case map_prefix w of
            Some p \<Rightarrow>
              (let inner = fit 256 (take (length w - p - 1) (drop p w)) in
               case comma_split 0 [] inner of
                 None \<Rightarrow> w
               | Some (key, v) \<Rightarrow>
                   (let mk = cc_result_spec_mangle_type (norm (fit 256 key)) 128;
                        mv = cc_result_spec_mangle_type (norm (fit 256 v)) 128
                    in if mk \<noteq> [] \<and> mv \<noteq> [] then fit 256 (''Map_'' @ mk @ ''_'' @ mv) else w))
          | None \<Rightarrow> w))"

definition pointer_base :: "string \<Rightarrow> nat \<times> string" where
  "pointer_base t =
    (let w = cc__normalize_local_decl_type 256 t; w = (if w = [] then fit 256 t else w)
     in strip_ptrs (cc__trim_type_text w))"

text \<open>The flag says that the output buffer is the buffer of the name: the first store, which terminates
  the output, then empties the name as well.\<close>

function cc__normalize_registry_container_param_name :: "bool \<Rightarrow> string \<Rightarrow> nat \<Rightarrow> string" where
  "cc__normalize_registry_container_param_name True t out_sz = []"
| "cc__normalize_registry_container_param_name False t out_sz =
    (if out_sz = 0 \<or> t = [] then []
     else
      (let (n, w) = pointer_base t; w = (if w = ''CCString'' then ''CCVec_char'' else w);
           w = container_name (\<lambda>inner. cc__normalize_registry_container_param_name True inner 256) w
       in add_ptrs out_sz n (fit out_sz w)))"
  by pat_completeness auto
termination by (relation "measure (\<lambda>(same, t, out_sz). if same then 0 else 1)") auto

fun alias_hops :: "type_registry \<Rightarrow> nat \<Rightarrow> string \<Rightarrow> string" where
  "alias_hops reg 0 w = w"
| "alias_hops reg (Suc k) w =
    (case cc_type_registry_lookup_alias reg w of
       None \<Rightarrow> w
     | Some a \<Rightarrow> if a = [] \<or> a = w then w else alias_hops reg k (fit 256 a))"

definition cc__normalize_registry_type_name :: "type_registry \<Rightarrow> string \<Rightarrow> nat \<Rightarrow> string" where
  "cc__normalize_registry_type_name reg t out_sz =
    (if out_sz = 0 \<or> t = [] then []
     else
      (let (n, w) = pointer_base t; w = alias_hops reg 8 w;
           w = container_name (\<lambda>inner. cc__normalize_registry_container_param_name True inner 256) w
       in add_ptrs out_sz n (fit out_sz w)))"

definition cc_type_registry_canonicalize_type_name :: "type_registry \<Rightarrow> string \<Rightarrow> nat \<Rightarrow> string option" where
  "cc_type_registry_canonicalize_type_name reg t out_sz =
    (let r = cc__normalize_registry_type_name reg t out_sz in if out_sz = 0 \<or> r = [] then None else Some r)"

section \<open>Local variables by scope\<close>

record scope_state =
  decls :: "(nat \<times> string) list"
  scope_stack :: "nat list"
  next_scope_id :: nat
  stmt_start :: nat
  buffers :: "string \<times> string"

definition scope_init :: "string \<times> string \<Rightarrow> scope_state" where
  "scope_init stale = \<lparr>decls = [], scope_stack = [0], next_scope_id = 1, stmt_start = 0, buffers = stale\<rparr>"

definition scope_step :: "string \<Rightarrow> string \<Rightarrow> scope_state \<Rightarrow> nat \<times> char \<Rightarrow> scope_state" where
  "scope_step src v st ic =
    (case ic of (i, c) \<Rightarrow>
      if c = CHR ''{'' then
        (if length (scope_stack st) < 256
         then st\<lparr>scope_stack := next_scope_id st # scope_stack st, next_scope_id := next_scope_id st + 1, stmt_start := i + 1\<rparr>
         else st\<lparr>stmt_start := i + 1\<rparr>)
      else if c = CHR ''}'' then
        (let closing = (if 1 < length (scope_stack st) then hd (scope_stack st) else 0) in
         st\<lparr>decls := dropWhile (\<lambda>d. fst d = closing) (decls st),
            scope_stack := (if 1 < length (scope_stack st) then tl (scope_stack st) else scope_stack st), stmt_start := i + 1\<rparr>)
      else if c = CHR '';'' then
        (let b = (case cc_parse_decl_name_and_type (slice src (stmt_start st) i) 128 256 of Some nt \<Rightarrow> nt | None \<Rightarrow> buffers st);
             hit = (fst b \<noteq> [] \<and> fst b = v \<and> \<not> cc_is_non_decl_stmt_type (snd b) \<and> length (decls st) < 256) in
         st\<lparr>decls := (if hit then (hd (scope_stack st), cc__normalize_local_decl_type 256 (snd b)) # decls st else decls st),
            stmt_start := i + 1, buffers := b\<rparr>)
      else st)"

definition cc__lookup_scoped_local_var_type :: "string \<times> string \<Rightarrow> string \<Rightarrow> nat \<Rightarrow> string \<Rightarrow> nat \<Rightarrow> string option" where
  "cc__lookup_scoped_local_var_type stale src limit v out_sz =
    (if v = [] \<or> out_sz = 0 then None
     else
      (let st = foldl (scope_step src v) (scope_init stale) (code_chars False Code (take limit src) 0)
       in case decls st of [] \<Rightarrow> None | (_, t) # _ \<Rightarrow> Some (fit out_sz t)))"

section \<open>Receiver expressions\<close>

text \<open>The identifier that starts a text, cut to its buffer, and the rest.\<close>

definition take_ident :: "string \<Rightarrow> (string \<times> string) option" where
  "take_ident s =
    (if s \<noteq> [] \<and> cc_is_ident_start (hd s)
     then Some (fit 128 (takeWhile cc_is_ident_char s), dropWhile cc_is_ident_char s) else None)"

lemma take_ident_length: "take_ident s = Some (n, r) \<Longrightarrow> length r < length s"
  using dropWhile_length [of cc_is_ident_char "tl s"]
  by (cases s) (auto simp: take_ident_def cc_is_ident_char_def split: if_splits)

text \<open>The expression without white space around it, its leading ampersand and its first identifier.\<close>

definition receiver_root :: "string \<Rightarrow> (bool \<times> string \<times> string) option" where
  "receiver_root e =
    (let t = rev (dropWhile is_ws (rev (dropWhile is_ws e))) in
     if t = [] \<or> 256 \<le> length t then None
     else (let is_ptr = (hd t = CHR ''&''); p = (if is_ptr then dropWhile is_blank (tl t) else t)
           in map_option (\<lambda>(n, r). (is_ptr, n, r)) (take_ident p)))"

function resolve_fields :: "type_registry \<Rightarrow> string \<Rightarrow> string \<Rightarrow> string option" where
  "resolve_fields reg t p =
    (let q = dropWhile is_blank p; arrow = (peek q = Some (CHR ''-'') \<and> peek (tl q) = Some (CHR ''>'')) in
     if p = [] then Some t
     else if peek q = Some (CHR ''.'') \<or> arrow then
       (case take_ident (dropWhile is_blank (if arrow then tl (tl q) else tl q)) of
          None \<Rightarrow> None
        | Some (f, r) \<Rightarrow>
            (let base = cc__copy_type_base 256 t in
             if arrow \<and> base = [] then None
             else case cc_type_registry_lookup_field reg base f of
               None \<Rightarrow> None
             | Some ft \<Rightarrow> resolve_fields reg (cc__normalize_registry_type_name reg ft 256) r))
     else Some t)"
  by pat_completeness auto
termination
proof (relation "measure (\<lambda>(reg, t, p). length p)", simp, goal_cases)
  case (1 reg t p q arrow fr f r base ft)
  have "length r < length (dropWhile is_blank (if arrow then tl (tl q) else tl q))"
    using take_ident_length 1 by metis
  also have "\<dots> \<le> length q"
    using dropWhile_length [of is_blank "tl (tl q)"] dropWhile_length [of is_blank "tl q"] by (auto split: if_splits)
  also have "\<dots> \<le> length p" using dropWhile_length 1 by metis
  finally show ?case by simp
qed

declare resolve_fields.simps [simp del]

definition receiver_result :: "bool \<Rightarrow> string \<Rightarrow> string \<times> bool" where
  "receiver_result is_ptr t = (t, is_ptr \<or> CHR ''*'' \<in> set t)"

definition cc_type_registry_resolve_receiver_expr :: "type_registry \<Rightarrow> string \<Rightarrow> (string \<times> bool) option" where
  "cc_type_registry_resolve_receiver_expr reg e =
    (case receiver_root e of
       None \<Rightarrow> None
     | Some (is_ptr, root, rest) \<Rightarrow>
         (case cc_type_registry_lookup_var reg root of
            None \<Rightarrow> None
          | Some t \<Rightarrow> map_option (receiver_result is_ptr) (resolve_fields reg (cc__normalize_registry_type_name reg t 256) rest)))"

definition cc_type_registry_resolve_receiver_expr_at ::
  "string \<times> string \<Rightarrow> type_registry \<Rightarrow> string \<Rightarrow> string option \<Rightarrow> nat \<Rightarrow> (string \<times> bool) option" where
  "cc_type_registry_resolve_receiver_expr_at stale reg e source_text use_offset =
    (case receiver_root e of
       None \<Rightarrow> None
     | Some (is_ptr, root, rest) \<Rightarrow>
         (let t = (case source_text of
                     None \<Rightarrow> None
                   | Some src \<Rightarrow> cc__lookup_scoped_local_var_type stale src use_offset root 256);
              t = (case t of None \<Rightarrow> cc_type_registry_lookup_var reg root | Some t \<Rightarrow> Some t) in
          case t of
            None \<Rightarrow> None
          | Some t \<Rightarrow> map_option (receiver_result is_ptr) (resolve_fields reg (cc__normalize_registry_type_name reg t 256) rest)))"

definition is_digit :: "char \<Rightarrow> bool" where
  "is_digit c = between (CHR ''0'') (CHR ''9'') c"

function cc_type_registry_resolve_expr_type :: "type_registry \<Rightarrow> string \<Rightarrow> string option" where
  "cc_type_registry_resolve_expr_type reg e =
    (let p = dropWhile lit_space e; t = rev (dropWhile lit_space (rev p)) in
     if t = [] \<or> 256 \<le> length t then None
     else if hd p = dquote \<or> 1 < length t \<and> hd p = CHR ''L'' \<and> p ! 1 = dquote then Some ''const char*''
     else if hd p = squote then Some ''char''
     else if t = ''true'' \<or> t = ''false'' then Some ''bool''
     else if t = ''NULL'' then Some ''void*''
     else if starts ''sizeof('' t then Some ''size_t''
     else if is_digit (hd p) \<or> (hd p = CHR ''+'' \<or> hd p = CHR ''-'') \<and> 1 < length t \<and> is_digit (p ! 1)
     then Some (if \<exists>c \<in> set t. c = CHR ''.'' \<or> c = CHR ''e'' \<or> c = CHR ''E'' then ''double'' else ''int'')
     else
      (let r = (case cc_type_registry_resolve_receiver_expr reg p of Some (r, _) \<Rightarrow> r | None \<Rightarrow> []) in
       if r \<noteq> [] then Some r
       else if hd p = CHR ''&'' then
         (case cc_type_registry_resolve_expr_type reg (tl p) of
            None \<Rightarrow> None
          | Some inner \<Rightarrow> if inner = [] \<or> 256 \<le> length inner + 1 then None else Some (inner @ ''*''))
       else None))"
  by pat_completeness auto
termination
proof (relation "measure (\<lambda>(reg, e). length e)", simp, goal_cases)
  case (1 reg e p t)
  then have "p = dropWhile lit_space e" "t = rev (dropWhile lit_space (rev p))" "t \<noteq> []" by blast+
  then have "p \<noteq> []" "length p \<le> length e"
    using dropWhile_length [of lit_space e] by (metis dropWhile.simps(1) rev.simps(1), simp)
  then show ?case by (cases p) auto
qed

declare cc_type_registry_resolve_expr_type.simps [simp del]

section \<open>The tables implement the interface of a name map\<close>

text \<open>A placeholder of the parser gives way to the next type; any other type stays.\<close>

definition concrete_wins :: "string option \<Rightarrow> string \<Rightarrow> string" where
  "concrete_wins old t = (case old of None \<Rightarrow> t | Some u \<Rightarrow> if cc__is_parser_placeholder_type u then t else u)"

lemma merge_concrete:
  "foldl (\<lambda>o' v. Some (concrete_wins o' v)) None ts =
    (case filter (\<lambda>t. \<not> cc__is_parser_placeholder_type t) ts of
       t # _ \<Rightarrow> Some t
     | [] \<Rightarrow> if ts = [] then None else Some (last ts))"
proof (induction ts rule: rev_induct)
  case (snoc t ts)
  then show ?case
    by (cases "filter (\<lambda>t. \<not> cc__is_parser_placeholder_type t) ts")
      (auto simp: concrete_wins_def filter_empty_conv dest: filter_eq_ConsD)
qed simp

lemma placeholder_not_channel:
  "cc__is_parser_placeholder_type t \<Longrightarrow> \<not> starts ''CCChanTx_'' t \<and> \<not> starts ''CCChanRx_'' t"
  by (auto simp: cc__is_parser_placeholder_type_def starts_def)

lemmas entry_simps = map_of_replace map_of_snoc ensure_var_capacity_def ensure_alias_capacity_def ensure_field_capacity_def grown_def
  concrete_wins_def last_wins_def

lemma map_of_SomeI: "map_of es k = Some v \<Longrightarrow> k \<in> fst ` set es"
  by (metis domIff dom_map_of_conv_image_fst option.distinct(1))

lemma map_of_NoneI: "map_of es k = None \<Longrightarrow> k \<notin> fst ` set es"
  by (simp add: map_of_eq_None_iff)

interpretation reg_vars: name_map cc_type_registry_new "\<lambda>r n t. fst (cc_type_registry_add_var True r n t)"
  cc_type_registry_lookup_var concrete_wins "\<lambda>_. True" "\<lambda>_ _. True"
  by unfold_locales
    (auto simp: cc_type_registry_new_def cc_type_registry_add_var_def cc_type_registry_lookup_var_def entry_simps
      map_of_SomeI map_of_NoneI simp del: map_of_append split: option.splits dest: placeholder_not_channel)

interpretation reg_aliases: name_map cc_type_registry_new "\<lambda>r n t. fst (cc_type_registry_add_alias True r n t)"
  cc_type_registry_lookup_alias last_wins "\<lambda>_. True" "\<lambda>_ _. True"
  by unfold_locales
    (auto simp: cc_type_registry_new_def cc_type_registry_add_alias_def cc_type_registry_lookup_alias_def entry_simps
      map_of_SomeI map_of_NoneI simp del: map_of_append split: option.splits)

interpretation reg_members: name_map cc_type_registry_new "\<lambda>r k t. fst (cc_type_registry_add_field True r (fst k) (snd k) t)"
  "\<lambda>r k. cc_type_registry_lookup_field r (fst k) (snd k)" concrete_wins "\<lambda>_. True" "\<lambda>_ _. True"
  by unfold_locales
    (auto simp: cc_type_registry_new_def cc_type_registry_add_field_def cc_type_registry_lookup_field_def entry_simps
      map_of_SomeI map_of_NoneI simp del: map_of_append split: option.splits)

text \<open>The registry keeps for a variable, and for a field of a struct, the first concrete type it was given; as long as
  it has seen placeholders of the parser only, it has the last of them.  For an alias it has the last type
  given.\<close>
theorem registry_first_concrete:
  "(let ts = map snd (filter (\<lambda>(n', _). n' = n) nts) in
    cc_type_registry_lookup_var (foldl (\<lambda>r (n, t). fst (cc_type_registry_add_var True r n t)) cc_type_registry_new nts) n =
      (case filter (\<lambda>t. \<not> cc__is_parser_placeholder_type t) ts of
         t # _ \<Rightarrow> Some t
       | [] \<Rightarrow> if ts = [] then None else Some (last ts)) \<and>
    cc_type_registry_lookup_alias (foldl (\<lambda>r (n, t). fst (cc_type_registry_add_alias True r n t)) cc_type_registry_new nts) n =
      (if ts = [] then None else Some (last ts))) \<and>
   (let ts = map snd (filter (\<lambda>(k', _). k' = (s, f)) kts) in
    cc_type_registry_lookup_field
      (foldl (\<lambda>r (k, t). fst (cc_type_registry_add_field True r (fst k) (snd k) t)) cc_type_registry_new kts) s f =
      (case filter (\<lambda>t. \<not> cc__is_parser_placeholder_type t) ts of
         t # _ \<Rightarrow> Some t
       | [] \<Rightarrow> if ts = [] then None else Some (last ts)))"
  using reg_vars.get_sets [of nts n] reg_aliases.get_sets [of nts n] reg_members.get_sets [of kts "(s, f)"]
  by (simp add: list_all_iff reg_vars.merged_def reg_aliases.merged_def reg_members.merged_def merge_concrete merge_last Let_def)

section \<open>Containers are not expanded\<close>

lemma container_name_empty: "container_name (\<lambda>_. []) w = w"
proof -
  have "cc_result_spec_mangle_type [] 128 = []" by (simp add: cc_result_spec_mangle_type_def)
  then show ?thesis by (simp add: container_name_def Let_def split: option.splits)
qed


section \<open>Scopes\<close>

text \<open>What the statements of a source do to the scopes of a variable.\<close>

datatype scope_event = Open | Close | Declare string | Other

fun scope_events :: "string \<Rightarrow> string \<Rightarrow> nat \<Rightarrow> string \<times> string \<Rightarrow> (nat \<times> char) list \<Rightarrow> scope_event list" where
  "scope_events src v start bufs [] = []"
| "scope_events src v start bufs ((i, c) # ics) =
    (if c = CHR ''{'' then Open # scope_events src v (i + 1) bufs ics
     else if c = CHR ''}'' then Close # scope_events src v (i + 1) bufs ics
     else if c = CHR '';'' then
       (let b = (case cc_parse_decl_name_and_type (slice src start i) 128 256 of Some nt \<Rightarrow> nt | None \<Rightarrow> bufs) in
        (if fst b \<noteq> [] \<and> fst b = v \<and> \<not> cc_is_non_decl_stmt_type (snd b)
         then Declare (cc__normalize_local_decl_type 256 (snd b)) else Other) #
        scope_events src v (i + 1) b ics)
     else scope_events src v start bufs ics)"

text \<open>Block structure: a stack of frames with the latest declaration first.\<close>

fun env_step :: "string list list \<Rightarrow> scope_event \<Rightarrow> string list list" where
  "env_step fs Open = [] # fs"
| "env_step fs Close = (if 1 < length fs then tl fs else [[]])"
| "env_step fs (Declare t) = (t # hd fs) # tl fs"
| "env_step fs Other = fs"

definition frame_decls :: "nat list \<Rightarrow> string list list \<Rightarrow> (nat \<times> string) list" where
  "frame_decls ids fs = concat (map2 (\<lambda>i f. map (Pair i) f) ids fs)"

definition scopes_sim :: "scope_state \<Rightarrow> string list list \<Rightarrow> bool" where
  "scopes_sim st fs =
    (length (scope_stack st) = length fs \<and> fs \<noteq> [] \<and> distinct (scope_stack st) \<and> last (scope_stack st) = 0 \<and>
     (\<forall>i \<in> set (scope_stack st). i < next_scope_id st) \<and> decls st = frame_decls (scope_stack st) fs)"

lemma frame_decls_ids: "(i, t) \<in> set (frame_decls ids fs) \<Longrightarrow> i \<in> set ids"
  by (auto simp: frame_decls_def dest: set_zip_leftD)

lemma frame_decls_Cons [simp]: "frame_decls (i # ids) (f # fs) = map (Pair i) f @ frame_decls ids fs"
  by (simp add: frame_decls_def)

lemma frame_decls_drop:
  assumes "i \<notin> set ids"
  shows "dropWhile (\<lambda>d. fst d = i) (map (Pair i) f @ frame_decls ids fs) = frame_decls ids fs"
proof -
  have "\<forall>d \<in> set (frame_decls ids fs). fst d \<noteq> i" using assms frame_decls_ids [of _ _ ids fs] by force
  then have "dropWhile (\<lambda>d. fst d = i) (frame_decls ids fs) = frame_decls ids fs"
    by (cases "frame_decls ids fs") auto
  then show ?thesis by (simp add: dropWhile_append)
qed

lemma frame_types: "length ids = length fs \<Longrightarrow> map snd (frame_decls ids fs) = concat fs"
  by (induction ids fs rule: list_induct2) (simp_all add: frame_decls_def map_concat comp_def)

lemma scopes_cases:
  assumes "scopes_sim st fs"
  obtains i ids f fs' where "scope_stack st = i # ids" "fs = f # fs'" "length ids = length fs'"
  using assms unfolding scopes_sim_def by (cases "scope_stack st"; cases fs) auto

lemma open_sim:
  assumes "scopes_sim st fs"
  shows "scopes_sim (st\<lparr>scope_stack := next_scope_id st # scope_stack st, next_scope_id := next_scope_id st + 1, stmt_start := s\<rparr>) ([] # fs)"
  using assms by (auto simp: scopes_sim_def less_Suc_eq)

lemma close_sim:
  assumes "scopes_sim st fs"
  shows "scopes_sim (st\<lparr>decls := dropWhile (\<lambda>d. fst d = (if 1 < length (scope_stack st) then hd (scope_stack st) else 0)) (decls st),
    scope_stack := (if 1 < length (scope_stack st) then tl (scope_stack st) else scope_stack st), stmt_start := s\<rparr>)
    (env_step fs Close)"
proof -
  obtain i ids f fs' where c: "scope_stack st = i # ids" "fs = f # fs'" "length ids = length fs'"
    using scopes_cases [OF assms] .
  have "i \<notin> set ids" "decls st = map (Pair i) f @ frame_decls ids fs'" using assms c by (simp_all add: scopes_sim_def)
  moreover have "ids = [] \<Longrightarrow> i = 0" using assms c by (simp add: scopes_sim_def)
  ultimately show ?thesis
    using assms c frame_decls_drop [of i ids f fs'] by (cases ids; cases fs') (auto simp: scopes_sim_def frame_decls_def)
qed

lemma declare_sim:
  assumes "scopes_sim st fs"
  shows "scopes_sim (st\<lparr>decls := (hd (scope_stack st), t) # decls st, stmt_start := s, buffers := b\<rparr>) (env_step fs (Declare t))"
proof -
  obtain i ids f fs' where c: "scope_stack st = i # ids" "fs = f # fs'" "length ids = length fs'"
    using scopes_cases [OF assms] .
  then show ?thesis using assms by (simp add: scopes_sim_def)
qed

definition opens :: "scope_event list \<Rightarrow> nat" where
  "opens es = length (filter (\<lambda>e. e = Open) es)"

definition declares :: "scope_event list \<Rightarrow> nat" where
  "declares es = length (filter (\<lambda>e. \<exists>t. e = Declare t) es)"

lemma scope_run_sim:
  "scopes_sim st fs \<Longrightarrow> length (scope_stack st) + opens (scope_events src v (stmt_start st) (buffers st) ics) \<le> 256 \<Longrightarrow>
   length (decls st) + declares (scope_events src v (stmt_start st) (buffers st) ics) \<le> 256 \<Longrightarrow>
   scopes_sim (foldl (scope_step src v) st ics) (foldl env_step fs (scope_events src v (stmt_start st) (buffers st) ics))"
proof (induction ics arbitrary: st fs)
  case (Cons ic ics)
  obtain i c where ic: "ic = (i, c)" by force
  define b where "b = (case cc_parse_decl_name_and_type (slice src (stmt_start st) i) 128 256 of Some nt \<Rightarrow> nt | None \<Rightarrow> buffers st)"
  define hit where "hit = (fst b \<noteq> [] \<and> fst b = v \<and> \<not> cc_is_non_decl_stmt_type (snd b))"
  let ?t = "cc__normalize_local_decl_type 256 (snd b)"
  have ev: "scope_events src v (stmt_start st) (buffers st) (ic # ics) = (if hit then Declare ?t else Other) # scope_events src v (i + 1) b ics"
    if "c = CHR '';''" using that by (simp add: ic Let_def b_def [symmetric] hit_def)
  have step: "scope_step src v st ic = st\<lparr>decls := (if hit \<and> length (decls st) < 256 then (hd (scope_stack st), ?t) # decls st else decls st),
      stmt_start := i + 1, buffers := b\<rparr>" if "c = CHR '';''"
    using that by (simp add: ic scope_step_def Let_def b_def [symmetric] hit_def)
  consider "c = CHR ''{''" | "c = CHR ''}''" | "c = CHR '';''" hit | "c = CHR '';''" "\<not> hit"
    | "c \<noteq> CHR ''{''" "c \<noteq> CHR ''}''" "c \<noteq> CHR '';''" by blast
  then show ?case
  proof cases
    case 1
    then have "length (scope_stack st) < 256" using Cons.prems by (simp add: ic opens_def)
    then show ?thesis
      using Cons.IH [OF open_sim [OF Cons.prems(1), of "i + 1"]] Cons.prems 1 by (simp add: ic scope_step_def opens_def declares_def)
  next
    case 2
    let ?cl = "if 1 < length (scope_stack st) then hd (scope_stack st) else 0"
    let ?st = "st\<lparr>decls := dropWhile (\<lambda>d. fst d = ?cl) (decls st),
      scope_stack := (if 1 < length (scope_stack st) then tl (scope_stack st) else scope_stack st), stmt_start := i + 1\<rparr>"
    have "scope_step src v st ic = ?st" using 2 by (simp add: ic scope_step_def Let_def)
    moreover have "scope_events src v (stmt_start st) (buffers st) (ic # ics) = Close # scope_events src v (i + 1) (buffers st) ics"
      using 2 by (simp add: ic)
    moreover have "length (decls ?st) \<le> length (decls st)" "length (scope_stack ?st) \<le> length (scope_stack st)"
      by (simp_all add: dropWhile_length)
    ultimately show ?thesis
      using Cons.IH [OF close_sim [OF Cons.prems(1), of "i + 1"]] Cons.prems by (simp add: opens_def declares_def)
  next
    case 3
    then have "length (decls st) < 256" using Cons.prems(3) ev by (simp add: declares_def)
    then show ?thesis
      using Cons.IH [OF declare_sim [OF Cons.prems(1), where t = ?t and s = "i + 1" and b = b]] Cons.prems 3 ev step by (simp add: opens_def declares_def)
  next
    case 4
    have "scopes_sim (st\<lparr>stmt_start := i + 1, buffers := b\<rparr>) fs" using Cons.prems(1) by (simp add: scopes_sim_def)
    from Cons.IH [OF this] show ?thesis using Cons.prems 4 ev step by (simp add: opens_def declares_def)
  next
    case 5
    then show ?thesis using Cons by (simp add: ic scope_step_def)
  qed
qed simp



text \<open>Two ways in which the lookup misses block structure.  A declaration whose initialiser has a
  decimal point or a member access is not taken as one, so the variable it shadows is found; and an empty
  statement, as after the body of a struct, is answered with what the buffers held, so a field of the struct is taken
  for a variable of the enclosing block.\<close>
theorem scoped_lookup_pitfalls:
  "cc_parse_decl_name_and_type ''double x = 1.5'' 128 256 = Some ([], []) \<and>
   cc__lookup_scoped_local_var_type ([], []) ''char x; { double x = 1.5; x'' 27 ''x'' 256 = Some ''char'' \<and>
   cc__lookup_scoped_local_var_type ([], []) ''struct s { int x; }; x'' 22 ''x'' 256 = Some ''int''"
  by code_simp

section \<open>Chains of fields\<close>

definition is_name :: "string \<Rightarrow> bool" where
  "is_name n = (n \<noteq> [] \<and> cc_is_ident_start (hd n) \<and> list_all cc_is_ident_char n \<and> length n < 128)"

definition dotted :: "string \<Rightarrow> string list \<Rightarrow> string" where
  "dotted root fs = root @ concat (map (\<lambda>f. CHR ''.'' # f) fs)"

fun walk :: "type_registry \<Rightarrow> string \<Rightarrow> string list \<Rightarrow> string option" where
  "walk reg t [] = Some t"
| "walk reg t (f # fs) =
    (case cc_type_registry_lookup_field reg (cc__copy_type_base 256 t) f of
       None \<Rightarrow> None
     | Some ft \<Rightarrow> walk reg (cc__normalize_registry_type_name reg ft 256) fs)"

lemma take_ident_name:
  assumes "is_name n" "r = [] \<or> \<not> cc_is_ident_char (hd r)"
  shows "take_ident (n @ r) = Some (n, r)"
proof -
  have "takeWhile cc_is_ident_char (n @ r) = n" "dropWhile cc_is_ident_char (n @ r) = r"
    using assms by (cases r; auto simp: is_name_def list_all_iff takeWhile_append dropWhile_append)+
  then show ?thesis using assms by (simp add: take_ident_def is_name_def fit_def)
qed

lemma dot_not_ident: "\<not> cc_is_ident_char (CHR ''.'')" "\<not> is_blank (CHR ''.'')"
  by (simp_all add: cc_is_ident_char_def cc_is_ident_start_def between_def is_blank_def)

lemma fields_head: "concat (map (\<lambda>f. CHR ''.'' # f) fs) = [] \<or> \<not> cc_is_ident_char (hd (concat (map (\<lambda>f. CHR ''.'' # f) fs)))"
  by (cases fs) (simp_all add: dot_not_ident)

lemma ident_start_not_blank: "is_name n \<Longrightarrow> dropWhile is_blank (n @ r) = n @ r"
  by (cases n) (auto simp: is_name_def cc_is_ident_start_def between_def is_blank_def)

lemma resolve_walk: "list_all is_name fs \<Longrightarrow> resolve_fields reg t (concat (map (\<lambda>f. CHR ''.'' # f) fs)) = walk reg t fs"
proof (induction fs arbitrary: t)
  case (Cons f fs)
  then show ?case
    using take_ident_name [OF _ fields_head [of fs], of f]
    by (subst resolve_fields.simps) (auto simp: Let_def peek_def dot_not_ident ident_start_not_blank split: option.splits)
qed (simp add: resolve_fields.simps)

lemma name_trim:
  assumes "is_name root" "list_all is_name fs"
  shows "rev (dropWhile is_ws (rev (dropWhile is_ws (dotted root fs)))) = dotted root fs"
proof -
  have id_ws: "cc_is_ident_char c \<Longrightarrow> \<not> is_ws c" for c by (rule ident_not_ws)
  have "dotted root fs \<noteq> []" "\<not> is_ws (hd (dotted root fs))"
    using assms(1) id_ws by (auto simp: dotted_def is_name_def cc_is_ident_char_def)
  moreover have "\<not> is_ws (last (dotted root fs))"
  proof (cases fs rule: rev_cases)
    case Nil
    then show ?thesis using assms(1) id_ws by (auto simp: dotted_def is_name_def list_all_iff)
  next
    case (snoc gs g)
    then show ?thesis using assms(2) id_ws by (auto simp: dotted_def is_name_def list_all_iff)
  qed
  ultimately have "dropWhile is_ws (dotted root fs) = dotted root fs" "dropWhile is_ws (rev (dotted root fs)) = rev (dotted root fs)"
    by (simp_all add: dropWhile_eq_self_iff hd_rev)
  then show ?thesis by simp
qed

text \<open>A receiver expression that is a chain of fields is resolved field by field: the type of the variable,
  normalised, gives the struct in which the first field is looked up, and so on; a step
  that is not registered ends the resolution without a type.\<close>
theorem receiver_chain_resolved:
  assumes "is_name root" "list_all is_name fs" "length (dotted root fs) < 256"
  shows "cc_type_registry_resolve_receiver_expr reg (dotted root fs) =
    (case cc_type_registry_lookup_var reg root of
       None \<Rightarrow> None
     | Some t \<Rightarrow> map_option (receiver_result False) (walk reg (cc__normalize_registry_type_name reg t 256) fs))"
proof -
  have "dotted root fs \<noteq> []" "hd (dotted root fs) \<noteq> CHR ''&''"
    using assms(1) by (auto simp: dotted_def is_name_def cc_is_ident_start_def between_def)
  moreover have "take_ident (dotted root fs) = Some (root, concat (map (\<lambda>f. CHR ''.'' # f) fs))"
    unfolding dotted_def by (rule take_ident_name [OF assms(1) fields_head])
  ultimately have "receiver_root (dotted root fs) = Some (False, root, concat (map (\<lambda>f. CHR ''.'' # f) fs))"
    using assms(3) name_trim [OF assms(1,2)] by (simp add: receiver_root_def)
  then show ?thesis
    by (simp add: cc_type_registry_resolve_receiver_expr_def resolve_walk [OF assms(2)] split: option.splits)
qed

theorem receiver_chain_resolved_witness:
  "let reg = fst (cc_type_registry_add_field True (fst (cc_type_registry_add_var True cc_type_registry_new ''p'' ''node*'')) ''node'' ''next'' ''node*'')
   in cc_type_registry_resolve_receiver_expr reg ''p.next.next'' = Some (''node*'', True)"
proof -
  let ?reg = "fst (cc_type_registry_add_field True (fst (cc_type_registry_add_var True cc_type_registry_new ''p'' ''node*'')) ''node'' ''next'' ''node*'')"
  have "is_name ''p''" "list_all is_name [''next'', ''next'']" "dotted ''p'' [''next'', ''next''] = ''p.next.next''" by code_simp+
  then have "cc_type_registry_resolve_receiver_expr ?reg ''p.next.next'' =
    (case cc_type_registry_lookup_var ?reg ''p'' of
       None \<Rightarrow> None
     | Some t \<Rightarrow> map_option (receiver_result False) (walk ?reg (cc__normalize_registry_type_name ?reg t 256) [''next'', ''next'']))"
    using receiver_chain_resolved [of "''p''" "[''next'', ''next'']" ?reg] by simp
  also have "\<dots> = Some (''node*'', True)" by code_simp
  finally show ?thesis by (simp add: Let_def)
qed

end
