(* ===== verification/Unwrap_Scan.thy ===== *)
theory Unwrap_Scan
  imports Ir Name_Tables
begin

text \<open>
  The scanners of the pass that lowers the unwrap operators (visitor/pass_result_unwrap.c):
  token search, operand and right-hand side ranges, trimming, word substitution,
  flattening of handler bodies, the search for the enclosing handler, the
  divergence check and the scan for unhandled results.  Several of them repeat scanners of
  ir/ir.c and util/text.h; the theorems say how far the copies agree.
\<close>

section \<open>Callee and words\<close>

definition cc__ru_extract_plain_callee :: "string \<Rightarrow> nat \<Rightarrow> nat \<Rightarrow> nat \<Rightarrow> string option" where
  "cc__ru_extract_plain_callee s a b out_sz =
    (let t = trim_space (slice s a b); name = takeWhile cc_is_ident_char t;
         k = dropWhile lit_space (dropWhile cc_is_ident_char t) in
     if out_sz = 0 \<or> t = [] then None
     else if last t \<noteq> CHR '')'' then None
     else if \<not> cc_is_ident_start (hd t) then None
     else if k = [] \<or> hd k \<noteq> CHR ''('' then None
     else if out_sz < length name + 1 then None
     else Some name)"

lemma find_ident_bounds:
  assumes "cc_find_ident_top_level src p n w < n" "w \<noteq> []" "n \<le> length src"
  shows "p \<le> cc_find_ident_top_level src p n w"
proof -
  have "sub_loop k test m cs q = Some r \<Longrightarrow> q \<le> r" for k test m cs q r
  proof (induction cs arbitrary: m q rule: length_induct)
    case (1 cs)
    show ?case
    proof (cases cs)
      case (Cons c rest)
      obtain m' skip code where st: "lex_step False m c (peek rest) = (m', skip, code)" by (metis prod_cases3)
      have IH: "sub_loop k test m' ys q' = Some r \<Longrightarrow> length ys < length cs \<Longrightarrow> q' \<le> r" for ys q'
        using 1(1) by blast
      have "length (tl rest) < length cs" by (simp add: Cons less_Suc_eq_le)
      then show ?thesis
        using 1(2) st IH [of rest "q + 1"] IH [of "tl rest" "q + 2"] by (auto simp: Cons split: if_splits)
    qed (use 1 in simp)
  qed
  then show ?thesis
    using assms by (auto simp: cc_find_ident_top_level_def found_or_def split: if_splits option.splits)
qed

function mangle_words :: "string \<Rightarrow> string \<Rightarrow> string \<Rightarrow> nat \<Rightarrow> string" where
  "mangle_words src bnd mangled p =
    (if p < length src \<and> bnd \<noteq> [] then
       (let found = cc_find_ident_top_level src p (length src) bnd in
        if length src \<le> found then drop p src
        else slice src p found @ mangled @ mangle_words src bnd mangled (found + length bnd))
     else [])"
  by pat_completeness auto
termination
proof (relation "measure (\<lambda>(src, bnd, mangled, p). length src - p)", simp, goal_cases)
  case (1 src bnd mangled p found)
  then have "p \<le> found" "found < length src" "0 < length bnd" using find_ident_bounds [of src p "length src" bnd] by auto
  then have "length src - (found + length bnd) < length src - p" by linarith
  then show ?case by simp
qed

declare mangle_words.simps [simp del]

definition cc__pu_mangle_binder_in_body :: "string \<Rightarrow> string \<Rightarrow> string \<Rightarrow> string" where
  "cc__pu_mangle_binder_in_body src bnd mangled = (if bnd = [] then src else mangle_words src bnd mangled 0)"

function subst_words :: "string \<Rightarrow> string \<Rightarrow> char option \<Rightarrow> string \<Rightarrow> string" where
  "subst_words from to prev [] = []"
| "subst_words from to prev (c # cs) =
    (let rest = drop (length from) (c # cs) in
     if from \<noteq> [] \<and> take (length from) (c # cs) = from \<and> (case prev of None \<Rightarrow> True | Some p \<Rightarrow> \<not> cc_is_ident_char p) \<and>
        (case rest of [] \<Rightarrow> True | x # _ \<Rightarrow> \<not> cc_is_ident_char x)
     then to @ subst_words from to (Some (last from)) rest
     else c # subst_words from to (Some c) cs)"
  by pat_completeness auto
termination by (relation "measure (\<lambda>(from, to, prev, cs). length cs)") (auto simp: Suc_diff_le neq_Nil_conv)

definition cc__pu_subst_word :: "string \<Rightarrow> string \<Rightarrow> string \<Rightarrow> string" where
  "cc__pu_subst_word body from to = (if from = [] then body else subst_words from to None body)"

section \<open>Tokens and boundaries\<close>

function token_loop :: "char \<Rightarrow> char \<Rightarrow> lex_mode \<Rightarrow> string \<Rightarrow> nat \<Rightarrow> nat option" where
  "token_loop c c2 m [] p = None"
| "token_loop c c2 m (x # xs) p =
    (case lex_step False m x (peek xs) of (m', skip, code) \<Rightarrow>
       if code then (if x = c \<and> peek xs = Some c2 then Some p else token_loop c c2 m' xs (p + 1))
       else if skip then token_loop c c2 m' (tl xs) (p + 2)
       else token_loop c c2 m' xs (p + 1))"
  by pat_completeness auto
termination by (relation "measure (\<lambda>(c, c2, m, xs, p). length xs)") auto

definition cc__find_unwrap_token :: "string \<Rightarrow> nat \<Rightarrow> nat option" where
  "cc__find_unwrap_token s n = token_loop (CHR ''?'') (CHR ''>'') Code (slice s 0 n) 0"

definition cc__find_bang_token_from :: "string \<Rightarrow> nat \<Rightarrow> nat \<Rightarrow> nat option" where
  "cc__find_bang_token_from s n start = token_loop (CHR ''!'') (CHR ''>'') Code (slice s start n) start"

definition cc__eq_is_boundary :: "string \<Rightarrow> nat \<Rightarrow> nat \<Rightarrow> bool" where
  "cc__eq_is_boundary s n pos =
    (if pos = 0 then True
     else if s ! (pos - 1) \<in> {CHR ''='', CHR ''!'', CHR ''<'', CHR ''>''} then False
     else if pos + 1 < n \<and> s ! (pos + 1) = CHR ''='' then False
     else True)"

definition cc__skip_str_backward :: "string \<Rightarrow> nat \<Rightarrow> nat" where
  "cc__skip_str_backward s i = (if i = 0 then i else str_back s (s ! i) i)"

definition cc__skip_block_comment_backward :: "string \<Rightarrow> nat \<Rightarrow> nat" where
  "cc__skip_block_comment_backward s i = (if i < 1 then 0 else block_back s i (i - 1))"

definition cc__pos_in_line_comment :: "string \<Rightarrow> nat \<Rightarrow> bool" where
  "cc__pos_in_line_comment s pos =
    (let line_start = pos - length (takeWhile (\<lambda>c. c \<noteq> newline) (rev (take pos s)))
     in line_comment_scan None (slice s line_start pos))"

lemma copied_scanners:
  "cc__eq_is_boundary = cc_ir_eq_is_boundary" "cc__skip_str_backward = cc_ir_skip_str_backward"
  "cc__skip_block_comment_backward = cc_ir_skip_block_comment_backward" "cc__pos_in_line_comment = cc_ir_pos_in_line_comment"
  by (simp_all add: fun_eq_iff cc__eq_is_boundary_def cc_ir_eq_is_boundary_def cc__skip_str_backward_def cc_ir_skip_str_backward_def
    cc__skip_block_comment_backward_def cc_ir_skip_block_comment_backward_def cc__pos_in_line_comment_def cc_ir_pos_in_line_comment_def)

text \<open>The operand of \<^verbatim>\<open>?>\<close>: unlike that of \<^verbatim>\<open>!>\<close> it may contain whole blocks.\<close>

function raw_loop :: "string \<Rightarrow> nat \<Rightarrow> nat \<Rightarrow> nat \<Rightarrow> nat \<Rightarrow> nat \<Rightarrow> nat" where
  "raw_loop s from pr bk bc 0 = 0"
| "raw_loop s from pr bk bc (Suc i) =
    (let c = s ! i in
     if c = CHR ''/'' \<and> 0 < i \<and> s ! (i - 1) = CHR ''*''
     then raw_loop s from pr bk bc (cc__skip_block_comment_backward s i)
     else if c \<noteq> newline \<and> cc__pos_in_line_comment s i then raw_loop s from pr bk bc (line_back s i)
     else if c = dquote \<or> c = squote then raw_loop s from pr bk bc (cc__skip_str_backward s i)
     else if c = CHR '')'' then raw_loop s from (pr + 1) bk bc i
     else if c = CHR ''('' then (if 0 < pr then raw_loop s from (pr - 1) bk bc i else i + 1)
     else if c = CHR '']'' then raw_loop s from pr (bk + 1) bc i
     else if c = CHR ''['' then raw_loop s from pr (bk - 1) bc i
     else if c = CHR ''}'' then raw_loop s from pr bk (bc + 1) i
     else if c = CHR ''{'' then (if 0 < bc then raw_loop s from pr bk (bc - 1) i else i + 1)
     else if 0 < pr \<or> 0 < bk \<or> 0 < bc then raw_loop s from pr bk bc i
     else if c = CHR '';'' \<or> c = CHR '','' \<or> c = CHR ''?'' \<or> c = CHR '':'' then i + 1
     else if c = CHR ''='' \<and> cc__eq_is_boundary s from i then i + 1
     else if c = CHR ''&'' \<and> 0 < i \<and> s ! (i - 1) = CHR ''&'' then i + 1
     else if c = CHR ''|'' \<and> 0 < i \<and> s ! (i - 1) = CHR ''|'' then i + 1
     else raw_loop s from pr bk bc i)"
  by pat_completeness auto
termination
  by (relation "measure (\<lambda>(s, from, pr, bk, bc, i). i)") (auto simp: le_imp_less_Suc back_le copied_scanners)

definition cc__find_lhs_start_backward_raw :: "string \<Rightarrow> nat \<Rightarrow> nat" where
  "cc__find_lhs_start_backward_raw s from = raw_loop s from 0 0 0 from"

definition cc__find_lhs_start_backward :: "string \<Rightarrow> nat \<Rightarrow> nat" where
  "cc__find_lhs_start_backward s from =
    (let start = cc__find_lhs_start_backward_raw s from; j = start + length (takeWhile is_ws (slice s start from)) in
     if j + 6 \<le> from \<and> at s ''return'' j \<and> (j + 6 = from \<or> \<not> cc_is_ident_char (s ! (j + 6))) \<and>
        (j = 0 \<or> \<not> cc_is_ident_char (s ! (j - 1)))
     then j + 6 else start)"

definition cc__find_rhs_end_forward :: "string \<Rightarrow> nat \<Rightarrow> nat \<Rightarrow> nat" where
  "cc__find_rhs_end_forward s n from = rhs_loop Code zero_depth (slice s from n) from"

definition cc__line_from_pos :: "string \<Rightarrow> nat \<Rightarrow> nat" where
  "cc__line_from_pos s pos = 1 + length (filter (\<lambda>c. c = newline) (c_str (take pos s)))"

subsection \<open>Trimming\<close>

text \<open>One round from the left: white space, a block comment and a line comment.\<close>

definition trim_round :: "string \<Rightarrow> string" where
  "trim_round t =
    (let t1 = dropWhile lit_space t;
         t2 = (if take 2 t1 = ''/*'' then skip_block_ptr (drop 2 t1) else t1)
     in if take 2 t2 = ''//'' then dropWhile (\<lambda>c. c \<noteq> newline) (drop 2 t2) else t2)"

function trim_left :: "string \<Rightarrow> string" where
  "trim_left t = (if length (trim_round t) < length t then trim_left (trim_round t) else t)"
  by pat_completeness auto
termination by (relation "measure length") auto

declare trim_left.simps [simp del]

definition comment_opens :: "string \<Rightarrow> nat \<Rightarrow> nat \<Rightarrow> bool" where
  "comment_opens s b k = (s ! k = CHR ''/'' \<and> k + 1 < b \<and> s ! (k + 1) = CHR ''*'')"

fun comment_open :: "string \<Rightarrow> nat \<Rightarrow> nat \<Rightarrow> nat \<Rightarrow> nat" where
  "comment_open s a b 0 = 0"
| "comment_open s a b (Suc k) = (if a < Suc k \<and> \<not> comment_opens s b (Suc k) then comment_open s a b k else Suc k)"

definition trim_back :: "string \<Rightarrow> nat \<Rightarrow> nat \<Rightarrow> nat" where
  "trim_back s a b =
    (let b1 = b - length (takeWhile lit_space (rev (slice s a b))); k = comment_open s a b1 (b1 - 2)
     in if a + 2 \<le> b1 \<and> s ! (b1 - 1) = CHR ''/'' \<and> s ! (b1 - 2) = CHR ''*'' \<and> a \<le> k \<and> comment_opens s b1 k then k else b1)"

function trim_right :: "string \<Rightarrow> nat \<Rightarrow> nat \<Rightarrow> nat" where
  "trim_right s a b = (if a < b \<and> trim_back s a b < b then trim_right s a (trim_back s a b) else b)"
  by pat_completeness auto
termination by (relation "measure (\<lambda>(s, a, b). b)") auto

declare trim_right.simps [simp del]

definition cc__trim_range :: "string \<Rightarrow> nat \<Rightarrow> nat \<Rightarrow> nat \<times> nat" where
  "cc__trim_range s a b =
    (if b \<le> a then (a, b)
     else (let a' = b - length (trim_left (slice s a b)) in (a', trim_right s a' b)))"

definition cc__match_ident_kw :: "string \<Rightarrow> nat \<Rightarrow> nat \<Rightarrow> string \<Rightarrow> bool" where
  "cc__match_ident_kw s n i kw =
    (i + length kw \<le> n \<and> at s kw i \<and> \<not> (0 < i \<and> cc_is_ident_char (s ! (i - 1))) \<and>
     \<not> (i + length kw < n \<and> cc_is_ident_char (s ! (i + length kw))))"

definition cc__range_is_ident :: "string \<Rightarrow> nat \<Rightarrow> nat \<Rightarrow> bool" where
  "cc__range_is_ident s a b =
    (a < b \<and> cc_is_ident_start (s ! a) \<and> list_all (\<lambda>i. cc_is_ident_char (s ! i)) [a + 1..<b])"

text \<open>The search for the end of a statement fails at an unmatched closing bracket.\<close>

function semi_loop :: "lex_mode \<Rightarrow> depth \<Rightarrow> string \<Rightarrow> nat \<Rightarrow> nat option" where
  "semi_loop m d [] p = None"
| "semi_loop m d (c # cs) p =
    (case lex_step False m c (peek cs) of (m', skip, code) \<Rightarrow>
       if code then
         (if c = CHR '')'' \<and> par d = 0 \<or> c = CHR '']'' \<and> brk d = 0 \<or> c = CHR ''}'' \<and> br d = 0 then None
          else if c = CHR '';'' \<and> d = zero_depth then Some p
          else semi_loop m' (depth_step d c) cs (p + 1))
       else if skip then semi_loop m' d (tl cs) (p + 2)
       else semi_loop m' d cs (p + 1))"
  by pat_completeness auto
termination by (relation "measure (\<lambda>(m, d, cs, p). length cs)") auto

definition cc__find_semi_forward :: "string \<Rightarrow> nat \<Rightarrow> nat \<Rightarrow> nat option" where
  "cc__find_semi_forward s n from = semi_loop Code zero_depth (slice s from n) from"

definition cc__bang_lhs_looks_like_decl :: "string \<Rightarrow> nat \<Rightarrow> nat \<Rightarrow> bool" where
  "cc__bang_lhs_looks_like_decl s a b =
    (a < b \<and> list_all (\<lambda>(p, c). c \<noteq> CHR ''('' \<and> c \<noteq> CHR '')'') (code_chars False Code (slice s a b) a))"

text \<open>The operand of \<^verbatim>\<open>!>\<close>: the start and whether a statement starts there.\<close>

function bang_loop :: "string \<Rightarrow> nat \<Rightarrow> nat \<Rightarrow> nat \<Rightarrow> nat \<Rightarrow> nat \<times> bool" where
  "bang_loop s op pr bk 0 = (0, True)"
| "bang_loop s op pr bk (Suc i) =
    (let c = s ! i in
     if c = CHR ''/'' \<and> 0 < i \<and> s ! (i - 1) = CHR ''*''
     then bang_loop s op pr bk (cc__skip_block_comment_backward s i)
     else if c \<noteq> newline \<and> cc__pos_in_line_comment s i then bang_loop s op pr bk (line_back s i)
     else if c = dquote \<or> c = squote then bang_loop s op pr bk (cc__skip_str_backward s i)
     else if c = CHR '')'' then bang_loop s op (pr + 1) bk i
     else if c = CHR ''('' then (if 0 < pr then bang_loop s op (pr - 1) bk i else (i + 1, False))
     else if c = CHR '']'' then bang_loop s op pr (bk + 1) i
     else if c = CHR ''['' then bang_loop s op pr (bk - 1) i
     else if 0 < pr \<or> 0 < bk then bang_loop s op pr bk i
     else if c = CHR '';'' \<or> c = CHR ''{'' \<or> c = CHR ''}'' then (i + 1, True)
     else if c = CHR ''@'' \<and> i + 1 < op \<and> cc_is_ident_start (s ! (i + 1)) then bang_loop s op pr bk i
     else if c = CHR '','' \<or> c = CHR ''?'' \<or> c = CHR '':'' \<or> c = CHR ''@'' then (i + 1, False)
     else if c = CHR ''='' \<and> cc__eq_is_boundary s op i then (i + 1, False)
     else if c = CHR ''&'' \<and> 0 < i \<and> s ! (i - 1) = CHR ''&'' then (i + 1, False)
     else if c = CHR ''|'' \<and> 0 < i \<and> s ! (i - 1) = CHR ''|'' then (i + 1, False)
     else bang_loop s op pr bk i)"
  by pat_completeness auto
termination
  by (relation "measure (\<lambda>(s, op, pr, bk, i). i)") (auto simp: le_imp_less_Suc back_le copied_scanners)

definition cc__find_bang_lhs_start_ex :: "string \<Rightarrow> nat \<Rightarrow> nat \<times> bool" where
  "cc__find_bang_lhs_start_ex s op_at = bang_loop s op_at 0 0 op_at"

definition cc__find_bang_lhs_start :: "string \<Rightarrow> nat \<Rightarrow> nat" where
  "cc__find_bang_lhs_start s op_at = fst (cc__find_bang_lhs_start_ex s op_at)"

section \<open>Handler bodies\<close>

text \<open>A quoted text up to its closing quote, as copied and the rest.\<close>

fun copy_quote :: "char \<Rightarrow> string \<Rightarrow> string \<times> string" where
  "copy_quote q [] = ([], [])"
| "copy_quote q [c] = ([c], [])"
| "copy_quote q (c # c2 # cs) =
    (if c = backslash then (case copy_quote q cs of (x, r) \<Rightarrow> (c # c2 # x, r))
     else if c = q then ([c], c2 # cs)
     else (case copy_quote q (c2 # cs) of (x, r) \<Rightarrow> (c # x, r)))"

lemma copy_quote_length: "copy_quote q cs = (x, r) \<Longrightarrow> x @ r = cs"
  by (induction q cs arbitrary: x r rule: copy_quote.induct) (auto split: if_splits prod.splits)

lemma copy_quote_shorter: "(x, r) = copy_quote q cs \<Longrightarrow> length r \<le> length cs"
  using copy_quote_length [of q cs x r] by auto

definition blank_newline :: "char \<Rightarrow> char" where
  "blank_newline c = (if c = newline \<or> c = CHR 0x0D then CHR '' '' else c)"

function flatten :: "string \<Rightarrow> string" where
  "flatten [] = []"
| "flatten (c # cs) =
    (if c = dquote \<or> c = squote then (case copy_quote c cs of (x, r) \<Rightarrow> (c # x) @ flatten r)
     else if c = CHR ''/'' \<and> peek cs = Some (CHR ''/'')
     then CHR '' '' # flatten (tl (dropWhile (\<lambda>x. x \<noteq> newline) (c # cs)))
     else if c = CHR ''/'' \<and> peek cs = Some (CHR ''*'')
     then (let r = skip_block (tl cs) in map blank_newline (take (length (c # cs) - length r) (c # cs)) @ flatten r)
     else blank_newline c # flatten cs)"
  by pat_completeness auto
termination
proof (relation "measure length", goal_cases)
  case (2 c cs x r)
  have "length r \<le> length cs" using copy_quote_shorter 2 by metis
  then show ?case by simp
next
  case (3 c cs)
  have "length (dropWhile (\<lambda>x. x \<noteq> newline) (c # cs)) \<le> length (c # cs)" by (rule dropWhile_length)
  moreover have "dropWhile (\<lambda>x. x \<noteq> newline) (c # cs) = dropWhile (\<lambda>x. x \<noteq> newline) cs" using 3(2) by (simp add: newline_def)
  moreover have "length (dropWhile (\<lambda>x. x \<noteq> newline) cs) \<le> length cs" by (rule dropWhile_length)
  ultimately show ?case by simp
next
  case (4 c cs r)
  have "length r \<le> length (tl cs)" unfolding 4(4) by (rule skip_block_length)
  then show ?case by simp
qed simp_all

definition cc__pu_flatten_handler_body :: "string \<Rightarrow> string" where
  "cc__pu_flatten_handler_body body = flatten body"

definition cc__pu_extract_param_name :: "string \<Rightarrow> nat \<Rightarrow> string" where
  "cc__pu_extract_param_name decl nc =
    (let w = takeWhile cc_is_ident_char (dropWhile lit_space (rev decl))
     in if w \<noteq> [] \<and> length w < nc then rev w else [])"

record handler =
  h_decl :: string
  h_body :: string
  h_pos :: nat

text \<open>A registration \<^verbatim>\<open>@errhandler(DECL) { BODY }\<close> at a position, with the position of its closing brace.\<close>

definition errhandler_at :: "string \<Rightarrow> nat \<Rightarrow> nat \<Rightarrow> (handler \<times> nat) option" where
  "errhandler_at s n i =
    (let j = i + 11 + length (takeWhile lit_space (slice s (i + 11) n)) in
     if \<not> (s ! i = CHR ''@'' \<and> i + 11 \<le> n \<and> at s ''@errhandler'' i) then None
     else if 0 < i \<and> cc_is_ident_char (s ! (i - 1)) then None
     else if i + 11 < n \<and> cc_is_ident_char (s ! (i + 11)) then None
     else if n \<le> j \<or> s ! j \<noteq> CHR ''('' then None
     else case cc_find_matching_paren s n j of
       None \<Rightarrow> None
     | Some rpar \<Rightarrow>
        (let k = rpar + 1 + length (takeWhile lit_space (slice s (rpar + 1) n)) in
         if n \<le> k \<or> s ! k \<noteq> CHR ''{'' then None
         else case cc_find_matching_brace s n k of
           None \<Rightarrow> None
         | Some rbrace \<Rightarrow>
             Some (\<lparr>h_decl = fit 256 (trim_space (slice s (j + 1) rpar)), h_body = slice s (k + 1) rbrace, h_pos = i\<rparr>, rbrace)))"

lemma errhandler_at_bounds:
  assumes "errhandler_at s n i = Some (h, rbrace)" "n \<le> length s"
  shows "i < rbrace" "rbrace < n"
proof -
  let ?j = "i + 11 + length (takeWhile lit_space (slice s (i + 11) n))"
  obtain rpar where p: "cc_find_matching_paren s n ?j = Some rpar"
    and b: "cc_find_matching_brace s n (rpar + 1 + length (takeWhile lit_space (slice s (rpar + 1) n))) = Some rbrace"
    using assms(1) unfolding errhandler_at_def Let_def by (auto split: if_splits option.splits)
  from matching_bounds(1) [OF disjI1 [OF p]] matching_bounds [OF disjI2 [OF b]] assms(2)
  show "i < rbrace" "rbrace < n" by auto
qed

function handler_loop :: "string \<Rightarrow> nat \<Rightarrow> nat \<Rightarrow> lex_mode \<Rightarrow> nat \<Rightarrow> handler option \<Rightarrow> handler option" where
  "handler_loop s n e m i best =
    (if i < e \<and> i < n \<and> n \<le> length s then
       (case lex_step False m (s ! i) (if i + 1 < n then Some (s ! (i + 1)) else None) of (m', skip, code) \<Rightarrow>
          if code then
            (case errhandler_at s n i of
               None \<Rightarrow> handler_loop s n e m' (i + 1) best
             | Some (h, rbrace) \<Rightarrow> handler_loop s n e m' (rbrace + 1) (Some h))
          else if skip then handler_loop s n e m' (i + 2) best
          else handler_loop s n e m' (i + 1) best)
     else best)"
  by pat_completeness auto
termination
  by (relation "measure (\<lambda>(s, n, e, m, i, best). n - i)") (auto dest: errhandler_at_bounds)

declare handler_loop.simps [simp del]

definition cc__pu_find_outer_errhandler :: "string \<Rightarrow> nat \<Rightarrow> nat \<Rightarrow> handler option" where
  "cc__pu_find_outer_errhandler s n pos = handler_loop s n (if pos \<le> n then pos else n) Code 0 None"

section \<open>Divergence\<close>

text \<open>The end of a statement: after a semicolon, or after the brace that closes its block.\<close>

function stmt_end :: "lex_mode \<Rightarrow> depth \<Rightarrow> string \<Rightarrow> nat \<Rightarrow> nat" where
  "stmt_end m d [] p = p"
| "stmt_end m d (c # cs) p =
    (case lex_step False m c (peek cs) of (m', skip, code) \<Rightarrow>
       if code then
         (if c = CHR ''}'' \<and> 0 < br d \<and> depth_step d c = zero_depth then p + 1
          else if c = CHR '';'' \<and> d = zero_depth then p + 1
          else stmt_end m' (depth_step d c) cs (p + 1))
       else if skip then stmt_end m' d (tl cs) (p + 2)
       else stmt_end m' d cs (p + 1))"
  by pat_completeness auto
termination by (relation "measure (\<lambda>(m, d, cs, p). length cs)") auto

lemma stmt_end_bounds: "p \<le> stmt_end m d cs p \<and> (cs \<noteq> [] \<longrightarrow> p < stmt_end m d cs p) \<and> stmt_end m d cs p \<le> p + length cs"
proof (induction cs arbitrary: m d p rule: length_induct)
  case (1 cs)
  show ?case
  proof (cases cs)
    case (Cons c rest)
    obtain m' skip code where st: "lex_step False m c (peek rest) = (m', skip, code)" by (metis prod_cases3)
    have skip: "skip \<Longrightarrow> \<not> code \<and> rest \<noteq> []"
      using st by (cases m; cases rest) (auto simp: peek_def split: if_splits)
    have IH: "length ys < length cs \<Longrightarrow> p' \<le> stmt_end m' d' ys p' \<and> stmt_end m' d' ys p' \<le> p' + length ys" for ys d' p'
      using 1 by blast
    show ?thesis
      using st skip IH [of rest "p + 1" d] IH [of rest "p + 1" "depth_step d c"] IH [of "tl rest" "p + 2" d]
      by (cases rest) (auto simp: Cons)
  qed simp
qed

text \<open>The next statement from a position: where the scan goes on and the range of the statement.\<close>

definition cc__pu_next_stmt :: "string \<Rightarrow> nat \<Rightarrow> nat \<times> nat \<times> nat" where
  "cc__pu_next_stmt body i =
    (let a = length body - length (skip_blank (drop i body)) in
     if length body \<le> a then (a, a, a)
     else (let b = stmt_end Code zero_depth (drop a body) a in (b, a, b)))"

lemma next_stmt_bounds:
  assumes n: "cc__pu_next_stmt body i = (j, a, b)" and i: "i < length body"
  shows "i < j \<and> j \<le> length body \<and> a \<le> b \<and> b \<le> length body"
proof -
  define x where "x = length body - length (skip_blank (drop i body))"
  have "length (skip_blank (drop i body)) \<le> length (drop i body)" by (rule skip_blank_length)
  then have x: "i \<le> x" "x \<le> length body" using i by (auto simp: x_def)
  show ?thesis
  proof (cases "length body \<le> x")
    case True
    then have "j = x" "a = x" "b = x" using n by (simp_all add: cc__pu_next_stmt_def x_def [symmetric])
    then show ?thesis using x True i by simp
  next
    case False
    define e where "e = stmt_end Code zero_depth (drop x body) x"
    have "x < e" "e \<le> length body" using stmt_end_bounds [of x Code zero_depth "drop x body"] False by (auto simp: e_def)
    moreover have "j = e" "a = x" "b = e" using n False by (simp_all add: cc__pu_next_stmt_def x_def [symmetric] e_def [symmetric])
    ultimately show ?thesis using x by simp
  qed
qed

function last_stmt :: "string \<Rightarrow> nat \<Rightarrow> (nat \<times> nat) option \<Rightarrow> (nat \<times> nat) option" where
  "last_stmt body i have_last =
    (if i < length body then
       (case cc__pu_next_stmt body i of (j, a, b) \<Rightarrow>
          if j = i then have_last else last_stmt body j (if a < b then Some (a, b) else have_last))
     else have_last)"
  by pat_completeness auto
termination
proof (relation "measure (\<lambda>(body, i, l). length body - i)", simp, goal_cases)
  case (1 body i l j y a b)
  then have "i < j" using next_stmt_bounds [of body i j a b] by simp
  then show ?case using 1(1) by simp
qed

declare last_stmt.simps [simp del]

definition CC_PU_NORETURN_FNS :: "string list" where
  "CC_PU_NORETURN_FNS =
    [''exit'', ''_Exit'', ''_exit'', ''abort'', ''longjmp'', ''siglongjmp'', ''pthread_exit'', ''__builtin_unreachable'',
     ''__builtin_trap'']"

text \<open>A word that starts a text and ends there; the text has no semicolon and no trailing space.\<close>

definition starts_word :: "string \<Rightarrow> string \<Rightarrow> bool" where
  "starts_word w t =
    (length w \<le> length t \<and> take (length w) t = w \<and> (length w = length t \<or> \<not> cc_is_ident_char (t ! length w)))"

definition called :: "nat \<Rightarrow> string \<Rightarrow> bool" where
  "called k t = (peek (dropWhile lit_space (drop k t)) = Some (CHR ''(''))"

definition simple_diverges :: "string \<Rightarrow> bool" where
  "simple_diverges t =
    (list_ex (\<lambda>w. starts_word w t) [''return'', ''break'', ''continue'', ''goto''] \<or>
     (starts_word ''@err'' t \<and> take 11 t \<noteq> ''@errhandler'' \<and> called 4 t) \<or>
     list_ex (\<lambda>w. starts_word w t \<and> called (length w) t) CC_PU_NORETURN_FNS)"

lemma trim_space_length: "length (trim_space s) \<le> length s"
  unfolding trim_space_def using dropWhile_length [of lit_space "rev (dropWhile lit_space s)"] dropWhile_length [of lit_space s] by simp

lemma last_stmt_bounds: "last_stmt body i l = Some (a, b) \<Longrightarrow> (\<And>a b. l = Some (a, b) \<Longrightarrow> b \<le> length body) \<Longrightarrow> b \<le> length body"
proof (induction body i l rule: last_stmt.induct)
  case (1 body i l)
  show ?case
  proof (cases "i < length body")
    case True
    obtain j a' b' where n: "cc__pu_next_stmt body i = (j, a', b')" by (metis prod_cases3)
    note next_stmt_bounds [OF n True]
    then show ?thesis
      using 1(1) [OF True n [symmetric] refl] 1(2,3) True n
      by (subst (asm) last_stmt.simps) (auto split: if_splits)
  qed (use 1 in \<open>simp add: last_stmt.simps\<close>)
qed

function (sequential) cc__pu_stmt_diverges :: "string \<Rightarrow> bool" and cc__pu_body_diverges :: "string \<Rightarrow> bool" where
  "cc__pu_stmt_diverges s =
    (let t = trim_space s in
     if t = [] then False
     else if hd t = CHR ''{'' \<and> last t = CHR ''}'' then cc__pu_body_diverges (butlast (tl t))
     else if last t \<noteq> CHR '';'' then False
     else (let t' = rev (dropWhile lit_space (rev (butlast t))) in t' \<noteq> [] \<and> simple_diverges t'))"
| "cc__pu_body_diverges body =
    (case last_stmt body 0 None of None \<Rightarrow> False | Some (a, b) \<Rightarrow> cc__pu_stmt_diverges (slice body a b))"
  by pat_completeness auto
termination
proof (relation "measure (\<lambda>x. case x of Inl s \<Rightarrow> 2 * length s | Inr b \<Rightarrow> 2 * length b + 1)", simp, goal_cases)
  case (1 s t)
  then have "length t \<le> length s" "t \<noteq> []" using trim_space_length by auto
  then show ?case by (cases t) auto
next
  case (2 body x a b)
  then show ?case by (simp add: slice_length)
qed

declare cc__pu_stmt_diverges.simps [simp del] cc__pu_body_diverges.simps [simp del]

section \<open>Dead code after a forward\<close>

function brace_close :: "lex_mode \<Rightarrow> depth \<Rightarrow> string \<Rightarrow> nat \<Rightarrow> nat option" where
  "brace_close m d [] p = None"
| "brace_close m d (c # cs) p =
    (case lex_step False m c (peek cs) of (m', skip, code) \<Rightarrow>
       if code then (if c = CHR ''}'' \<and> d = zero_depth then Some p else brace_close m' (depth_step d c) cs (p + 1))
       else if skip then brace_close m' d (tl cs) (p + 2)
       else brace_close m' d cs (p + 1))"
  by pat_completeness auto
termination by (relation "measure (\<lambda>(m, d, cs, p). length cs)") auto

definition cc__pu_find_enclosing_brace_close :: "string \<Rightarrow> nat \<Rightarrow> nat" where
  "cc__pu_find_enclosing_brace_close s from = found_or (length s) (brace_close Code zero_depth (drop from s) from)"

text \<open>The text without leading white space, comments and labels.\<close>

function skip_labels :: "string \<Rightarrow> string" where
  "skip_labels cs =
    (let t = skip_blank cs; r = dropWhile is_ws (dropWhile cc_is_ident_char t) in
     if t \<noteq> [] \<and> cc_is_ident_start (hd t) \<and> peek r = Some (CHR '':'') \<and> peek (tl r) \<noteq> Some (CHR '':'')
     then skip_labels (tl r) else t)"
  by pat_completeness auto
termination
proof (relation "measure length", simp, goal_cases)
  case (1 cs t r)
  have "length r \<le> length t"
    using 1 dropWhile_length [of is_ws "dropWhile cc_is_ident_char t"] dropWhile_length [of cc_is_ident_char t] by simp
  moreover have "length t \<le> length cs" using 1 skip_blank_length by auto
  moreover have "r \<noteq> []" using 1(3) by (cases r) (simp_all add: peek_def)
  ultimately show ?case by (cases r) auto
qed

declare skip_labels.simps [simp del]

definition cc__pu_find_next_stmt_byte :: "string \<Rightarrow> nat \<Rightarrow> nat \<Rightarrow> nat" where
  "cc__pu_find_next_stmt_byte s from limit = limit - length (skip_labels (slice s from limit))"

section \<open>Unhandled results\<close>

text \<open>The last character before a position that is not white space.\<close>

definition cc__back_skip_ws :: "string \<Rightarrow> nat \<Rightarrow> nat option" where
  "cc__back_skip_ws s from =
    (let k = from - length (takeWhile is_ws (rev (take from s))) in if k = 0 then None else Some (k - 1))"

definition cc__is_preceded_by_void_cast :: "string \<Rightarrow> nat option \<Rightarrow> bool" where
  "cc__is_preceded_by_void_cast s pre =
    (case pre of
       None \<Rightarrow> False
     | Some p \<Rightarrow>
         s ! p = CHR '')'' \<and>
         (case cc__back_skip_ws s p of
            None \<Rightarrow> False
          | Some j \<Rightarrow>
              3 \<le> j \<and> slice s (j - 3) (j + 1) = ''void'' \<and> \<not> (4 \<le> j \<and> cc_is_ident_char (s ! (j - 4))) \<and>
              (case cc__back_skip_ws s (if 4 \<le> j then j - 3 else 0) of None \<Rightarrow> False | Some k \<Rightarrow> s ! k = CHR ''('')))"

definition cc__is_preceded_by_ident :: "string \<Rightarrow> nat option \<Rightarrow> string \<Rightarrow> bool" where
  "cc__is_preceded_by_ident s pre ident =
    (case pre of
       None \<Rightarrow> False
     | Some p \<Rightarrow>
         length ident \<le> p + 1 \<and> at s ident (p + 1 - length ident) \<and>
         \<not> (0 < p + 1 - length ident \<and> cc_is_ident_char (s ! (p - length ident))))"

definition cc__ident_end :: "string \<Rightarrow> nat \<Rightarrow> nat" where
  "cc__ident_end s i = i + length (takeWhile cc_is_ident_char (drop i s))"

lemma ident_end_after: "cc_is_ident_start (s ! i) \<Longrightarrow> i < length s \<Longrightarrow> length s - cc__ident_end s i < length s - i"
proof -
  assume "cc_is_ident_start (s ! i)" and i: "i < length s"
  then have "drop i s = s ! i # drop (Suc i) s" "cc_is_ident_char (s ! i)" by (simp_all add: Cons_nth_drop_Suc cc_is_ident_char_def)
  then have "0 < length (takeWhile cc_is_ident_char (drop i s))" by simp
  then show ?thesis unfolding cc__ident_end_def using i by linarith
qed

definition cc__skip_ws_comments_forward :: "string \<Rightarrow> nat \<Rightarrow> nat \<Rightarrow> nat" where
  "cc__skip_ws_comments_forward s n i = (if n \<le> i then i else n - length (skip_blank (drop i (take n s))))"

text \<open>The gates for one identifier: a registered function, called, followed by a semicolon, at the start of a
  statement, not discarded and not returned.\<close>

definition unhandled_at :: "fn_registry \<Rightarrow> string \<Rightarrow> nat \<Rightarrow> nat \<Rightarrow> bool" where
  "unhandled_at reg s a b =
    (let n = length s; after_id = cc__skip_ws_comments_forward s n b; prev = cc__back_skip_ws s a in
     cc_result_fn_registry_contains reg (slice s a b) \<and> after_id < n \<and> s ! after_id = CHR ''('' \<and>
     (case cc_find_matching_paren s n after_id of
        None \<Rightarrow> False
      | Some rpar \<Rightarrow>
         (let post = cc__skip_ws_comments_forward s n (rpar + 1) in
          post < n \<and> s ! post = CHR '';'' \<and>
          (case prev of None \<Rightarrow> True | Some p \<Rightarrow> s ! p = CHR '';'' \<or> s ! p = CHR ''{'' \<or> s ! p = CHR ''}'') \<and>
          \<not> cc__is_preceded_by_void_cast s prev \<and> \<not> cc__is_preceded_by_ident s prev ''return'')))"

text \<open>The positions of the diagnostics; the identifiers are those of the code text.\<close>

function strict_loop :: "fn_registry \<Rightarrow> string \<Rightarrow> lex_mode \<Rightarrow> nat \<Rightarrow> nat list" where
  "strict_loop reg s m i =
    (if i < length s then
       (case lex_step False m (s ! i) (if i + 1 < length s then Some (s ! (i + 1)) else None) of (m', skip, code) \<Rightarrow>
          if code then
            (if cc_is_ident_start (s ! i) \<and> \<not> (0 < i \<and> cc_is_ident_char (s ! (i - 1)))
             then (if unhandled_at reg s i (cc__ident_end s i) then [i] else []) @ strict_loop reg s m' (cc__ident_end s i)
             else strict_loop reg s m' (i + 1))
          else if skip then strict_loop reg s m' (i + 2)
          else strict_loop reg s m' (i + 1))
     else [])"
  by pat_completeness auto
termination
  by (relation "measure (\<lambda>(reg, s, m, i). length s - i)") (auto dest: ident_end_after)

declare strict_loop.simps [simp del]

text \<open>The lines that get a diagnostic.\<close>

definition cc__strict_unhandled_scan :: "bool \<Rightarrow> fn_registry \<Rightarrow> string \<Rightarrow> nat list" where
  "cc__strict_unhandled_scan enabled reg s =
    (if enabled then map (cc__line_from_pos s) (strict_loop reg s Code 0) else [])"

section \<open>The copies agree\<close>

lemma at_two: "p + 2 \<le> n \<Longrightarrow> n \<le> length s \<Longrightarrow> slice s p n = x # xs \<Longrightarrow> at s [c, c2] p \<longleftrightarrow> x = c \<and> peek xs = Some c2"
proof -
  assume a: "p + 2 \<le> n" "n \<le> length s" "slice s p n = x # xs"
  have "slice s p n = take (n - p) (drop p s)" by (simp add: slice_def drop_take)
  then have "take 2 (slice s p n) = take 2 (drop p s)" using a(1) by (simp add: min_def)
  then have "take 2 (drop p s) = x # take 1 xs" using a(3) by simp
  moreover have "length xs = n - p - 1" using a slice_length [of s p n] by simp
  ultimately show ?thesis using a(1) by (cases xs) (auto simp: at_def numeral_2_eq_2 peek_def)
qed

lemma slice_tail: "slice s p n = x # xs \<Longrightarrow> slice s (p + 1) n = xs"
  unfolding slice_def by (metis One_nat_def add.commute drop_Suc drop_drop drop0 list.sel(3) plus_1_eq_Suc)

lemma token_loop_sub:
  "cs = slice s p n \<Longrightarrow> n \<le> length s \<Longrightarrow> p \<le> n \<Longrightarrow> token_loop c c2 m cs p = sub_loop 2 (at s [c, c2]) m cs p"
proof (induction cs arbitrary: m p rule: length_induct)
  case (1 cs)
  show ?case
  proof (cases cs)
    case (Cons x xs)
    obtain m' skip code where st: "lex_step False m x (peek xs) = (m', skip, code)" by (metis prod_cases3)
    have xs: "xs = slice s (p + 1) n" using slice_tail 1(2) Cons by metis
    have len: "length cs = n - p" using 1(2-4) by (simp add: slice_length)
    show ?thesis
    proof (cases "xs = []")
      case True
      then have "skip = False" using st skip_peek [of False m x xs m' skip code] by auto
      then show ?thesis using st True by (simp add: Cons peek_def)
    next
      case False
      then have p2: "p + 2 \<le> n" using len by (cases xs) (auto simp: Cons)
      have "slice s (p + 1 + 1) n = tl xs" using slice_tail [of s "p + 1" n "hd xs" "tl xs"] xs False by simp
      then have tl: "tl xs = slice s (p + 2) n" by simp
      have IH: "length ys < length cs \<Longrightarrow> ys = slice s q n \<Longrightarrow> q \<le> n \<Longrightarrow> token_loop c c2 m' ys q = sub_loop 2 (at s [c, c2]) m' ys q"
        for ys q using 1 by blast
      have hit: "at s [c, c2] p \<longleftrightarrow> x = c \<and> peek xs = Some c2" using at_two p2 1 Cons by metis
      have len2: "length (tl xs) < length cs" "length xs < length cs" "\<not> length (x # xs) < 2"
        using False by (auto simp: Cons less_Suc_eq_le neq_Nil_conv)
      have "p + 1 \<le> n" using p2 by simp
      note I = IH [OF len2(2) xs this] IH [OF len2(1) tl p2]
      show ?thesis
        unfolding Cons token_loop.simps sub_loop.simps using len2(3) by (simp only: st prod.case hit I if_False)
    qed
  qed simp
qed

lemma semi_loop_top: "semi_loop m d cs p = Some q \<Longrightarrow> top_loop (CHR '';'') m d cs p = Some q"
proof (induction cs arbitrary: m d p rule: length_induct)
  case (1 cs)
  show ?case
  proof (cases cs)
    case (Cons c rest)
    have IH: "semi_loop m' d' ys p' = Some q \<Longrightarrow> length ys < length cs \<Longrightarrow> top_loop (CHR '';'') m' d' ys p' = Some q" for m' d' ys p'
      using 1(1) by blast
    have tl: "length (tl rest) < length cs" "length rest < length cs" by (auto simp: Cons less_Suc_eq_le)
    obtain m' skip code where st: "lex_step False m c (peek rest) = (m', skip, code)" by (metis prod_cases3)
    show ?thesis
    proof (cases "m = LineC \<and> c = newline")
      case True
      then have "depth_step d c = d" "c \<noteq> CHR '';''" by (simp_all add: depth_step_def newline_def)
      then show ?thesis using True 1(2) IH [OF _ tl(2), of Code d "p + 1"] by (simp add: Cons)
    next
      case False
      then have st': "lex_step True m c (peek rest) = (m', skip, code)" using st by (cases m) auto
      show ?thesis
      proof (cases code)
        case True
        then show ?thesis
          using 1(2) st st' IH [OF _ tl(2), of m' "depth_step d c" "p + 1"] by (auto simp: Cons split: if_splits)
      next
        case False
        then show ?thesis
          using 1(2) st st' IH [OF _ tl(2), of m' d "p + 1"] IH [OF _ tl(1), of m' d "p + 2"] by (simp add: Cons split: if_splits)
      qed
    qed
  qed (use 1 in simp)
qed



lemma bang_loop_tail:
  "bang_loop s op pr bk (Suc k) =
    (let c = s ! k in
     if c = CHR ''/'' \<and> 0 < k \<and> s ! (k - 1) = CHR ''*''
     then bang_loop s op pr bk (cc_ir_skip_block_comment_backward s k)
     else if c \<noteq> newline \<and> cc_ir_pos_in_line_comment s k then bang_loop s op pr bk (line_back s k)
     else if c = dquote \<or> c = squote then bang_loop s op pr bk (cc_ir_skip_str_backward s k)
     else if c = CHR '')'' then bang_loop s op (pr + 1) bk k
     else if c = CHR ''('' then (if 0 < pr then bang_loop s op (pr - 1) bk k else (k + 1, False))
     else if c = CHR '']'' then bang_loop s op pr (bk + 1) k
     else if c = CHR ''['' then bang_loop s op pr (bk - 1) k
     else if 0 < pr \<or> 0 < bk then bang_loop s op pr bk k
     else case lhs_stop s op k of Some stmt \<Rightarrow> (k + 1, stmt) | None \<Rightarrow> bang_loop s op pr bk k)"
  unfolding bang_loop.simps lhs_stop_def Let_def copied_scanners
  by (simp only: if_distrib [of "case_option _ _"] option.case cong: if_cong)

lemma bang_lhs_agree:
  "lhs_loop s op pr bk i = (r, st) \<Longrightarrow> \<not> (0 < r \<and> s ! (r - 1) = CHR ''['') \<Longrightarrow> bang_loop s op pr bk i = (r, st)"
proof (induction i arbitrary: pr bk rule: less_induct)
  case (less i)
  show ?case
  proof (cases i)
    case 0
    then show ?thesis using less by simp
  next
    case (Suc k)
    have IH: "lhs_loop s op pr' bk' j = (r, st) \<Longrightarrow> j \<le> k \<Longrightarrow> bang_loop s op pr' bk' j = (r, st)" for pr' bk' j
      using less Suc by auto
    let ?c = "s ! k"
    note b = back_le [of s k]
    have L: "lhs_loop s op pr bk (Suc k) = (r, st)" using less.prems(1) Suc by simp
    consider "?c = CHR ''/'' \<and> 0 < k \<and> s ! (k - 1) = CHR ''*''"
      | "\<not> (?c = CHR ''/'' \<and> 0 < k \<and> s ! (k - 1) = CHR ''*'')" "?c \<noteq> newline \<and> cc_ir_pos_in_line_comment s k"
      | "\<not> (?c = CHR ''/'' \<and> 0 < k \<and> s ! (k - 1) = CHR ''*'')" "\<not> (?c \<noteq> newline \<and> cc_ir_pos_in_line_comment s k)"
        "?c = dquote \<or> ?c = squote"
      | "\<not> (?c = CHR ''/'' \<and> 0 < k \<and> s ! (k - 1) = CHR ''*'')" "\<not> (?c \<noteq> newline \<and> cc_ir_pos_in_line_comment s k)"
        "\<not> (?c = dquote \<or> ?c = squote)" by blast
    then show ?thesis
    proof cases
      case 1
      then show ?thesis using L IH [OF _ b(1), of pr bk] unfolding Suc
        by (simp only: lhs_loop.simps bang_loop_tail Let_def if_True if_False simp_thms)
    next
      case 2
      then show ?thesis using L IH [OF _ b(3), of pr bk] unfolding Suc
        by (simp only: lhs_loop.simps bang_loop_tail Let_def if_True if_False simp_thms)
    next
      case 3
      then show ?thesis using L IH [OF _ b(2), of pr bk] unfolding Suc
        by (simp only: lhs_loop.simps bang_loop_tail Let_def if_True if_False simp_thms)
    next
      case 4
      have B: "bang_loop s op pr bk (Suc k) =
        (if ?c = CHR '')'' then bang_loop s op (pr + 1) bk k
         else if ?c = CHR ''('' then (if 0 < pr then bang_loop s op (pr - 1) bk k else (k + 1, False))
         else if ?c = CHR '']'' then bang_loop s op pr (bk + 1) k
         else if ?c = CHR ''['' then bang_loop s op pr (bk - 1) k
         else if 0 < pr \<or> 0 < bk then bang_loop s op pr bk k
         else case lhs_stop s op k of Some stmt \<Rightarrow> (k + 1, stmt) | None \<Rightarrow> bang_loop s op pr bk k)"
        unfolding bang_loop_tail Let_def using 4 by (simp only: if_False)
      have A: "lhs_loop s op pr bk (Suc k) =
        (if ?c = CHR '')'' then lhs_loop s op (pr + 1) bk k
         else if ?c = CHR ''('' then (if 0 < pr then lhs_loop s op (pr - 1) bk k else (k + 1, False))
         else if ?c = CHR '']'' then lhs_loop s op pr (bk + 1) k
         else if ?c = CHR ''['' then (if 0 < bk then lhs_loop s op pr (bk - 1) k else (k + 1, False))
         else if 0 < pr \<or> 0 < bk then lhs_loop s op pr bk k
         else case lhs_stop s op k of Some stmt \<Rightarrow> (k + 1, stmt) | None \<Rightarrow> lhs_loop s op pr bk k)"
        unfolding lhs_loop.simps Let_def using 4 by (simp only: if_False)
      have stop: "\<not> (?c = CHR ''['' \<and> (k + 1, False) = (r, st))" using less.prems(2) by auto
      note I = IH [OF _ order.refl]
      consider "?c = CHR '')''" | "?c = CHR ''(''" | "?c = CHR '']''" | "?c = CHR ''[''"
        | "?c \<noteq> CHR '')''" "?c \<noteq> CHR ''(''" "?c \<noteq> CHR '']''" "?c \<noteq> CHR ''[''" by blast
      then show ?thesis
      proof cases
        case 1 then show ?thesis using L I [of "pr + 1" bk] unfolding Suc A B by simp
      next
        case 2 then show ?thesis using L I [of "pr - 1" bk] unfolding Suc A B by (cases "0 < pr") simp_all
      next
        case 3 then show ?thesis using L I [of pr "bk + 1"] unfolding Suc A B by simp
      next
        case 4 then show ?thesis using L stop I [of pr "bk - 1"] unfolding Suc A B by (cases "0 < bk") simp_all
      next
        case 5 then show ?thesis using L I [of pr bk] unfolding Suc A B
          by (cases "0 < pr \<or> 0 < bk"; cases "lhs_stop s op k") simp_all
      qed
    qed
  qed
qed

lemmas back_scan_eval = cc_ir_find_lhs_start_ex_def cc__find_bang_lhs_start_ex_def copied_scanners numeral_eq_Suc Let_def lhs_stop_def
  cc_ir_pos_in_line_comment_def slice_def char_defs peek_def cc_ir_skip_str_backward_def cc_ir_eq_is_boundary_def



section \<open>Flattening keeps the text\<close>

text \<open>The text outside comments, with a flag for the characters of literals.\<close>

function visible :: "lex_mode \<Rightarrow> string \<Rightarrow> (bool \<times> char) list" where
  "visible m [] = []"
| "visible m (c # cs) =
    (case lex_step False m c (peek cs) of (m', skip, code) \<Rightarrow>
       (if code then [(False, c)]
        else if (\<exists>q. m = Quoted q) \<or> (\<exists>q. m' = Quoted q) then map (Pair True) (c # (if skip then take 1 cs else []))
        else []) @
       (if skip then visible m' (tl cs) else visible m' cs))"
  by pat_completeness auto
termination by (relation "measure (\<lambda>(m, cs). length cs)") auto

lemma visible_quote:
  "copy_quote q cs = (x, r) \<Longrightarrow> (r = [] \<longrightarrow> y = []) \<Longrightarrow> visible (Quoted q) (x @ y) = map (Pair True) x @ visible Code y"
proof (induction q cs arbitrary: x rule: copy_quote.induct)
  case (3 q c c2 cs)
  show ?case
  proof (cases "c = backslash")
    case True
    then obtain x' where "copy_quote q cs = (x', r)" "x = c # c2 # x'" using 3(3) by (auto split: prod.splits)
    then show ?thesis using 3(1) [OF True] 3(4) True by (simp add: peek_def)
  next
    case F: False
    show ?thesis
    proof (cases "c = q")
      case True
      then have "x = [q]" using 3(3) F by auto
      then show ?thesis using True F by simp
    next
      case False
      then obtain x' where "copy_quote q (c2 # cs) = (x', r)" "x = c # x'" using 3(3) F by (auto split: prod.splits)
      then show ?thesis using 3(2) [OF F False] 3(4) F False by simp
    qed
  qed
qed auto

lemma visible_line: "visible LineC cs = visible Code (tl (dropWhile (\<lambda>x. x \<noteq> newline) cs))"
  by (induction cs) auto

lemma visible_open: "no_close t \<Longrightarrow> visible BlockC t = []"
  by (induction t) (auto simp: no_close_Cons)

lemma visible_block: "no_close (t @ ''*'') \<Longrightarrow> visible BlockC (t @ ''*/'' @ y) = visible Code y"
proof (induction t)
  case (Cons c t)
  have "peek (t @ ''*/'' @ y) = peek (t @ ''*'')" by (cases t) (simp_all add: peek_def)
  then show ?case using Cons by (auto simp: no_close_Cons)
qed (simp add: peek_def)

lemma no_close_blank: "no_close (map blank_newline t) = no_close t"
  by (induction t) (auto simp: no_close_Cons blank_newline_def peek_def newline_def split: list.splits)

lemma skip_block_cases:
  "(\<exists>t. cs = t @ ''*/'' @ skip_block cs \<and> no_close (t @ ''*'')) \<or> (no_close cs \<and> length (skip_block cs) \<le> 1 \<and> (\<exists>t. cs = t @ skip_block cs))"
proof (induction cs rule: skip_block.induct)
  case (1 c c2 cs)
  show ?case
  proof (cases "c = CHR ''*'' \<and> c2 = CHR ''/''")
    case True
    then show ?thesis by (intro disjI1 exI [of _ "[]"]) (simp add: no_close_Cons peek_def)
  next
    case False
    then have sk: "skip_block (c # c2 # cs) = skip_block (c2 # cs)" by auto
    from 1 [OF False] show ?thesis
    proof (elim disjE exE conjE)
      fix t assume t: "c2 # cs = t @ ''*/'' @ skip_block (c2 # cs)" "no_close (t @ ''*'')"
      have "peek (t @ ''*'') = Some c2" using t(1) by (cases t) (auto simp: peek_def)
      then have "no_close ((c # t) @ ''*'')" using t(2) False by (auto simp: no_close_Cons)
      then show ?thesis using t(1) sk by (intro disjI1 exI [of _ "c # t"]) simp
    next
      fix t assume "no_close (c2 # cs)" "length (skip_block (c2 # cs)) \<le> 1" "c2 # cs = t @ skip_block (c2 # cs)"
      then show ?thesis using False sk by (intro disjI2) (auto simp: no_close_Cons peek_def intro: exI [of _ "c # t"])
    qed
  qed
qed (auto simp: no_close_def)

lemma flatten_peek: "peek (flatten cs) = peek cs \<or> peek (flatten cs) = Some (CHR '' '')"
proof (cases cs)
  case (Cons c r)
  have "length (skip_block (tl r)) \<le> length (tl r)" by (rule skip_block_length)
  then have "take (Suc (length r) - length (skip_block (tl r))) (c # r) = c # take (length r - length (skip_block (tl r))) r"
    by (simp add: Suc_diff_le)
  then show ?thesis by (auto simp: Cons peek_def blank_newline_def Let_def newline_def split: prod.splits)
qed (simp add: peek_def)

definition solid :: "(bool \<times> char) list \<Rightarrow> (bool \<times> char) list" where
  "solid = filter (\<lambda>(lit, c). lit \<or> \<not> is_ws c)"

lemma flatten_short: "length r \<le> 1 \<Longrightarrow> flatten r = map blank_newline r"
  by (cases r) (auto simp: blank_newline_def char_defs peek_def)

lemma solid_lit [simp]: "solid ((True, c) # xs) = (True, c) # solid xs"
  by (simp add: solid_def)

lemma flatten_block:
  assumes "r = skip_block t" "\<And>y. length y \<le> length t \<Longrightarrow> y = r \<Longrightarrow> solid (visible Code (flatten y)) = solid (visible Code y)"
  shows "solid (visible BlockC (map blank_newline (take (length t - length r) t) @ flatten r)) = solid (visible BlockC t)"
  using skip_block_cases [of t]
proof (elim disjE exE conjE)
  fix u assume u: "t = u @ ''*/'' @ skip_block t" "no_close (u @ ''*'')"
  have t: "t = u @ ''*/'' @ r" using u(1) unfolding assms(1) [symmetric] .
  have "take (length t - length r) t = u @ ''*/''" unfolding t by simp
  moreover have "map blank_newline (u @ ''*/'') = map blank_newline u @ ''*/''" by (simp add: blank_newline_def newline_def)
  moreover have "no_close (map blank_newline u @ ''*'')"
    using u(2) no_close_blank [of "u @ ''*''"] by (simp add: blank_newline_def newline_def)
  moreover have "visible BlockC t = visible Code r" unfolding t by (rule visible_block [OF u(2)])
  moreover have "length r \<le> length t" unfolding t by simp
  ultimately show ?thesis using assms(2) [of r] visible_block [of "map blank_newline u" "flatten r"] by simp
next
  fix u assume u: "no_close t" "length (skip_block t) \<le> 1" "t = u @ skip_block t"
  have t: "t = u @ r" using u(3) unfolding assms(1) [symmetric] .
  have fl: "flatten r = map blank_newline r"
    using u(2) unfolding assms(1) [symmetric] by (rule flatten_short)
  have "map blank_newline (take (length t - length r) t) @ flatten r = map blank_newline t" unfolding fl t by simp
  then show ?thesis using visible_open u(1) no_close_blank [of t] by simp
qed

lemma solid_append [simp]: "solid (xs @ ys) = solid xs @ solid ys"
  by (simp add: solid_def)

lemma flatten_keeps: "solid (visible Code (flatten cs)) = solid (visible Code cs)"
proof (induction cs rule: length_induct)
  case (1 cs)
  show ?case
  proof (cases cs)
    case (Cons c rest)
    have IH: "length y \<le> length rest \<Longrightarrow> solid (visible Code (flatten y)) = solid (visible Code y)" for y
      using 1 by (simp add: Cons)
    consider "c = dquote \<or> c = squote" | "c = CHR ''/''" "peek rest = Some (CHR ''/'')" | "c = CHR ''/''" "peek rest = Some (CHR ''*'')"
      | "\<not> (c = dquote \<or> c = squote)" "c \<noteq> CHR ''/'' \<or> peek rest \<notin> {Some (CHR ''/''), Some (CHR ''*'')}" by auto
    then show ?thesis
    proof cases
      case 1
      obtain x r where q: "copy_quote c rest = (x, r)" by force
      have "visible (Quoted c) (x @ flatten r) = map (Pair True) x @ visible Code (flatten r)"
        "visible (Quoted c) rest = map (Pair True) x @ visible Code r"
        using visible_quote [OF q, of "flatten r"] visible_quote [OF q, of r] copy_quote_length [OF q] by auto
      moreover have "length r \<le> length rest" using copy_quote_length [OF q] by auto
      moreover have "c \<noteq> CHR ''/''" using 1 by (auto simp: char_defs)
      ultimately show ?thesis using 1 q IH [of r] by (auto simp: Cons)
    next
      case 2
      have dw: "dropWhile (\<lambda>x. x \<noteq> newline) (c # rest) = dropWhile (\<lambda>x. x \<noteq> newline) (tl rest)"
        using 2 by (cases rest) (auto simp: peek_def newline_def)
      let ?r = "tl (dropWhile (\<lambda>x. x \<noteq> newline) (tl rest))"
      have "length ?r \<le> length rest" using dropWhile_length [of "\<lambda>x. x \<noteq> newline" "tl rest"] by simp
      moreover have "flatten cs = CHR '' '' # flatten ?r" using 2 dw by (simp add: Cons char_defs)
      moreover have "visible Code cs = visible Code ?r" using 2 visible_line [of "tl rest"] by (simp add: Cons)
      moreover have "solid (visible Code (CHR '' '' # y)) = solid (visible Code y)" for y
        by (simp add: solid_def is_ws_def char_defs)
      ultimately show ?thesis using IH [of ?r] by simp
    next
      case 3
      then obtain t where t: "rest = CHR ''*'' # t" by (cases rest) (auto simp: peek_def)
      have "length (skip_block t) \<le> length t" by (rule skip_block_length)
      then have "flatten cs = CHR ''/'' # CHR ''*'' # map blank_newline (take (length t - length (skip_block t)) t) @ flatten (skip_block t)"
        using 3 by (simp add: Cons t Let_def char_defs blank_newline_def Suc_diff_le peek_def)
      moreover have "visible Code (CHR ''/'' # CHR ''*'' # y) = visible BlockC y" for y by (simp add: peek_def)
      moreover have "solid (visible BlockC (map blank_newline (take (length t - length (skip_block t)) t) @ flatten (skip_block t))) =
          solid (visible BlockC t)"
        by (rule flatten_block [OF refl]) (use IH t in auto)
      ultimately show ?thesis using 3 by (simp add: Cons t)
    next
      case 4
      then have fl: "flatten cs = blank_newline c # flatten rest" by (auto simp: Cons)
      have code: "visible Code (c # y) = (False, c) # visible Code y"
        if "c \<noteq> CHR ''/'' \<or> peek y \<notin> {Some (CHR ''/''), Some (CHR ''*'')}" for y using that 4(1) by auto
      show ?thesis
      proof (cases "c = newline \<or> c = CHR 0x0D")
        case True
        then have "is_ws c" "c \<noteq> CHR ''/''" by (auto simp: is_ws_def newline_def)
        moreover have "visible Code (CHR '' '' # y) = (False, CHR '' '') # visible Code y" for y by (simp add: char_defs)
        ultimately show ?thesis
          using fl code [of rest] IH [of rest] True by (simp add: Cons blank_newline_def solid_def is_ws_def)
      next
        case False
        then have "flatten cs = c # flatten rest" using fl by (simp add: blank_newline_def)
        moreover have "c \<noteq> CHR ''/'' \<or> peek (flatten rest) \<notin> {Some (CHR ''/''), Some (CHR ''*'')}"
          using 4(2) flatten_peek [of rest] by auto
        ultimately show ?thesis using code [of "flatten rest"] code [of rest] 4(2) IH [of rest] by (simp add: Cons solid_def)
      qed
    qed
  qed simp
qed

lemma blank_newline_line: "newline \<notin> set (map blank_newline t)"
  by (auto simp: blank_newline_def newline_def)

lemma flatten_line: "(True, newline) \<notin> set (visible Code cs) \<Longrightarrow> newline \<notin> set (flatten cs)"
proof (induction cs rule: length_induct)
  case (1 cs)
  show ?case
  proof (cases cs)
    case (Cons c rest)
    have IH: "length y \<le> length rest \<Longrightarrow> (True, newline) \<notin> set (visible Code y) \<Longrightarrow> newline \<notin> set (flatten y)" for y
      using 1 by (simp add: Cons)
    consider "c = dquote \<or> c = squote" | "c = CHR ''/''" "peek rest = Some (CHR ''/'')" | "c = CHR ''/''" "peek rest = Some (CHR ''*'')"
      | "\<not> (c = dquote \<or> c = squote)" "c \<noteq> CHR ''/'' \<or> peek rest \<notin> {Some (CHR ''/''), Some (CHR ''*'')}" by auto
    then show ?thesis
    proof cases
      case q1: 1
      obtain x r where q: "copy_quote c rest = (x, r)" by force
      have v: "visible (Quoted c) rest = map (Pair True) x @ visible Code r"
        using visible_quote [OF q, of r] copy_quote_length [OF q] by auto
      have nc: "c \<noteq> CHR ''/''" "c \<noteq> newline" using q1 by (auto simp: char_defs)
      have "visible Code cs = (True, c) # visible (Quoted c) rest" using q1 nc by (auto simp: Cons)
      then have "newline \<notin> set x" "(True, newline) \<notin> set (visible Code r)" using 1(2) v by auto
      moreover have "length r \<le> length rest" using copy_quote_length [OF q] by auto
      ultimately show ?thesis using IH [of r] q1 q nc by (auto simp: Cons)
    next
      case 2
      have dw: "dropWhile (\<lambda>x. x \<noteq> newline) (c # rest) = dropWhile (\<lambda>x. x \<noteq> newline) (tl rest)"
        using 2 by (cases rest) (auto simp: peek_def newline_def)
      let ?r = "tl (dropWhile (\<lambda>x. x \<noteq> newline) (tl rest))"
      have "length ?r \<le> length rest" using dropWhile_length [of "\<lambda>x. x \<noteq> newline" "tl rest"] by simp
      moreover have "flatten cs = CHR '' '' # flatten ?r" using 2 dw by (simp add: Cons char_defs)
      moreover have "visible Code cs = visible Code ?r" using 2 visible_line [of "tl rest"] by (simp add: Cons)
      ultimately show ?thesis using IH [of ?r] 1(2) by (simp add: newline_def)
    next
      case 3
      then obtain t where t: "rest = CHR ''*'' # t" by (cases rest) (auto simp: peek_def)
      have sh: "length (skip_block t) \<le> length t" by (rule skip_block_length)
      have fl: "flatten cs = map blank_newline (take (length cs - length (skip_block t)) cs) @ flatten (skip_block t)"
        using 3 by (simp add: Cons t Let_def char_defs)
      have vis: "visible Code cs = visible BlockC t" using 3 by (simp add: Cons t)
      have "newline \<notin> set (flatten (skip_block t))"
        using skip_block_cases [of t]
      proof (elim disjE exE conjE)
        fix u assume u: "t = u @ ''*/'' @ skip_block t" "no_close (u @ ''*'')"
        have "visible BlockC t = visible Code (skip_block t)" using visible_block [OF u(2), of "skip_block t"] u(1) by simp
        then show ?thesis using IH [of "skip_block t"] 1(2) vis sh t by simp
      next
        assume "length (skip_block t) \<le> 1"
        then show ?thesis by (cases "skip_block t") (auto simp: blank_newline_def char_defs peek_def)
      qed
      then show ?thesis unfolding fl using blank_newline_line by auto
    next
      case 4
      then have "flatten cs = blank_newline c # flatten rest" "visible Code cs = (False, c) # visible Code rest" by (auto simp: Cons)
      then show ?thesis using IH [of rest] 1(2) by (auto simp: blank_newline_def newline_def split: if_splits)
    qed
  qed simp
qed

text \<open>C30: Flattening a handler body keeps its text: outside comments, the sequence of characters, literals included, is the same
  up to white space between tokens; and the result is one line unless a literal of the body
  contains a newline.\<close>
theorem flatten_keeps_text:
  "solid (visible Code (cc__pu_flatten_handler_body body)) = solid (visible Code body) \<and>
   ((True, newline) \<notin> set (visible Code body) \<longrightarrow> newline \<notin> set (cc__pu_flatten_handler_body body))"
  by (simp add: cc__pu_flatten_handler_body_def flatten_keeps flatten_line)

theorem flatten_keeps_text_witness:
  "newline \<notin> set (cc__pu_flatten_handler_body (''x = 1; // note'' @ [newline] @ ''return 2;''))"
proof -
  have "(True, newline) \<notin> set (visible Code (''x = 1; // note'' @ [newline] @ ''return 2;''))" by code_simp
  then show ?thesis by (rule mp [OF conjunct2 [OF flatten_keeps_text]])
qed

section \<open>Accepted bodies end in a jump\<close>

text \<open>The text ends, but for white space and comments, in a jump, a forward or a call that does not return, or in
  a block that does.\<close>

inductive ends_in_jump :: "string \<Rightarrow> bool" where
  jump: "simple_diverges t \<Longrightarrow> list_all lit_space u \<Longrightarrow> list_all lit_space v \<Longrightarrow> list_all lit_space w \<Longrightarrow> blank post \<Longrightarrow>
    ends_in_jump (pre @ u @ t @ v @ '';'' @ w @ post)"
| block: "ends_in_jump b \<Longrightarrow> list_all lit_space u \<Longrightarrow> list_all lit_space w \<Longrightarrow> blank post \<Longrightarrow>
    ends_in_jump (pre @ u @ ''{'' @ b @ ''}'' @ w @ post)"

lemma next_stmt_tail:
  assumes "cc__pu_next_stmt body i = (j, a, b)"
  shows "a < b \<and> j = b \<or> \<not> a < b \<and> length body \<le> j \<and> blank (drop i body)"
proof -
  define x where "x = length body - length (skip_blank (drop i body))"
  show ?thesis
  proof (cases "length body \<le> x")
    case True
    then have "body = [] \<or> skip_blank (drop i body) = []" by (cases "skip_blank (drop i body)") (auto simp: x_def)
    then have "blank (drop i body)" using skip_blank_skipped [of "drop i body"] blank_Nil by (auto simp: skipped_def)
    moreover have "j = x" "a = x" "b = x" using assms True by (simp_all add: cc__pu_next_stmt_def x_def [symmetric])
    ultimately show ?thesis using True by simp
  next
    case False
    define e where "e = stmt_end Code zero_depth (drop x body) x"
    have "x < e" using stmt_end_bounds [of x Code zero_depth "drop x body"] False by (auto simp: e_def)
    moreover have "j = e" "a = x" "b = e" using assms False by (simp_all add: cc__pu_next_stmt_def x_def [symmetric] e_def [symmetric])
    ultimately show ?thesis by simp
  qed
qed

lemma last_stmt_tail:
  assumes "last_stmt body i l = Some (a, b)"
    and "\<And>a' b'. l = Some (a', b') \<Longrightarrow> a' < b' \<and> b' \<le> length body \<and> (b' = i \<or> blank (drop b' body) \<and> length body \<le> i)"
  shows "a < b \<and> b \<le> length body \<and> blank (drop b body)"
  using assms
proof (induction body i l rule: last_stmt.induct)
  case (1 body i l)
  show ?case
  proof (cases "i < length body")
    case True
    obtain j a' b' where n: "cc__pu_next_stmt body i = (j, a', b')" by (metis prod_cases3)
    have nb: "i < j" "a' \<le> b'" "b' \<le> length body" using next_stmt_bounds [OF n True] by auto
    let ?l = "if a' < b' then Some (a', b') else l"
    have L: "last_stmt body j ?l = Some (a, b)" using 1(2) True n nb by (simp add: last_stmt.simps [of body i l])
    have l': "x < y \<and> y \<le> length body \<and> (y = j \<or> blank (drop y body) \<and> length body \<le> j)" if "?l = Some (x, y)" for x y
    proof (cases "a' < b'")
      case True
      then show ?thesis using that next_stmt_tail [OF n] nb by auto
    next
      case False
      then have "l = Some (x, y)" using that by simp
      from 1(3) [OF this] next_stmt_tail [OF n] False True show ?thesis by auto
    qed
    show ?thesis by (rule 1(1) [OF True n [symmetric] refl _ L l']) (use nb in simp_all)
  next
    case False
    then have "l = Some (a, b)" using 1(2) by (simp add: last_stmt.simps [of body i l])
    from 1(3) [OF this] False show ?thesis by (auto intro: blank_Nil)
  qed
qed

lemma brace_ends: "t \<noteq> [] \<Longrightarrow> hd t = CHR ''{'' \<Longrightarrow> last t = CHR ''}'' \<Longrightarrow> t = ''{'' @ butlast (tl t) @ ''}''"
proof -
  assume t: "t \<noteq> []" "hd t = CHR ''{''" "last t = CHR ''}''"
  then obtain u where u: "t = CHR ''{'' # u" by (cases t) auto
  have "u \<noteq> []" using t(3) by (auto simp: u)
  then have "butlast u @ [last u] = u" by (rule append_butlast_last_id)
  moreover have "last u = CHR ''}''" using t(3) \<open>u \<noteq> []\<close> by (simp add: u)
  ultimately show ?thesis by (simp add: u)
qed

lemma trim_space_split: "\<exists>u w. s = u @ trim_space s @ w \<and> list_all lit_space u \<and> list_all lit_space w"
proof -
  let ?d = "dropWhile lit_space s"
  have "s = takeWhile lit_space s @ ?d" by simp
  moreover have "?d = trim_space s @ rev (takeWhile lit_space (rev ?d))"
    unfolding trim_space_def rev_append [symmetric] takeWhile_dropWhile_id by simp
  moreover have "list_all lit_space (takeWhile lit_space s)" "list_all lit_space (rev (takeWhile lit_space (rev ?d)))"
    by (auto simp: list_all_iff dest: set_takeWhileD)
  ultimately show ?thesis by (metis append.assoc)
qed

lemma stmt_jump:
  assumes d: "cc__pu_stmt_diverges s" and IH: "\<And>b. length b < length s \<Longrightarrow> cc__pu_body_diverges b \<Longrightarrow> ends_in_jump b"
    and post: "blank post"
  shows "ends_in_jump (pre @ s @ post)"
proof -
  let ?t = "trim_space s"
  obtain u w where s: "s = u @ ?t @ w" "list_all lit_space u" "list_all lit_space w" using trim_space_split by blast
  have t: "?t \<noteq> []" using d by (auto simp: cc__pu_stmt_diverges.simps [of s] Let_def split: if_splits)
  show ?thesis
  proof (cases "hd ?t = CHR ''{'' \<and> last ?t = CHR ''}''")
    case True
    then have "?t = ''{'' @ butlast (tl ?t) @ ''}''" using t brace_ends [of ?t] by simp
    then have b: "s = u @ ''{'' @ butlast (tl ?t) @ ''}'' @ w" using s(1) by (metis append.assoc)
    have "cc__pu_body_diverges (butlast (tl ?t))" using d True t by (simp add: cc__pu_stmt_diverges.simps [of s])
    moreover have "length (butlast (tl ?t)) < length s" using arg_cong [OF b, of length] by simp
    ultimately have "ends_in_jump (butlast (tl ?t))" using IH by blast
    then have "ends_in_jump (pre @ (u @ ''{'' @ butlast (tl ?t) @ ''}'' @ w) @ post)"
      using block [OF _ s(2,3) post, of "butlast (tl ?t)" pre] by simp
    then show ?thesis unfolding b [symmetric] .
  next
    case False
    let ?r = "rev (dropWhile lit_space (rev (butlast ?t)))"
    have la: "last ?t = CHR '';''" and sd: "simple_diverges ?r"
      using d False t by (auto simp: cc__pu_stmt_diverges.simps [of s] Let_def split: if_splits)
    have "butlast ?t = ?r @ rev (takeWhile lit_space (rev (butlast ?t)))"
      unfolding rev_append [symmetric] takeWhile_dropWhile_id by simp
    moreover have "list_all lit_space (rev (takeWhile lit_space (rev (butlast ?t))))" by (auto simp: list_all_iff dest: set_takeWhileD)
    ultimately obtain v where v: "butlast ?t = ?r @ v" "list_all lit_space v" by blast
    have "?t = ?r @ v @ '';''" using t la v(1) by (metis append.assoc append_butlast_last_id)
    then have b: "s = u @ ?r @ v @ '';'' @ w" using s(1) by (metis append.assoc)
    have "ends_in_jump (pre @ (u @ ?r @ v @ '';'' @ w) @ post)" using jump [OF sd s(2) v(2) s(3) post, of pre] by simp
    then show ?thesis unfolding b [symmetric] .
  qed
qed

lemma body_jump: "cc__pu_body_diverges body \<Longrightarrow> ends_in_jump body"
proof (induction body rule: length_induct)
  case (1 body)
  obtain a b where l: "last_stmt body 0 None = Some (a, b)" and d: "cc__pu_stmt_diverges (slice body a b)"
    using 1(2) by (auto simp: cc__pu_body_diverges.simps [of body] split: option.splits)
  have ab: "a < b" "b \<le> length body" "blank (drop b body)" using last_stmt_tail [OF l] by auto
  have "length (slice body a b) \<le> length body" by (simp add: slice_def)
  then have "ends_in_jump (take a body @ slice body a b @ drop b body)" by (intro stmt_jump [OF d _ ab(3)]) (use 1(1) in simp)
  moreover have "body = take a body @ slice body a b @ drop b body"
    unfolding slice_def using ab by (metis append.assoc append_take_drop_id less_imp_le min.absorb1 take_take)
  ultimately show ?case by simp
qed

text \<open>A handler body that passes the divergence check ends in a jump: after its last statement there is only
  white space and comments, and that statement is a return, break, continue or goto, a forward
  to a handler, a call of a function that does not return, or a block that ends in a jump itself.\<close>
theorem diverging_body_ends_in_jump:
  assumes "cc__pu_body_diverges body"
  shows "ends_in_jump body"
  using assms by (rule body_jump)

theorem diverging_body_ends_in_jump_witness: "ends_in_jump ''log(e); { cleanup(); return -1; } /* done */''"
proof -
  have "cc__pu_body_diverges ''log(e); { cleanup(); return -1; } /* done */''" by code_simp
  then show ?thesis by (rule diverging_body_ends_in_jump)
qed

end
