(* ===== verification/Unwrap_Rewrite.thy ===== *)
theory Unwrap_Rewrite
  imports Unwrap_Scan
begin

text \<open>
  The rewrites of visitor/pass_result_unwrap.c: the default operator \<^verbatim>\<open>?>\<close>, the handlers of \<^verbatim>\<open>!>\<close> at statement and at expression
  position, the forwards inside a handler body, the preprocessing of plain handlers on the intermediate
  representation, and the driver with its bounded loops.

  A rewrite is a function of the text that returns a diagnostic with its line, nothing when there is no sigil, or the new text.  The
  static counters of the temporaries are a record that is passed along.  The builders never fail here; the file name
  of diagnostics is part of the context.
\<close>

section \<open>State and diagnostics\<close>

record pu_ctx =
  pu_file :: string
  pu_reg :: fn_registry

record pu_ids =
  g_unwrap_id :: nat
  g_bang_id :: nat
  g_bang_expr_bare_id :: nat
  g_expr_tmp_id :: nat
  g_expr_tmp_id2 :: nat

datatype pu_error =
  Unclosed_Binder | Expected_Identifier | Rhs_Not_Value | Missing_Operand | Missing_Default
| Unclosed_Forward | Unknown_Binder string | No_Handler string | Handler_Falls_Through | Unreachable_Code string
| Unexpected_End | Missing_Body | Unclosed_Body | Missing_Semicolon | Body_Falls_Through
| Needs_Handler | Delegate_Falls_Through | Unhandled_Result

type_synonym pu_diag = "nat \<times> pu_error"
type_synonym rewrite = "pu_diag + (string \<times> pu_ids) option"

definition tmp_name :: "string \<Rightarrow> nat \<Rightarrow> string" where
  "tmp_name pre i = pre @ digits i"

definition mangled_name :: "nat \<Rightarrow> string \<Rightarrow> string" where
  "mangled_name i b = ''__cc_pu_bind_'' @ digits i @ ''_'' @ b"

definition cc__ru_emit_uw_err_binder :: "pu_ctx \<Rightarrow> string \<Rightarrow> nat \<Rightarrow> nat \<Rightarrow> string \<Rightarrow> string \<Rightarrow> nat \<Rightarrow> string" where
  "cc__ru_emit_uw_err_binder ctx s a b tmpv bnd line =
    (let err = (case cc__ru_extract_plain_callee s a b 128 of
                  None \<Rightarrow> None | Some callee \<Rightarrow> cc_result_fn_registry_get_err_type (pu_reg ctx) callee 256);
         e = sb_text (cc_sb_append_uw_err_at \<lparr>sb_text = [], sb_cap = 0\<rparr> tmpv s a b (Some (pu_file ctx)) line) in
     case err of
       Some t \<Rightarrow> t @ '' '' @ bnd @ '' = ('' @ tmpv @ '').u.error; ''
     | None \<Rightarrow> ''__typeof__('' @ e @ '') '' @ bnd @ '' = '' @ e @ ''; '')"

section \<open>The default operator\<close>

text \<open>The optional \<^verbatim>\<open>(e)\<close> after the sigil, and where the default starts.\<close>

definition q_binder :: "string \<Rightarrow> nat \<Rightarrow> pu_error + string option \<times> nat" where
  "q_binder s op =
    (let n = length s; scan = cc_skip_ws_len s n (op + 2) in
     if scan < n \<and> s ! scan = CHR ''('' then
       (case cc_find_matching_paren s n scan of
          None \<Rightarrow> Inl Unclosed_Binder
        | Some rpar \<Rightarrow>
           (case cc__trim_range s (scan + 1) rpar of (ba, bb) \<Rightarrow>
              if cc__range_is_ident s ba bb then Inr (Some (fit 128 (slice s ba bb)), rpar + 1)
              else (let post = cc_skip_ws_len s n (rpar + 1) in
                if bb \<le> ba \<or> post < n \<and> (cc_is_ident_start (s ! post) \<or> s ! post \<in> set ''0123456789'' \<or>
                     s ! post \<in> {CHR ''('', CHR ''{'', dquote, squote})
                then Inl Expected_Identifier else Inr (None, scan))))
     else Inr (None, scan))"

definition rhs_misuse :: "string \<Rightarrow> nat \<Rightarrow> bool" where
  "rhs_misuse s i =
    (let n = length s in
     i < n \<and>
     (list_ex (cc__match_ident_kw s n i) [''return'', ''break'', ''continue'', ''goto''] \<or> s ! i = CHR ''{'' \<or>
      (i + 4 \<le> n \<and> at s ''@err'' i \<and> \<not> (i + 11 \<le> n \<and> at s ''@errhandler'' i) \<and>
       (i + 4 = n \<or> \<not> cc_is_ident_char (s ! (i + 4))))))"

text \<open>The expression that replaces operand, sigil and default.\<close>

definition default_expr :: "pu_ctx \<Rightarrow> string \<Rightarrow> nat \<Rightarrow> nat \<Rightarrow> string \<Rightarrow> string option \<Rightarrow> nat \<Rightarrow> nat \<Rightarrow> string" where
  "default_expr ctx s a b rhs bnd i line =
    (let tmpv = tmp_name ''__cc_pu_r_'' i; lhs = slice s a b in
     ''({ __typeof__('' @ lhs @ '') '' @ tmpv @ '' = ('' @ lhs @ ''); !__cc_uw_is_err('' @ tmpv @ '') ? __cc_uw_value('' @ tmpv @ '') : '' @
     (case bnd of
        Some e \<Rightarrow> ''({ '' @ cc__ru_emit_uw_err_binder ctx s a b tmpv (mangled_name i e) line @
          ''('' @ cc__pu_mangle_binder_in_body rhs e (mangled_name i e) @ ''); })''
      | None \<Rightarrow> ''('' @ rhs @ '')'') @ ''; })'')"

definition cc__rewrite_result_unwrap_once :: "pu_ctx \<Rightarrow> pu_ids \<Rightarrow> string \<Rightarrow> rewrite" where
  "cc__rewrite_result_unwrap_once ctx ids s =
    (let n = length s in
     case cc__find_unwrap_token s n of
       None \<Rightarrow> Inr None
     | Some op \<Rightarrow>
        (let lhs_start = cc__find_lhs_start_backward s op; line = cc__line_from_pos s op in
         case cc__trim_range s lhs_start op of (lhs_a, lhs_b) \<Rightarrow>
         case q_binder s op of
           Inl e \<Rightarrow> Inl (line, e)
         | Inr (bnd, scan) \<Rightarrow>
            if rhs_misuse s (cc_skip_ws_len s n scan) then Inl (line, Rhs_Not_Value)
            else (let rhs_end = cc__find_rhs_end_forward s n scan in
              case cc__trim_range s scan rhs_end of (rhs_a, rhs_b) \<Rightarrow>
              if lhs_b \<le> lhs_a then Inl (line, Missing_Operand)
              else if rhs_b \<le> rhs_a then Inl (line, Missing_Default)
              else (let i = g_unwrap_id ids + 1 in
                Inr (Some (take lhs_start s @ slice s lhs_start lhs_a @
                  default_expr ctx s lhs_a lhs_b (slice s rhs_a rhs_b) bnd i line @
                  slice s rhs_b rhs_end @ drop rhs_end s, ids\<lparr>g_unwrap_id := i\<rparr>))))))"

section \<open>Handler bodies\<close>

definition space_range :: "string \<Rightarrow> nat \<Rightarrow> nat \<Rightarrow> nat \<times> nat" where
  "space_range s a b =
    (let a' = a + length (takeWhile lit_space (slice s a b))
     in (a', b - length (takeWhile lit_space (rev (slice s a' b)))))"

text \<open>A forward \<^verbatim>\<open>@err(IDENT);\<close> at a position, with the position of its semicolon.  Other uses of \<^verbatim>\<open>@err\<close> stay.\<close>

definition forward_at :: "string \<Rightarrow> nat \<Rightarrow> (pu_error + string \<times> nat) option" where
  "forward_at body i =
    (let n = length body; j = i + 4 + length (takeWhile lit_space (drop (i + 4) body)) in
     if \<not> (i + 4 \<le> n \<and> at body ''@err'' i \<and> \<not> (i + 11 \<le> n \<and> at body ''@errhandler'' i) \<and>
           (n \<le> i + 4 \<or> \<not> cc_is_ident_char (body ! (i + 4)))) then None
     else if n \<le> j \<or> body ! j \<noteq> CHR ''('' then None
     else case cc_find_matching_paren body n j of
       None \<Rightarrow> Some (Inl Unclosed_Forward)
     | Some rpar \<Rightarrow>
        (case space_range body (j + 1) rpar of (ia, ib) \<Rightarrow>
         let semi = rpar + 1 + length (takeWhile lit_space (drop (rpar + 1) body)) in
         if \<not> cc__range_is_ident body ia ib \<or> n \<le> semi \<or> body ! semi \<noteq> CHR '';'' then None
         else Some (Inr (fit 128 (slice body ia ib), semi))))"

text \<open>What a forward becomes: the body of the enclosing handler with its parameter renamed.\<close>

definition forward_text ::
  "string \<Rightarrow> nat \<Rightarrow> string \<Rightarrow> string \<Rightarrow> handler option \<Rightarrow> nat \<Rightarrow> string \<Rightarrow> nat \<Rightarrow> pu_diag + string" where
  "forward_text src off body bnd outer i name semi =
    (let here = cc__line_from_pos src (off + i) in
     if bnd = [] \<or> name \<noteq> bnd then Inl (here, Unknown_Binder name)
     else case outer of
       None \<Rightarrow> Inl (here, No_Handler name)
     | Some h \<Rightarrow>
        (if h_body h = [] then Inl (here, No_Handler name)
         else if \<not> cc__pu_body_diverges (h_body h) then Inl (cc__line_from_pos src (h_pos h), Handler_Falls_Through)
         else (let close = cc__pu_find_enclosing_brace_close body (semi + 1);
                   next = cc__pu_find_next_stmt_byte body (semi + 1) close in
           if next < close then Inl (cc__line_from_pos src (off + next), Unreachable_Code name)
           else Inr (''{ '' @ cc__pu_flatten_handler_body
                  (cc__pu_subst_word (h_body h) (cc__pu_extract_param_name (h_decl h) 128) bnd) @ '' }''))))"

lemma forward_at_bounds:
  assumes "forward_at body i = Some (Inr (name, semi))"
  shows "i < semi" "semi < length body"
proof -
  let ?j = "i + 4 + length (takeWhile lit_space (drop (i + 4) body))"
  obtain rpar where p: "cc_find_matching_paren body (length body) ?j = Some rpar" and s: "rpar < semi" "semi < length body"
    using assms by (auto simp: forward_at_def Let_def split: if_splits option.splits prod.splits)
  have "?j < rpar" using matching_bounds(1) [OF disjI1 [OF p]] by simp
  then show "i < semi" "semi < length body" using s by auto
qed

function body_loop :: "string \<Rightarrow> nat \<Rightarrow> nat \<Rightarrow> string \<Rightarrow> string \<Rightarrow> handler option \<Rightarrow> lex_mode \<Rightarrow> nat \<Rightarrow> pu_diag + string" where
  "body_loop src off line body bnd outer m i =
    (if i < length body then
       (case lex_step False m (body ! i) (if i + 1 < length body then Some (body ! (i + 1)) else None) of (m', skip, code) \<Rightarrow>
          if code \<and> body ! i = CHR ''@'' then
            (case forward_at body i of
               None \<Rightarrow> map_sum id ((#) (body ! i)) (body_loop src off line body bnd outer m' (i + 1))
             | Some (Inl e) \<Rightarrow> Inl (line, e)
             | Some (Inr (name, semi)) \<Rightarrow>
                (case forward_text src off body bnd outer i name semi of
                   Inl d \<Rightarrow> Inl d
                 | Inr t \<Rightarrow> map_sum id ((@) t) (body_loop src off line body bnd outer m' (semi + 1))))
          else (let k = (if skip then i + 2 else i + 1) in
            map_sum id ((@) (slice body i k)) (body_loop src off line body bnd outer m' k)))
     else Inr [])"
  by pat_completeness auto
termination
  by (relation "measure (\<lambda>(src, off, line, body, bnd, outer, m, i). length body - i)") (auto dest: forward_at_bounds)

declare body_loop.simps [simp del]

text \<open>The body is the range from \<^verbatim>\<open>body_a\<close> of the source.\<close>

definition cc__pu_process_bang_body :: "string \<Rightarrow> nat \<Rightarrow> nat \<Rightarrow> nat \<Rightarrow> string \<Rightarrow> handler option \<Rightarrow> pu_diag + string" where
  "cc__pu_process_bang_body src line bd_a bd_b bnd outer =
    body_loop src bd_a line (slice src bd_a bd_b) bnd outer Code 0"

section \<open>The handler operator\<close>

definition guarded :: "string \<Rightarrow> string \<Rightarrow> string" where
  "guarded lhs tmpv = ''__typeof__('' @ lhs @ '') '' @ tmpv @ '' = ('' @ lhs @ ''); if (__cc_uw_is_err('' @ tmpv @ '')) { ''"

definition cc__rewrite_bang_binder ::
  "pu_ctx \<Rightarrow> pu_ids \<Rightarrow> string \<Rightarrow> nat \<Rightarrow> nat \<Rightarrow> string \<Rightarrow> nat \<Rightarrow> nat \<Rightarrow> bool \<Rightarrow> nat \<Rightarrow> nat \<Rightarrow> nat \<Rightarrow> rewrite" where
  "cc__rewrite_bang_binder ctx ids s call_a call_b bnd bd_a bd_b is_expr line splice_from splice_to =
    (case cc__pu_process_bang_body s line bd_a bd_b bnd (cc__pu_find_outer_errhandler s (length s) call_a) of
       Inl d \<Rightarrow> Inl d
     | Inr processed \<Rightarrow>
        (let i = g_bang_id ids + 1; tmpv = tmp_name ''__cc_pu_s_'' i; mb = mangled_name i bnd in
         Inr (Some (take splice_from s @ ''{ '' @ guarded (slice s call_a call_b) tmpv @
           cc__ru_emit_uw_err_binder ctx s call_a call_b tmpv mb line @ cc__pu_mangle_binder_in_body processed bnd mb @
           (if is_expr then '';'' else []) @ '' } }'' @ drop splice_to s, ids\<lparr>g_bang_id := i\<rparr>))))"

text \<open>The optional \<^verbatim>\<open>(e)\<close> of \<^verbatim>\<open>!>\<close> with the position of its closing parenthesis.\<close>

definition bang_ident :: "string \<Rightarrow> nat \<Rightarrow> pu_error + string \<times> nat" where
  "bang_ident s scan =
    (case cc_find_matching_paren s (length s) scan of
       None \<Rightarrow> Inl Unclosed_Binder
     | Some rpar \<Rightarrow>
        (case space_range s (scan + 1) rpar of (ba, bb) \<Rightarrow>
           if cc__range_is_ident s ba bb then Inr (fit 128 (slice s ba bb), rpar) else Inl Expected_Identifier))"

text \<open>The expression with the error branch in front of the value.\<close>

definition bang_expr :: "string \<Rightarrow> nat \<Rightarrow> string \<Rightarrow> string \<Rightarrow> string \<Rightarrow> nat \<Rightarrow> string" where
  "bang_expr s call_start lhs tmpv branch splice_to =
    take call_start s @ ''({ '' @ guarded lhs tmpv @ branch @ '' } __cc_uw_value('' @ tmpv @ ''); })'' @ drop splice_to s"

text \<open>The bare form takes the body of the enclosing handler.\<close>

definition bare_delegate :: "pu_ctx \<Rightarrow> pu_ids \<Rightarrow> string \<Rightarrow> nat \<Rightarrow> nat \<Rightarrow> nat \<Rightarrow> nat \<Rightarrow> nat \<Rightarrow> rewrite" where
  "bare_delegate ctx ids s call_start call_a call_b scan line =
    (case cc__pu_find_outer_errhandler s (length s) call_a of
       None \<Rightarrow> Inl (line, Needs_Handler)
     | Some h \<Rightarrow>
        (if \<not> cc__pu_body_diverges (h_body h) then Inl (cc__line_from_pos s (h_pos h), Delegate_Falls_Through)
         else (let i = g_bang_expr_bare_id ids + 1; bnd = tmp_name ''__cc_pu_be_'' i; t = g_expr_tmp_id ids + 1;
                   tmpv = tmp_name ''__cc_pu_e_'' t in
           Inr (Some (bang_expr s call_start (slice s call_a call_b) tmpv
             (cc__ru_emit_uw_err_binder ctx s call_a call_b tmpv bnd line @
              cc__pu_flatten_handler_body (cc__pu_subst_word (h_body h) (cc__pu_extract_param_name (h_decl h) 128) bnd)) scan,
             ids\<lparr>g_bang_expr_bare_id := i, g_expr_tmp_id := t\<rparr>)))))"

text \<open>The body of the expression form, a block or a statement with its semicolon, and the end of the
  replaced text.  It has to diverge.\<close>

definition expr_body :: "string \<Rightarrow> nat \<Rightarrow> pu_error + nat \<times> nat \<times> nat" where
  "expr_body s scan =
    (if s ! scan = CHR ''{'' then
       (case cc_find_matching_brace s (length s) scan of
          None \<Rightarrow> Inl Unclosed_Body
        | Some rbrace \<Rightarrow>
           (if \<not> cc__pu_body_diverges (slice s (scan + 1) rbrace) then Inl Body_Falls_Through
            else Inr (scan + 1, rbrace, rbrace + 1)))
     else
       (case cc__find_semi_forward s (length s) scan of
          None \<Rightarrow> Inl Missing_Semicolon
        | Some semi \<Rightarrow>
           (if \<not> cc__pu_stmt_diverges (slice s scan (semi + 1)) then Inl Body_Falls_Through
            else Inr (scan, semi + 1, semi))))"

definition cc__rewrite_bang_expr_once :: "pu_ctx \<Rightarrow> pu_ids \<Rightarrow> string \<Rightarrow> nat \<Rightarrow> nat \<Rightarrow> nat \<Rightarrow> rewrite" where
  "cc__rewrite_bang_expr_once ctx ids s op call_start line =
    (let n = length s; scan0 = cc_skip_ws_len s n (op + 2) in
     case cc__trim_range s call_start op of (call_a, call_b) \<Rightarrow>
     if call_b \<le> call_a then Inl (line, Missing_Operand)
     else case (if scan0 < n \<and> s ! scan0 = CHR ''(''
                then (case bang_ident s scan0 of
                        Inl e \<Rightarrow> Inl e | Inr (b, rpar) \<Rightarrow> Inr (Some b, cc_skip_ws_len s n (rpar + 1)))
                else Inr (None, scan0)) of
       Inl e \<Rightarrow> Inl (line, e)
     | Inr (bnd, scan) \<Rightarrow>
        if n \<le> scan then Inl (line, Missing_Body)
        else if s ! scan = CHR '';'' \<and> bnd = None then bare_delegate ctx ids s call_start call_a call_b scan line
        else if s ! scan = CHR '';'' then Inl (line, Missing_Body)
        else case expr_body s scan of
          Inl e \<Rightarrow> Inl (line, e)
        | Inr (bd_a, bd_b, splice_to) \<Rightarrow>
           (case cc__pu_process_bang_body s line bd_a bd_b (case bnd of None \<Rightarrow> [] | Some b \<Rightarrow> b)
                   (cc__pu_find_outer_errhandler s n call_a) of
              Inl d \<Rightarrow> Inl d
            | Inr processed \<Rightarrow>
               (let t = g_expr_tmp_id2 ids + 1; tmpv = tmp_name ''__cc_pu_x_'' t in
                Inr (Some (bang_expr s call_start (slice s call_a call_b) tmpv
                  (case bnd of
                     None \<Rightarrow> processed
                   | Some b \<Rightarrow> cc__ru_emit_uw_err_binder ctx s call_a call_b tmpv (mangled_name t b) line @
                       cc__pu_mangle_binder_in_body processed b (mangled_name t b)) splice_to,
                  ids\<lparr>g_expr_tmp_id2 := t\<rparr>)))))"

text \<open>The search for the sigil to rewrite: position, first byte after it, start of the operand, and whether it is at a
  statement.  Declarations \<^verbatim>\<open>T !>(E) name\<close> are passed over.\<close>

record bang_site =
  bs_op :: nat
  bs_scan :: nat
  bs_call :: nat
  bs_stmt :: bool

definition bang_site_at :: "string \<Rightarrow> nat \<Rightarrow> bang_site" where
  "bang_site_at s op =
    (case cc__find_bang_lhs_start_ex s op of (start, st) \<Rightarrow>
     let a = cc__skip_ws_comments_forward s op start;
         ret = (st \<and> a + 6 \<le> op \<and> at s ''return'' a \<and> (a + 6 = op \<or> \<not> cc_is_ident_char (s ! (a + 6)))) in
     \<lparr>bs_op = op, bs_scan = cc_skip_ws_len s (length s) (op + 2), bs_call = (if ret then a + 6 else start), bs_stmt = (st \<and> \<not> ret)\<rparr>)"

definition decl_site :: "string \<Rightarrow> bang_site \<Rightarrow> bool" where
  "decl_site s b =
    (bs_stmt b \<and> s ! bs_scan b = CHR ''('' \<and>
     (case cc__trim_range s (bs_call b) (bs_op b) of (a, e) \<Rightarrow> cc__bang_lhs_looks_like_decl s a e))"

lemma token_loop_bounds: "token_loop c c2 m cs p = Some q \<Longrightarrow> p \<le> q \<and> q + 2 \<le> p + length cs"
proof (induction cs arbitrary: m p rule: length_induct)
  case (1 cs)
  show ?case
  proof (cases cs)
    case (Cons x xs)
    obtain m' skip code where st: "lex_step False m x (peek xs) = (m', skip, code)" by (metis prod_cases3)
    have IH: "token_loop c c2 m' ys p' = Some q \<Longrightarrow> length ys < length cs \<Longrightarrow> p' \<le> q \<and> q + 2 \<le> p' + length ys" for ys p'
      using 1(1) by blast
    have sk: "skip \<Longrightarrow> xs \<noteq> []" using st by (cases m; cases xs) (auto simp: peek_def split: if_splits)
    have pk: "peek xs = Some c2 \<Longrightarrow> xs \<noteq> []" by (auto simp: peek_def)
    show ?thesis
      using 1(2) st sk pk IH [of xs "p + 1"] IH [of "tl xs" "p + 2"] by (cases xs) (auto simp: Cons split: if_splits)
  qed (use 1 in simp)
qed

lemma bang_token_bounds: "cc__find_bang_token_from s n from = Some op \<Longrightarrow> n \<le> length s \<Longrightarrow> from \<le> op \<and> op + 2 \<le> n"
  using token_loop_bounds [of "CHR ''!''" "CHR ''>''" Code "slice s from n" "from" op]
  by (cases "from \<le> n") (auto simp: cc__find_bang_token_from_def slice_length slice_def)

function bang_search :: "string \<Rightarrow> nat \<Rightarrow> (pu_diag + bang_site) option" where
  "bang_search s from =
    (case cc__find_bang_token_from s (length s) from of
       None \<Rightarrow> None
     | Some op \<Rightarrow>
        (let b = bang_site_at s op in
         if length s \<le> bs_scan b then Some (Inl (cc__line_from_pos s op, Unexpected_End))
         else if decl_site s b then bang_search s (op + 2)
         else Some (Inr b)))"
  by pat_completeness auto
termination
  by (relation "measure (\<lambda>(s, from). length s - from)") (auto dest!: bang_token_bounds)

declare bang_search.simps [simp del]

text \<open>The statement forms: with \<^verbatim>\<open>(e)\<close>, and those that become an \<^verbatim>\<open>@err\<close> clause.\<close>

definition bang_stmt_binder :: "pu_ctx \<Rightarrow> pu_ids \<Rightarrow> string \<Rightarrow> bang_site \<Rightarrow> nat \<Rightarrow> rewrite" where
  "bang_stmt_binder ctx ids s b line =
    (let n = length s in
     case bang_ident s (bs_scan b) of
       Inl e \<Rightarrow> Inl (line, e)
     | Inr (bnd, rpar) \<Rightarrow>
        (let call_start = cc__find_bang_lhs_start s (bs_op b); after_bind = cc_skip_ws_len s n (rpar + 1) in
         case cc__trim_range s call_start (bs_op b) of (call_a, call_b) \<Rightarrow>
         if call_b \<le> call_a then Inl (line, Missing_Operand)
         else if n \<le> after_bind \<or> s ! after_bind = CHR '';'' then Inl (line, Missing_Body)
         else if s ! after_bind = CHR ''{'' then
           (case cc_find_matching_brace s n after_bind of
              None \<Rightarrow> Inl (line, Unclosed_Body)
            | Some rbrace \<Rightarrow>
               (let tail = cc_skip_ws_len s n (rbrace + 1) in
                cc__rewrite_bang_binder ctx ids s call_a call_b bnd (after_bind + 1) rbrace False line call_start
                  (if tail < n \<and> s ! tail = CHR '';'' then tail + 1 else rbrace + 1)))
         else
           (case cc__find_semi_forward s n after_bind of
              None \<Rightarrow> Inl (line, Missing_Semicolon)
            | Some semi \<Rightarrow> cc__rewrite_bang_binder ctx ids s call_a call_b bnd after_bind semi True line call_start (semi + 1))))"

definition bang_stmt_plain :: "pu_ids \<Rightarrow> string \<Rightarrow> bang_site \<Rightarrow> nat \<Rightarrow> rewrite" where
  "bang_stmt_plain ids s b line =
    (let n = length s; op = bs_op b; scan = bs_scan b; plain = Inr (Some (take op s @ ''@err'' @ drop (op + 2) s, ids)) in
     if s ! scan = CHR '';'' then plain
     else if s ! scan = CHR ''{'' then
       (case cc_find_matching_brace s n scan of
          None \<Rightarrow> Inl (line, Unclosed_Body)
        | Some rbrace \<Rightarrow>
           (let post = cc_skip_ws_len s n (rbrace + 1) in
            if n \<le> post \<or> s ! post \<noteq> CHR '';''
            then Inr (Some (take op s @ ''@err'' @ slice s (op + 2) (rbrace + 1) @ '';'' @ drop (rbrace + 1) s, ids))
            else plain))
     else (case cc__find_semi_forward s n scan of None \<Rightarrow> Inl (line, Missing_Semicolon) | Some semi \<Rightarrow> plain))"

definition cc__rewrite_bang_once :: "pu_ctx \<Rightarrow> pu_ids \<Rightarrow> string \<Rightarrow> rewrite" where
  "cc__rewrite_bang_once ctx ids s =
    (case bang_search s 0 of
       None \<Rightarrow> Inr None
     | Some (Inl d) \<Rightarrow> Inl d
     | Some (Inr b) \<Rightarrow>
        (let line = cc__line_from_pos s (bs_op b) in
         if \<not> bs_stmt b then cc__rewrite_bang_expr_once ctx ids s (bs_op b) (bs_call b) line
         else if s ! bs_scan b = CHR ''('' then bang_stmt_binder ctx ids s b line
         else bang_stmt_plain ids s b line))"

section \<open>Plain handlers on the intermediate representation\<close>

fun strstr :: "string \<Rightarrow> string \<Rightarrow> nat option" where
  "strstr w [] = (if w = [] then Some 0 else None)"
| "strstr w (c # cs) = (if take (length w) (c # cs) = w then Some 0 else map_option Suc (strstr w cs))"

definition cc__ir_is_nobinder_stmt_bang :: "ir_node \<Rightarrow> bool" where
  "cc__ir_is_nobinder_stmt_bang c =
    (nd_kind c = CC_IR_UNWRAP_BANG \<and> binder_name (nd_unwrap c) = None \<and> stmt_position (nd_unwrap c) \<and>
     (case strstr ''!>'' (c_str (nd_raw c)) of None \<Rightarrow> False | Some off \<Rightarrow> off + 2 < length (nd_raw c)))"

definition cc__ir_node_sigil_offset :: "ir_node \<Rightarrow> nat option" where
  "cc__ir_node_sigil_offset c = strstr (if nd_kind c = CC_IR_UNWRAP_BANG then ''!>'' else ''?>'') (c_str (nd_raw c))"

definition nobinder_text :: "ir_node \<Rightarrow> string" where
  "nobinder_text c =
    (if \<not> cc__ir_is_nobinder_stmt_bang c then nd_raw c
     else case cc__ir_node_sigil_offset c of
       None \<Rightarrow> nd_raw c
     | Some off \<Rightarrow>
        (if length (nd_raw c) < off + 2 then nd_raw c
         else take off (nd_raw c) @ ''@err'' @ drop (off + 2) (nd_raw c) @
           (if nd_raw c = [] \<or> last (nd_raw c) \<noteq> CHR '';'' then '';'' else [])))"

text \<open>\<^verbatim>\<open>None\<close> is the return value -1, a failed allocation; \<^verbatim>\<open>Some None\<close> leaves the text alone.\<close>

definition cc__rewrite_nobinder_bangs_via_ir :: "bool \<Rightarrow> (nat \<Rightarrow> bool) \<Rightarrow> string \<Rightarrow> string option option" where
  "cc__rewrite_nobinder_bangs_via_ir mem ok src =
    (if src = [] \<or> strstr ''!>'' src = None then Some None
     else case cc_ir_arena_create mem ok of
       None \<Rightarrow> None
     | Some arena \<Rightarrow>
        (case snd (cc_ir_build_from_stub ok (Some arena) src) of
           None \<Rightarrow> None
         | Some root \<Rightarrow>
            (if \<not> list_ex cc__ir_is_nobinder_stmt_bang (nd_children root) then Some None
             else Some (Some (concat (map nobinder_text (nd_children root)))))))"

section \<open>The driver\<close>

fun rewrite_loop :: "nat \<Rightarrow> (pu_ids \<Rightarrow> string \<Rightarrow> rewrite) \<Rightarrow> pu_ids \<Rightarrow> string \<Rightarrow> bool \<Rightarrow> pu_diag + string \<times> pu_ids \<times> bool" where
  "rewrite_loop 0 step ids s any = Inr (s, ids, any)"
| "rewrite_loop (Suc k) step ids s any =
    (case step ids s of
       Inl d \<Rightarrow> Inl d
     | Inr None \<Rightarrow> Inr (s, ids, any)
     | Inr (Some (s', ids')) \<Rightarrow> rewrite_loop k step ids' s' True)"

definition rewrite_operators :: "bool \<Rightarrow> (nat \<Rightarrow> bool) \<Rightarrow> pu_ctx \<Rightarrow> pu_ids \<Rightarrow> string \<Rightarrow> pu_diag list + string \<times> pu_ids \<times> bool" where
  "rewrite_operators mem ok ctx ids src =
    (case cc__rewrite_nobinder_bangs_via_ir mem ok src of
       None \<Rightarrow> Inl []
     | Some pp \<Rightarrow>
        (case rewrite_loop 64 (cc__rewrite_result_unwrap_once ctx) ids (case pp of None \<Rightarrow> src | Some t \<Rightarrow> t) (pp \<noteq> None) of
           Inl d \<Rightarrow> Inl [d]
         | Inr (cur, ids, any) \<Rightarrow>
            (case rewrite_loop 64 (cc__rewrite_bang_once ctx) ids cur any of Inl d \<Rightarrow> Inl [d] | Inr r \<Rightarrow> Inr r)))"

definition cc__rewrite_result_unwrap ::
  "bool \<Rightarrow> bool \<Rightarrow> (nat \<Rightarrow> bool) \<Rightarrow> pu_ctx \<Rightarrow> pu_ids \<Rightarrow> string \<Rightarrow> pu_diag list + (string \<times> pu_ids) option" where
  "cc__rewrite_result_unwrap strict mem ok ctx ids src =
    (let need = (strstr ''?>'' src \<noteq> None \<or> strstr ''!>'' src \<noteq> None) in
     if src = [] \<or> \<not> need \<and> \<not> strict then Inr None
     else case (if need then rewrite_operators mem ok ctx ids src else Inr (src, ids, False)) of
       Inl ds \<Rightarrow> Inl ds
     | Inr (cur, ids, any) \<Rightarrow>
        (let ls = cc__strict_unhandled_scan strict (pu_reg ctx) cur in
         if ls \<noteq> [] then Inl (map (\<lambda>l. (l, Unhandled_Result)) ls)
         else if any then Inr (Some (cur, ids)) else Inr None))"

text \<open>A context without registered functions, and fresh counters.\<close>

definition demo_ctx :: pu_ctx where
  "demo_ctx = \<lparr>pu_file = ''a.ccs'', pu_reg = empty_registry\<rparr>"

definition demo_ids :: pu_ids where
  "demo_ids = \<lparr>g_unwrap_id = 0, g_bang_id = 0, g_bang_expr_bare_id = 0, g_expr_tmp_id = 0, g_expr_tmp_id2 = 0\<rparr>"

section \<open>Default expressions are replaced in place\<close>

lemma trim_round_length: "length (trim_round t) \<le> length t"
proof -
  have "length (skip_block_ptr t) \<le> length t" for t by (rule skip_block_ptr_length)
  then show ?thesis
    unfolding trim_round_def Let_def using dropWhile_length le_trans diff_le_self
    by (smt (verit, ccfv_threshold) length_drop)
qed

lemma trim_left_length: "length (trim_left t) \<le> length t"
  by (induction t rule: trim_left.induct) (subst trim_left.simps, auto)

lemma trim_back_bounds: "a \<le> b \<Longrightarrow> a \<le> trim_back s a b"
proof -
  assume "a \<le> b"
  have "length (takeWhile lit_space (rev (slice s a b))) \<le> length (slice s a b)" by (metis length_rev length_takeWhile_le)
  moreover have "length (slice s a b) \<le> b - a" by (simp add: slice_def)
  ultimately show ?thesis unfolding trim_back_def Let_def using \<open>a \<le> b\<close> by auto
qed

lemma trim_right_bounds: "a \<le> b \<Longrightarrow> a \<le> trim_right s a b \<and> trim_right s a b \<le> b"
proof (induction s a b rule: trim_right.induct)
  case (1 s a b)
  show ?case
  proof (cases "a < b \<and> trim_back s a b < b")
    case True
    then show ?thesis using 1(1) [OF True trim_back_bounds [OF 1(2)]] by (simp add: trim_right.simps [of s a b])
  next
    case False
    then have "trim_right s a b = b" unfolding trim_right.simps [of s a b] by (rule if_not_P)
    then show ?thesis using 1(2) by simp
  qed
qed

lemma trim_range_bounds:
  assumes "cc__trim_range s a b = (a', b')" "a \<le> b"
  shows "a \<le> a' \<and> a' \<le> b' \<and> b' \<le> b"
proof (cases "b \<le> a")
  case False
  let ?t = "trim_left (slice s a b)"
  have "length ?t \<le> b - a" using trim_left_length [of "slice s a b"] by (simp add: slice_def)
  then show ?thesis using assms False trim_right_bounds [of "b - length ?t" b s] by (auto simp: cc__trim_range_def Let_def)
qed (use assms in \<open>auto simp: cc__trim_range_def\<close>)

lemma raw_loop_le: "raw_loop s from pr bk bc i \<le> i"
proof (induction i arbitrary: pr bk bc rule: less_induct)
  case (less i)
  show ?case
  proof (cases i)
    case (Suc j)
    have IH: "raw_loop s from x y z k \<le> Suc j" if "k \<le> j" for x y z k
      using less [of k x y z] that Suc by simp
    show ?thesis by (simp add: Suc Let_def IH back_le copied_scanners)
  qed simp
qed

lemma lhs_start_backward_le: "cc__find_lhs_start_backward s from \<le> from"
  using raw_loop_le [of s "from" 0 0 0 "from"]
  by (auto simp: cc__find_lhs_start_backward_def cc__find_lhs_start_backward_raw_def Let_def)

lemma unwrap_token_at:
  assumes "cc__find_unwrap_token s (length s) = Some op"
  shows "op + 2 \<le> length s"
  using token_loop_bounds [of "CHR ''?''" "CHR ''>''" Code s 0 op] assms by (simp add: cc__find_unwrap_token_def slice_def)

lemma q_binder_bounds:
  assumes "q_binder s op = Inr (bnd, scan)" "op + 2 \<le> length s"
  shows "op + 2 \<le> scan \<and> scan \<le> length s"
proof -
  let ?sc = "cc_skip_ws_len s (length s) (op + 2)"
  have sc: "op + 2 \<le> ?sc" "?sc \<le> length s"
    using assms(2) length_takeWhile_le [of is_ws "drop (op + 2) s"] by (auto simp: cc_skip_ws_len_def)
  have "?sc < r \<and> r < length s" if "cc_find_matching_paren s (length s) ?sc = Some r" for r
    using matching_bounds [OF disjI1 [OF that]] by auto
  then show ?thesis
    using assms(1) sc unfolding q_binder_def Let_def by (force split: if_splits option.splits prod.splits)
qed

text \<open>Rewriting a default operator is local: the text splits into what precedes the operand, the operand, the sigil, the default
  and what follows; what precedes and follows stays, and operand and default are
  not empty.\<close>
theorem default_rewrite_local:
  assumes "cc__rewrite_result_unwrap_once ctx ids s = Inr (Some (out, ids'))"
  shows "\<exists>pre lhs w mid rhs post a b bnd i line.
     s = pre @ lhs @ w @ mid @ rhs @ post \<and> lhs = slice s a b \<and> cc__find_unwrap_token s (length s) = Some (length (pre @ lhs @ w)) \<and>
     lhs \<noteq> [] \<and> rhs \<noteq> [] \<and> out = pre @ default_expr ctx s a b rhs bnd i line @ post \<and> i = g_unwrap_id ids'"
proof -
  obtain op where op: "cc__find_unwrap_token s (length s) = Some op"
    using assms by (auto simp: cc__rewrite_result_unwrap_once_def Let_def split: option.splits)
  let ?ls = "cc__find_lhs_start_backward s op"
  obtain la lb where l: "cc__trim_range s ?ls op = (la, lb)" by fastforce
  obtain bnd scan where q: "q_binder s op = Inr (bnd, scan)"
    using assms op l by (auto simp: cc__rewrite_result_unwrap_once_def Let_def split: sum.splits)
  let ?re = "cc__find_rhs_end_forward s (length s) scan"
  obtain ra rb where r: "cc__trim_range s scan ?re = (ra, rb)" by fastforce
  let ?i = "g_unwrap_id ids + 1"
  have res: "la < lb" "ra < rb" "out = take ?ls s @ slice s ?ls la @
      default_expr ctx s la lb (slice s ra rb) bnd ?i (cc__line_from_pos s op) @ slice s rb ?re @ drop ?re s"
      "ids' = ids\<lparr>g_unwrap_id := ?i\<rparr>"
    using assms op l q r by (auto simp: cc__rewrite_result_unwrap_once_def Let_def split: if_splits)
  have sc: "op + 2 \<le> scan" "scan \<le> length s" using q_binder_bounds [OF q unwrap_token_at [OF op]] by auto
  have re: "scan \<le> ?re" "?re \<le> length s"
    using rhs_loop_bounds [of scan Code zero_depth "slice s scan (length s)"] sc(2)
    by (auto simp: cc__find_rhs_end_forward_def slice_def)
  have lbd: "?ls \<le> la" "lb \<le> op" using trim_range_bounds [OF l lhs_start_backward_le] by auto
  have rbd: "scan \<le> ra" "rb \<le> ?re" using trim_range_bounds [OF r re(1)] by auto
  have cut: "take x s = slice s 0 x" "drop x s = slice s x (length s)" for x by (simp_all add: slice_def)
  define pre where "pre = slice s 0 la"
  define post where "post = slice s rb (length s)"
  have "s = slice s 0 (length s)" by (simp add: slice_def)
  also have "\<dots> = pre @ slice s la lb @ slice s lb op @ slice s op ra @ slice s ra rb @ post"
    unfolding pre_def post_def using res(1,2) lbd rbd sc re by (simp add: slice_append)
  finally have s: "s = pre @ slice s la lb @ slice s lb op @ slice s op ra @ slice s ra rb @ post" .
  have o: "out = pre @ default_expr ctx s la lb (slice s ra rb) bnd ?i (cc__line_from_pos s op) @ post"
  proof -
    have "take ?ls s @ slice s ?ls la = pre" unfolding pre_def cut using lbd by (simp add: slice_append)
    moreover have "slice s rb ?re @ drop ?re s = post" unfolding post_def cut using rbd re by (simp add: slice_append)
    ultimately show ?thesis unfolding res(3) by (metis append.assoc)
  qed
  have len: "length (slice s x y) = y - x" if "x \<le> y" "y \<le> length s" for x y using that by (simp add: slice_length)
  have tk: "length (pre @ slice s la lb @ slice s lb op) = op"
    unfolding pre_def using res(1) lbd sc by (simp add: len)
  have ne: "slice s la lb \<noteq> []" "slice s ra rb \<noteq> []"
    using res(1,2) lbd rbd sc re by (simp_all flip: length_greater_0_conv add: len)
  have i: "?i = g_unwrap_id ids'" by (simp add: res(4))
  have "cc__find_unwrap_token s (length s) = Some (length (pre @ slice s la lb @ slice s lb op))" unfolding tk by (rule op)
  with s o ne i show ?thesis by blast
qed

theorem default_rewrite_local_witness:
  "\<exists>out ids' pre rhs post a b bnd i line. cc__rewrite_result_unwrap_once demo_ctx demo_ids ''f()?>0'' = Inr (Some (out, ids')) \<and>
     rhs \<noteq> [] \<and> out = pre @ default_expr demo_ctx ''f()?>0'' a b rhs bnd i line @ post \<and> i = g_unwrap_id ids'"
proof -
  have "(case cc__rewrite_result_unwrap_once demo_ctx demo_ids ''f()?>0'' of Inr (Some p) \<Rightarrow> True | _ \<Rightarrow> False)" by code_simp
  then obtain out ids' where r: "cc__rewrite_result_unwrap_once demo_ctx demo_ids ''f()?>0'' = Inr (Some (out, ids'))"
    by (auto split: sum.splits option.splits)
  from default_rewrite_local [OF r] r show ?thesis by blast
qed

section \<open>Values only after divergence\<close>

lemma bang_scan_after:
  assumes "(if cc_skip_ws_len s n (op + 2) < n \<and> s ! cc_skip_ws_len s n (op + 2) = CHR ''(''
    then (case bang_ident s (cc_skip_ws_len s n (op + 2)) of Inl e \<Rightarrow> Inl e | Inr (b, rpar) \<Rightarrow> Inr (Some b, cc_skip_ws_len s n (rpar + 1)))
    else Inr (None, cc_skip_ws_len s n (op + 2))) = Inr (bnd, scan)"
  shows "op + 2 \<le> scan"
proof -
  let ?sc = "cc_skip_ws_len s n (op + 2)"
  have skip: "r \<le> cc_skip_ws_len s n r" for r by (simp add: cc_skip_ws_len_def)
  show ?thesis
  proof (cases "?sc < n \<and> s ! ?sc = CHR ''(''")
    case True
    then obtain b rpar where i: "bang_ident s ?sc = Inr (b, rpar)" and scan: "scan = cc_skip_ws_len s n (rpar + 1)"
      using assms by (auto split: sum.splits prod.splits)
    then have "cc_find_matching_paren s (length s) ?sc = Some rpar"
      by (auto simp: bang_ident_def split: option.splits prod.splits if_splits)
    from matching_bounds(1) [OF disjI1 [OF this]] have "?sc < rpar" .
    with skip [of "op + 2"] skip [of "rpar + 1"] show ?thesis unfolding scan by linarith
  next
    case False
    then have "scan = ?sc" using assms by (simp split: if_splits)
    then show ?thesis using skip [of "op + 2"] by simp
  qed
qed

text \<open>The error branch of an expression: the enclosing handler's body with its parameter renamed, or the own body with its
  forwards replaced, after the declaration of the error.\<close>

definition handler_branch :: "pu_ctx \<Rightarrow> string \<Rightarrow> nat \<Rightarrow> nat \<Rightarrow> string \<Rightarrow> nat \<Rightarrow> handler \<Rightarrow> string \<Rightarrow> string" where
  "handler_branch ctx s a b tmpv line h bnd =
    cc__ru_emit_uw_err_binder ctx s a b tmpv bnd line @
    cc__pu_flatten_handler_body (cc__pu_subst_word (h_body h) (cc__pu_extract_param_name (h_decl h) 128) bnd)"

definition own_branch :: "pu_ctx \<Rightarrow> string \<Rightarrow> nat \<Rightarrow> nat \<Rightarrow> string \<Rightarrow> nat \<Rightarrow> nat \<Rightarrow> string option \<Rightarrow> string \<Rightarrow> string" where
  "own_branch ctx s a b tmpv line t bnd body =
    (case bnd of
       None \<Rightarrow> body
     | Some e \<Rightarrow> cc__ru_emit_uw_err_binder ctx s a b tmpv (mangled_name t e) line @
         cc__pu_mangle_binder_in_body body e (mangled_name t e))"



section \<open>The loops\<close>

inductive steps :: "(pu_ids \<Rightarrow> string \<Rightarrow> rewrite) \<Rightarrow> nat \<Rightarrow> pu_ids \<times> string \<Rightarrow> pu_ids \<times> string \<Rightarrow> bool" for step where
  none: "steps step 0 c c"
| one: "step ids s = Inr (Some (s', ids')) \<Longrightarrow> steps step n (ids', s') c \<Longrightarrow> steps step (Suc n) (ids, s) c"

lemma rewrite_loop_steps:
  "rewrite_loop k step ids s any = Inr (out, ids', any') \<Longrightarrow>
   \<exists>n \<le> k. steps step n (ids, s) (ids', out) \<and> (n < k \<longrightarrow> step ids' out = Inr None) \<and> any' = (any \<or> 0 < n)"
proof (induction k arbitrary: ids s any)
  case (Suc k)
  show ?case
  proof (cases "step ids s")
    case (Inr r)
    show ?thesis
    proof (cases r)
      case None
      then show ?thesis using Suc.prems Inr by (intro exI [of _ 0]) (auto intro: steps.none)
    next
      case (Some p)
      obtain s1 i1 where p: "p = (s1, i1)" by fastforce
      have "rewrite_loop k step i1 s1 True = Inr (out, ids', any')" using Suc.prems Inr Some p by simp
      from Suc.IH [OF this] obtain n where "n \<le> k" "steps step n (i1, s1) (ids', out)" "n < k \<longrightarrow> step ids' out = Inr None" any' by auto
      then show ?thesis using steps.one [of step ids s s1 i1 n] Inr Some p by (intro exI [of _ "Suc n"]) auto
    qed
  qed (use Suc.prems in simp)
qed (auto intro: steps.none)

lemma once_none: "cc__rewrite_result_unwrap_once ctx ids s = Inr None \<Longrightarrow> cc__find_unwrap_token s (length s) = None"
  by (auto simp: cc__rewrite_result_unwrap_once_def Let_def split: option.splits prod.splits sum.splits if_splits)

lemma bang_none: "cc__rewrite_bang_once ctx ids s = Inr None \<Longrightarrow> bang_search s 0 = None"
  by (auto simp: cc__rewrite_bang_once_def cc__rewrite_bang_expr_once_def bang_stmt_binder_def bang_stmt_plain_def bare_delegate_def
    cc__rewrite_bang_binder_def Let_def split: option.splits prod.splits sum.splits if_splits)



section \<open>Plain handlers\<close>

lemma strstr_at: "strstr w s = Some k \<Longrightarrow> take (length w) (drop k s) = w \<and> k \<le> length s"
  by (induction s arbitrary: k) (auto split: if_splits)

lemma strstr_split: "strstr w (c_str s) = Some k \<Longrightarrow> s = take k s @ w @ drop (k + length w) s"
proof -
  assume a: "strstr w (c_str s) = Some k"
  define r where "r = dropWhile (\<lambda>c. c \<noteq> CHR 0x00) s"
  have r: "c_str s @ r = s" by (simp add: c_str_def r_def)
  have k: "take (length w) (drop k (c_str s)) = w" "k \<le> length (c_str s)" using strstr_at [OF a] by auto
  have "length (take (length w) (drop k (c_str s))) = length w" using k(1) by simp
  then have "length w \<le> length (drop k (c_str s))" by simp
  then have "take (length w) (drop k (c_str s @ r)) = w" using k by simp
  then have "take (length w) (drop k s) = w" unfolding r .
  then have "drop k s = w @ drop (k + length w) s"
    using append_take_drop_id [of "length w" "drop k s"] by (simp add: add.commute)
  then show ?thesis using append_take_drop_id [of k s] by simp
qed

text \<open>The rewrite of plain handlers on the tree is local: source and result split into the same pieces, each piece is kept or is a
  statement in which one sigil becomes an error clause, with a
  semicolon added at most.\<close>
theorem plain_bang_rewrite_local:
  assumes "cc__rewrite_nobinder_bangs_via_ir mem ok src = Some (Some out)"
  shows "\<exists>ps. src = concat (map fst ps) \<and> out = concat (map snd ps) \<and>
    (\<forall>(x, y) \<in> set ps. x = y \<or> (\<exists>u v semi. x = u @ ''!>'' @ v \<and> v \<noteq> [] \<and> y = u @ ''@err'' @ v @ semi \<and> (semi = [] \<or> semi = '';'')))"
proof -
  obtain arena root where r: "snd (cc_ir_build_from_stub ok (Some arena) src) = Some root"
    and out: "out = concat (map nobinder_text (nd_children root))"
    using assms by (auto simp: cc__rewrite_nobinder_bangs_via_ir_def split: if_splits option.splits)
  have "file_ok src (length src) root" using build_ok [of ok "Some arena" src _ root] r by (metis prod.collapse)
  then have src: "src = concat (map nd_raw (nd_children root))"
    using tiles_text [of src 0 "length src" "nd_children root"] by (simp add: file_ok_def slice_all)
  have piece: "nd_raw c = nobinder_text c \<or>
      (\<exists>u v semi. nd_raw c = u @ ''!>'' @ v \<and> v \<noteq> [] \<and> nobinder_text c = u @ ''@err'' @ v @ semi \<and> (semi = [] \<or> semi = '';''))" for c
  proof (cases "cc__ir_is_nobinder_stmt_bang c")
    case True
    then obtain k where k: "strstr ''!>'' (c_str (nd_raw c)) = Some k" "k + 2 < length (nd_raw c)" "nd_kind c = CC_IR_UNWRAP_BANG"
      by (auto simp: cc__ir_is_nobinder_stmt_bang_def split: option.splits)
    then have "nd_raw c = take k (nd_raw c) @ ''!>'' @ drop (k + 2) (nd_raw c)" using strstr_split [OF k(1)] by simp
    moreover have "drop (k + 2) (nd_raw c) \<noteq> []" using k(2) by simp
    moreover have "nobinder_text c = take k (nd_raw c) @ ''@err'' @ drop (k + 2) (nd_raw c) @
        (if nd_raw c = [] \<or> last (nd_raw c) \<noteq> CHR '';'' then '';'' else [])"
      using True k by (simp add: nobinder_text_def cc__ir_node_sigil_offset_def)
    ultimately show ?thesis by (intro disjI2 exI [of _ "take k (nd_raw c)"] exI [of _ "drop (k + 2) (nd_raw c)"]
      exI [of _ "if nd_raw c = [] \<or> last (nd_raw c) \<noteq> CHR '';'' then '';'' else []"]) auto
  qed (simp add: nobinder_text_def)
  let ?ps = "map (\<lambda>c. (nd_raw c, nobinder_text c)) (nd_children root)"
  have "src = concat (map fst ?ps)" unfolding map_map comp_def fst_conv by (rule src)
  moreover have "out = concat (map snd ?ps)" unfolding map_map comp_def snd_conv by (rule out)
  moreover have "\<forall>(x, y) \<in> set ?ps. x = y \<or>
      (\<exists>u v semi. x = u @ ''!>'' @ v \<and> v \<noteq> [] \<and> y = u @ ''@err'' @ v @ semi \<and> (semi = [] \<or> semi = '';''))"
    unfolding set_map ball_simps(9) prod.case using piece by blast
  ultimately show ?thesis by blast
qed

theorem plain_bang_rewrite_local_witness:
  "\<exists>out ps. cc__rewrite_nobinder_bangs_via_ir True (\<lambda>_. True) ''f()!>{g();}'' = Some (Some out) \<and>
     ''f()!>{g();}'' = concat (map fst ps) \<and> out = concat (map snd ps)"
proof -
  have r: "cc__rewrite_nobinder_bangs_via_ir True (\<lambda>_. True) ''f()!>{g();}'' = Some (Some ''f()@err{g();};'')" by code_simp
  from plain_bang_rewrite_local [OF r] r show ?thesis by blast
qed

text \<open>The offset of the sigil in a plain handler is searched without regard to literals: in a call with the sigil inside a string
  argument the rewrite changes the argument and leaves the operator.\<close>
theorem plain_bang_hits_literal:
  "cc__rewrite_nobinder_bangs_via_ir True (\<lambda>_. True) (''f('' @ dquote # ''!>'' @ dquote # '') !> return;'') =
    Some (Some (''f('' @ dquote # ''@err'' @ dquote # '') !> return;''))"
  by code_simp

end
