(* ===== verification/Spec2Isabelle.thy ===== *)
theory Spec2Isabelle
  imports CC_Prelude Ring_Threads Sched_Fiber Sched_Pool Wait_List Channel Chan_Ops Chan_Park
    Nursery Text_Scan Edit_Buffer Ir Name_Tables Type_Registry Unwrap_Rewrite
begin

text \<open>
  Concurrent-C is a compiler from an extended C to C (\<^verbatim>\<open>src/cc/src\<close>) and a runtime of fibers,
  channels and nurseries (\<^verbatim>\<open>src/cc/runtime\<close>).  This library models the concurrent core of the
  runtime and the text machinery of the compiler, and proves what the rest of the program relies on.

  \<^bold>\<open>The program.\<close>  Fibers run on worker threads.  A worker takes a fiber from the ready queue, resumes
  it, and parks, requeues or retires it when it comes back; a signal makes a parked fiber ready
  (\<^verbatim>\<open>sched_v2.c\<close>).  Fibers talk through channels (\<^verbatim>\<open>channel.c\<close>): a buffered channel holds its elements
  in a lock-free ring or in a circular buffer under a mutex, an unbuffered one hands elements from
  sender to receiver.  A fiber that cannot proceed links a wait node into a queue of the channel and
  parks; the other side, or a close, unlinks the node, marks it and signals the fiber.  A select links
  nodes on several channels and lets one of them win.  A nursery (\<^verbatim>\<open>nursery.c\<close>) owns the fibers spawned in it, waits
  for all of them and closes its registered channels.  The compiler rewrites source text: scanners find
  brackets, tokens and boundaries outside comments and literals (\<^verbatim>\<open>util/text.h\<close>), tables keep the names
  and types a source declares (\<^verbatim>\<open>preprocess/type_registry.c\<close>, \<^verbatim>\<open>result_spec.c\<close>), a tree of unwrap operators
  is carved out of the text (\<^verbatim>\<open>ir/ir.c\<close>), and an edit buffer collects
  the replacements of a pass and splices them (\<^verbatim>\<open>visitor/edit_buffer.c\<close>).

  \<^bold>\<open>The theories.\<close>
  \<^item> CC_Prelude holds the shared types (\<^verbatim>\<open>u64\<close>, \<^verbatim>\<open>u32\<close>, bytes, errno values) and lemmas.
  \<^item> Mpmc_Ring holds the abstract ring of positions and the interface of a bounded queue.  Ring_Queue
    holds the cells, the single-producer and the multi-producer operations of \<^verbatim>\<open>channel.c\<close> with 64-bit positions that
    wrap, and shows that they are operations of a bounded list.  Ring_Threads runs any number of
    threads step by step through the multi-producer loops: no interleaving loses, duplicates
    or reorders a value.
  \<^item> Sched_Fiber is the state word of a fiber with its pending bit, and the interleavings of workers and
    signallers: a signal is never lost, a fiber has one owner.  Sched_Pool has the intrusive ready
    queue, the free list, the join handshake, park deadlines and the deadlock detector; it proves
    the queue a first-in first-out queue, the join and the detector correct, and shows the two schedules in which
    reuse of a fiber goes wrong.
  \<^item> Wait_List is the doubly linked waiter list over a store of nodes, refined to a list.  Channel has the
    channel record, wait nodes, select groups, waiter queues with their counters, and the
    close family.  Chan_Ops has the buffer operations, non-blocking send and receive, the rendezvous of
    unbuffered channels and the match scan, refined to a bounded list with an overflow policy.  Chan_Park is
    the waiting loop of a blocking receive against senders and close, as an interleaving machine.
  \<^item> Nursery has the sequential operations of a nursery and the barrier of its default
    mode as an interleaving machine.
  \<^item> Name_Tables has the string set and map, the registry of result functions and the result specifications with their mangled
    names, as implementations of two interfaces, a set and a map of names.  Type_Registry has the type registry: its tables are such maps, the
    scoped lookup of local variables is refined to block structure, and chains of fields are resolved step by step.
  \<^item> Ir has the arena, the recogniser of unwrap sigils that carves a source into a tree, the emitter and the
    verifier of \<^verbatim>\<open>ir/ir.c\<close> and \<^verbatim>\<open>ir/verifier.c\<close>: building and emitting is the identity, and arena regions are disjoint.
  \<^item> Unwrap_Scan and Unwrap_Rewrite have the pass of \<^verbatim>\<open>visitor/pass_result_unwrap.c\<close>: its scanners, compared with those of Ir, the check that a handler
    ends in a jump, the lookup and flattening of handlers, the rewrites of the default operator and of handlers, and the driver.
  \<^item> Text_Scan has the scanners over a common lexer with comment and literal modes.  Edit_Buffer
    has the edit buffer, refined to a splice of the source.

  \<^bold>\<open>Correspondence.\<close>  Definitions keep the names of the C functions; a loop or a critical section
  that gets its own definition is named after what it does.  A C struct is a record, pointers to nodes and fibers are
  natural numbers into a store, NULL is None, an error return is an errno value, and the result of an allocation is a
  Boolean argument.  Counters of the ring and of the wake primitives keep their width.  In an
  interleaving machine each thread has a program counter with one constructor per
  atomic access or critical section, an event names the thread that moves, and a run folds the
  step function over a list of events, so that a theorem about all runs covers all
  schedules; atomic operations are sequentially consistent.

  \<^bold>\<open>Bounds.\<close>  The unbounded compare-and-swap loops of the ring and the drain of a closed channel are partial
  functions, proved to return where no other thread interferes.  The theorems of Ring_Threads assume fewer
  than $2^{63}$ enqueues and those of the nursery barrier fewer than $2^{32}$ events, so that the
  counters of the code do not wrap within one comparison.  The round trip of Ir is for sources below $2^{58}$
  bytes and its arena for requests below $2^{62}$ bytes, far above what a compiler reads, so that sizes do not wrap.

  \<^bold>\<open>Not modelled.\<close>  Weak memory orderings; the context switch (third-party coroutines); the
  lock-free queue of liblfds, which the ring replaces by default; OS threads blocked on condition
  variables; timed channel operations; the monitor thread's eviction policy; environment variables, statistics and
  debug output; input and output, network and process wrappers, which only call the system;
  the passes of the compiler that work on the syntax tree of the third-party parser.
\<close>

end
